(* ===== verification/Odf_Prelude.thy ===== *)
theory Odf_Prelude
  imports Main "HOL-Library.Word" "HOL-Library.Sublist"
begin

text \<open>
  Shared vocabulary of the development.

  A Rust \<^verbatim>\<open>String\<close> or \<^verbatim>\<open>&str\<close> is a HOL \<^typ>\<open>string\<close> whose characters are its UTF-8
  \<^verbatim>\<open>bytes\<close>: \<^term>\<open>length\<close> is Rust's \<^verbatim>\<open>len\<close>, equality and the lexicographic order are
  Rust's, and an operation that only looks for ASCII characters is the same bytewise and charwise.
  Code that depends on code points decodes with \<^verbatim>\<open>utf8_chars\<close> first.  A byte vector is a list
  of 8-bit words.  A Rust \<^verbatim>\<open>Result<A, E>\<close> is the sum \<^typ>\<open>'e + 'a\<close> with the error on the left.
  Signed manifest integers (\<^verbatim>\<open>i32\<close>, \<^verbatim>\<open>i64\<close>) are \<^typ>\<open>int\<close>s with range lemmas where the code
  depends on the range; unsigned 64-bit counters are \<^typ>\<open>nat\<close>s with their wrap, saturation or
  overflow check written out.
\<close>

section \<open>Types\<close>

unbundle bit_operations_syntax

type_synonym byte = "8 word"
type_synonym bytes = "8 word list"
type_synonym u32 = "32 word"

abbreviation Err :: "'e \<Rightarrow> 'e + 'a" where "Err \<equiv> Inl"
abbreviation Ok :: "'a \<Rightarrow> 'e + 'a" where "Ok \<equiv> Inr"

named_theorems odf_defs \<open>the tables and small definitions the component proofs unfold\<close>

section \<open>Results\<close>

text \<open>Rust's \<^verbatim>\<open>?\<close> operator.\<close>

fun and_then :: "'e + 'a \<Rightarrow> ('a \<Rightarrow> 'e + 'b) \<Rightarrow> 'e + 'b" where
  "and_then (Inl e) f = Inl e"
| "and_then (Inr x) f = f x"

lemma and_then_Ok [simp]: "and_then r f = Inr y \<longleftrightarrow> (\<exists>x. r = Inr x \<and> f x = Inr y)"
  by (cases r) auto

lemma and_then_Err: "and_then r f = Inl e \<longleftrightarrow> r = Inl e \<or> (\<exists>x. r = Inr x \<and> f x = Inl e)"
  by (cases r) auto

fun map_err :: "('e \<Rightarrow> 'f) \<Rightarrow> 'e + 'a \<Rightarrow> 'f + 'a" where
  "map_err f (Inl e) = Inl (f e)"
| "map_err f (Inr x) = Inr x"

lemma map_err_Ok [simp]: "map_err f r = Inr y \<longleftrightarrow> r = Inr y"
  by (cases r) auto

section \<open>Fixed-width integers\<close>

definition i32_min :: int where "i32_min = - (2 ^ 31)"
definition i32_max :: int where "i32_max = 2 ^ 31 - 1"
definition i64_min :: int where "i64_min = - (2 ^ 63)"
definition i64_max :: int where "i64_max = 2 ^ 63 - 1"
definition u32_max :: nat where "u32_max = 2 ^ 32 - 1"
definition u64_max :: nat where "u64_max = 2 ^ 64 - 1"

lemmas int_limits = i32_min_def i32_max_def i64_min_def i64_max_def u32_max_def u64_max_def

text \<open>\<^verbatim>\<open>u64::saturating_add\<close> and \<^verbatim>\<open>u64::checked_add\<close> on naturals below the limit.\<close>

definition saturating_add64 :: "nat \<Rightarrow> nat \<Rightarrow> nat" where
  "saturating_add64 a b = min (a + b) u64_max"

definition checked_add64 :: "nat \<Rightarrow> nat \<Rightarrow> nat option" where
  "checked_add64 a b = (if a + b \<le> u64_max then Some (a + b) else None)"

text \<open>\<^verbatim>\<open>u32::try_from\<close> of a signed integer: fails below zero and above the maximum.\<close>

definition u32_try_from :: "int \<Rightarrow> nat option" where
  "u32_try_from i = (if 0 \<le> i \<and> i \<le> int u32_max then Some (nat i) else None)"

lemma u32_try_from_Some [simp]:
  "u32_try_from i = Some n \<longleftrightarrow> i = int n \<and> n \<le> u32_max"
  by (auto simp: u32_try_from_def)

lemma u32_try_from_None [simp]:
  "u32_try_from i = None \<longleftrightarrow> i < 0 \<or> int u32_max < i"
  by (auto simp: u32_try_from_def)

section \<open>Little-endian fields\<close>

fun le_bytes :: "nat \<Rightarrow> nat \<Rightarrow> bytes" where
  "le_bytes 0 n = []"
| "le_bytes (Suc k) n = of_nat n # le_bytes k (n div 256)"

fun le_value :: "bytes \<Rightarrow> nat" where
  "le_value [] = 0"
| "le_value (b # bs) = unat b + 256 * le_value bs"

lemma unat_byte_less [simp]: "unat (b :: byte) < 256"
  using unsigned_less [of b] by simp

lemma length_le_bytes [simp]: "length (le_bytes k n) = k"
  by (induction k n rule: le_bytes.induct) auto

lemma unat_of_nat_byte [simp]: "unat (of_nat n :: byte) = n mod 256"
  by (simp add: unat_of_nat)

lemma le_value_le_bytes [simp]: "le_value (le_bytes k n) = n mod 256 ^ k"
proof (induction k n rule: le_bytes.induct)
  case (2 k n)
  then show ?case by (simp add: mod_mult2_eq)
qed simp

lemma le_value_bound: "le_value bs < 256 ^ length bs"
proof (induction bs)
  case (Cons b bs)
  show ?case
    using Cons unat_byte_less [of b] unfolding le_value.simps length_Cons power_Suc by linarith
qed simp

lemma le_bytes_le_value [simp]: "le_bytes (length bs) (le_value bs) = bs"
proof (induction bs)
  case (Cons b bs)
  have b: "unat b < 256" by simp
  then have "(unat b + 256 * le_value bs) div 256 = le_value bs" by simp
  moreover have "(of_nat (unat b + 256 * le_value bs) :: byte) = b"
    by (subst word_unat_eq_iff, subst unat_of_nat_byte) (use b in simp)
  ultimately show ?case using Cons by simp
qed simp

section \<open>UTF-8\<close>

text \<open>
  \<^verbatim>\<open>str::chars\<close>: the code points of a UTF-8 string.  Rust guarantees the string is well-formed; on a
  list that is not, the decoder below is merely total.
\<close>

fun cont :: "char \<Rightarrow> nat" where
  "cont c = of_char c mod 64"

fun utf8_chars :: "string \<Rightarrow> nat list" where
  "utf8_chars [] = []"
| "utf8_chars (c # cs) =
    (let b = (of_char c :: nat) in
     if b < 128 then b # utf8_chars cs
     else if b < 224 then
       (case cs of d # ds \<Rightarrow> ((b mod 32) * 64 + cont d) # utf8_chars ds | _ \<Rightarrow> [b])
     else if b < 240 then
       (case cs of d # e # ds \<Rightarrow> ((b mod 16) * 4096 + cont d * 64 + cont e) # utf8_chars ds
                 | _ \<Rightarrow> [b])
     else
       (case cs of d # e # f # ds \<Rightarrow>
          ((b mod 8) * 262144 + cont d * 4096 + cont e * 64 + cont f) # utf8_chars ds
                 | _ \<Rightarrow> [b]))"

text \<open>\<^verbatim>\<open>char::encode_utf8\<close>.\<close>

fun utf8_char :: "nat \<Rightarrow> string" where
  "utf8_char n =
    (if n < 128 then [char_of n]
     else if n < 2048 then [char_of (192 + n div 64), char_of (128 + n mod 64)]
     else if n < 65536 then
       [char_of (224 + n div 4096), char_of (128 + n div 64 mod 64), char_of (128 + n mod 64)]
     else [char_of (240 + n div 262144), char_of (128 + n div 4096 mod 64),
           char_of (128 + n div 64 mod 64), char_of (128 + n mod 64)])"

text \<open>\<^verbatim>\<open>char::from_u32\<close> succeeds on a Unicode scalar value.\<close>

definition scalar_value :: "nat \<Rightarrow> bool" where
  "scalar_value n \<longleftrightarrow> n < 55296 \<or> 57344 \<le> n \<and> n < 1114112"

declare utf8_char.simps [simp del] utf8_chars.simps [simp del] cont.simps [simp del]

lemma utf8_chars_Nil [simp]: "utf8_chars [] = []"
  by (simp add: utf8_chars.simps)

lemma utf8_chars_ascii [simp]:
  "of_char c < (128::nat) \<Longrightarrow> utf8_chars (c # cs) = of_char c # utf8_chars cs"
  by (simp add: utf8_chars.simps Let_def)

lemma div_mod_join:
  fixes n :: nat
  shows "n div (a * b) * (a * b) + n div b mod a * b + n mod b = n"
proof -
  have "n div (a * b) = n div b div a" by (metis div_mult2_eq mult.commute)
  then have "n div (a * b) * (a * b) + n div b mod a * b = n div b * b"
    by (metis distrib_right div_mult_mod_eq mult.assoc)
  then show ?thesis by simp
qed

lemma mod_off: "m dvd k \<Longrightarrow> x < m \<Longrightarrow> (k + x) mod m = x" for x :: nat
  by (metis mod_add_left_eq add_0 dvd_imp_mod_0 mod_less)

lemma utf8_chars_2:
  assumes "b < 32" "c < 64"
  shows "utf8_chars (char_of (192 + b) # char_of (128 + c) # cs) = (b * 64 + c) # utf8_chars cs"
proof -
  have m: "(192 + b) mod 32 = b" "(128 + c) mod 64 = c" using assms by (intro mod_off; simp)+
  have k: "(192 + b) mod 256 = 192 + b" "(128 + c) mod 256 = 128 + c" using assms by auto
  show ?thesis
    by (subst utf8_chars.simps)
       (use assms in \<open>simp add: Let_def cont.simps m k del: mod_add_self1 mod_add_self2\<close>)
qed

lemma utf8_chars_3:
  assumes "b < 16" "c < 64" "d < 64"
  shows "utf8_chars (char_of (224 + b) # char_of (128 + c) # char_of (128 + d) # cs)
    = (b * 4096 + c * 64 + d) # utf8_chars cs"
proof -
  have m: "(224 + b) mod 16 = b" "(128 + c) mod 64 = c" "(128 + d) mod 64 = d"
    using assms by (intro mod_off; simp)+
  have k: "(224 + b) mod 256 = 224 + b" "(128 + c) mod 256 = 128 + c" "(128 + d) mod 256 = 128 + d"
    using assms by auto
  show ?thesis
    by (subst utf8_chars.simps) (use assms in \<open>simp add: Let_def cont.simps m k\<close>)
qed

lemma utf8_chars_4:
  assumes "b < 8" "c < 64" "d < 64" "e < 64"
  shows "utf8_chars (char_of (240 + b) # char_of (128 + c) # char_of (128 + d)
      # char_of (128 + e) # cs) = (b * 262144 + c * 4096 + d * 64 + e) # utf8_chars cs"
proof -
  have m: "(240 + b) mod 8 = b" "(128 + c) mod 64 = c" "(128 + d) mod 64 = d"
    "(128 + e) mod 64 = e"
    using assms by (intro mod_off; simp)+
  have k: "(240 + b) mod 256 = 240 + b" "(128 + c) mod 256 = 128 + c" "(128 + d) mod 256 = 128 + d"
    "(128 + e) mod 256 = 128 + e"
    using assms by auto
  show ?thesis
    by (subst utf8_chars.simps) (use assms in \<open>simp add: Let_def cont.simps m k\<close>)
qed

lemma utf8_roundtrip_char [simp]:
  assumes "n < 1114112"
  shows "utf8_chars (utf8_char n @ cs) = n # utf8_chars cs"
proof -
  consider "n < 128" | "128 \<le> n" "n < 2048" | "2048 \<le> n" "n < 65536" | "65536 \<le> n"
    by linarith
  then show ?thesis
  proof cases
    case 1
    then show ?thesis by (simp add: utf8_char.simps)
  next
    case 2
    then have "n div 64 < 32" "n mod 64 < 64" by auto
    from utf8_chars_2 [OF this] 2 show ?thesis by (simp add: utf8_char.simps)
  next
    case 3
    then have "n div 4096 < 16" "n div 64 mod 64 < 64" "n mod 64 < 64" by auto
    from utf8_chars_3 [OF this] 3 div_mod_join [of n 64 64] show ?thesis
      by (simp add: utf8_char.simps)
  next
    case 4
    have "n div 262144 < 8" using assms by auto
    have "n div 262144 * 262144 + n div 4096 mod 64 * 4096 + n div 64 mod 64 * 64 + n mod 64 = n"
      using div_mod_join [of n 64 64, simplified] div_mod_join [of n 64 4096, simplified]
        div_mult_mod_eq [of n 4096] by linarith
    with utf8_chars_4 [OF \<open>n div 262144 < 8\<close>] 4 show ?thesis by (simp add: utf8_char.simps)
  qed
qed

lemma utf8_roundtrip:
  "\<forall>n \<in> set ns. n < 1114112 \<Longrightarrow> utf8_chars (concat (map utf8_char ns)) = ns"
  by (induction ns) auto

section \<open>UTF-8 validation\<close>

text \<open>
  The standard library's scan of a byte string: for the sequence at the front, whether it is
  well-formed and how many bytes it takes (for an ill-formed one, the maximal prefix that
  \<^verbatim>\<open>from_utf8_lossy\<close> replaces by one U+FFFD).
\<close>

definition is_cont :: "nat \<Rightarrow> bool" where
  "is_cont b \<longleftrightarrow> 128 \<le> b \<and> b \<le> 191"

definition second_ok :: "nat \<Rightarrow> nat \<Rightarrow> bool" where
  "second_ok b c \<longleftrightarrow>
    (if b = 224 then 160 \<le> c \<and> c \<le> 191
     else if b = 237 then 128 \<le> c \<and> c \<le> 159
     else if b = 240 then 144 \<le> c \<and> c \<le> 191
     else if b = 244 then 128 \<le> c \<and> c \<le> 143
     else is_cont c)"

definition utf8_front :: "nat list \<Rightarrow> bool \<times> nat" where
  "utf8_front bs =
    (let byte = (\<lambda>i. if i < length bs then bs ! i else 0); b = byte 0 in
     if b < 128 then (True, 1)
     else if b < 194 \<or> 244 < b then (False, 1)
     else if b < 224 then (if is_cont (byte 1) then (True, 2) else (False, 1))
     else if b < 240 then
       (if \<not> second_ok b (byte 1) then (False, 1)
        else if \<not> is_cont (byte 2) then (False, 2) else (True, 3))
     else
       (if \<not> second_ok b (byte 1) then (False, 1)
        else if \<not> is_cont (byte 2) then (False, 2)
        else if \<not> is_cont (byte 3) then (False, 3) else (True, 4)))"

lemma utf8_front_pos: "0 < snd (utf8_front bs)"
  by (simp add: utf8_front_def Let_def)

function utf8_valid :: "string \<Rightarrow> bool" where
  "utf8_valid s =
    (if s = [] then True
     else (let front = utf8_front (map of_char s) in fst front \<and> utf8_valid (drop (snd front) s)))"
  by pat_completeness auto
termination
  by (relation "measure length") (auto simp: utf8_front_pos)

function from_utf8_lossy :: "string \<Rightarrow> string" where
  "from_utf8_lossy s =
    (if s = [] then []
     else (let front = utf8_front (map of_char s) in
             (if fst front then take (snd front) s else [CHR 0xEF, CHR 0xBF, CHR 0xBD])
               @ from_utf8_lossy (drop (snd front) s)))"
  by pat_completeness auto
termination
  by (relation "measure length") (auto simp: utf8_front_pos)

declare utf8_valid.simps [simp del] from_utf8_lossy.simps [simp del]

lemma from_utf8_lossy_valid: "utf8_valid s \<Longrightarrow> from_utf8_lossy s = s"
proof (induction s rule: utf8_valid.induct)
  case (1 s)
  from 1(2) show ?case
    by (subst from_utf8_lossy.simps, subst (asm) utf8_valid.simps)
       (auto simp: Let_def 1(1) split: if_splits)
qed

lemma utf8_ascii_valid: "\<forall>c \<in> set s. (of_char c :: nat) < 128 \<Longrightarrow> utf8_valid s"
proof (induction s)
  case (Cons c s)
  then show ?case
    by (subst utf8_valid.simps) (simp add: utf8_front_def Let_def)
qed (simp add: utf8_valid.simps)

section \<open>What a lossy decoding keeps\<close>

text \<open>Every ASCII byte survives \<^verbatim>\<open>from_utf8_lossy\<close> in place, and nothing else becomes one.\<close>

definition is_ascii :: "char \<Rightarrow> bool" where
  "is_ascii c \<longleftrightarrow> (of_char c :: nat) < 128"

lemma utf8_front_ascii:
  "is_ascii c \<Longrightarrow> utf8_front (map of_char (c # s)) = (True, 1)"
  by (simp add: utf8_front_def is_ascii_def Let_def)

lemma second_ok_high: "second_ok b c \<Longrightarrow> 128 \<le> c"
  by (auto simp: second_ok_def is_cont_def split: if_splits)

lemma utf8_front_high:
  assumes "\<not> is_ascii c" "m = snd (utf8_front (map of_char (c # s)))"
  shows "\<forall>d \<in> set (take m (c # s)). \<not> is_ascii d"
proof -
  define bs where "bs = (map of_char (c # s) :: nat list)"
  define B where "B i = (if i < length bs then bs ! i else 0)" for i
  have first: "128 \<le> B 0" using assms(1) by (simp add: B_def bs_def is_ascii_def)
  have cont: "is_cont b \<Longrightarrow> 128 \<le> b" for b by (simp add: is_cont_def)
  have m: "m = snd (let b = B 0 in
     if b < 128 then (True, 1)
     else if b < 194 \<or> 244 < b then (False, 1)
     else if b < 224 then (if is_cont (B 1) then (True, 2) else (False, 1))
     else if b < 240 then
       (if \<not> second_ok b (B 1) then (False, 1)
        else if \<not> is_cont (B 2) then (False, 2) else (True, 3))
     else
       (if \<not> second_ok b (B 1) then (False, 1)
        else if \<not> is_cont (B 2) then (False, 2)
        else if \<not> is_cont (B 3) then (False, 3) else (True, 4)))"
    unfolding assms(2) bs_def [symmetric] utf8_front_def B_def Let_def ..
  have lt: "i < 2 \<longleftrightarrow> i = 0 \<or> i = 1" "i < 3 \<longleftrightarrow> i = 0 \<or> i = 1 \<or> i = 2"
    "i < 4 \<longleftrightarrow> i = 0 \<or> i = 1 \<or> i = 2 \<or> i = 3" for i :: nat by auto
  have all: "128 \<le> B i" if "i < m" for i
    using that first unfolding m Let_def
    by (simp only: split: if_splits) (auto simp: lt dest: cont second_ok_high)
  show ?thesis
  proof
    fix d assume "d \<in> set (take m (c # s))"
    then obtain i where i: "i < m" "i < length (c # s)" "d = (c # s) ! i"
      by (auto simp: in_set_conv_nth)
    with all [OF i(1)] show "\<not> is_ascii d" by (simp add: B_def bs_def is_ascii_def del: list.map)
  qed
qed

lemma lossy_Nil [simp]: "from_utf8_lossy [] = []"
  by (simp add: from_utf8_lossy.simps)

lemma lossy_ascii [simp]: "is_ascii c \<Longrightarrow> from_utf8_lossy (c # s) = c # from_utf8_lossy s"
  by (subst from_utf8_lossy.simps) (simp add: utf8_front_ascii del: list.map)

lemma lossy_high:
  assumes "\<not> is_ascii c"
  obtains m piece where "0 < m" "from_utf8_lossy (c # s) = piece @ from_utf8_lossy (drop m (c # s))"
    "\<forall>d \<in> set piece. \<not> is_ascii d" "\<forall>d \<in> set (take m (c # s)). \<not> is_ascii d" "piece \<noteq> []"
proof -
  define m where "m = snd (utf8_front (map of_char (c # s)))"
  define piece where "piece = (if fst (utf8_front (map of_char (c # s))) then take m (c # s)
    else [CHR 0xEF, CHR 0xBF, CHR 0xBD])"
  have high: "\<forall>d \<in> set (take m (c # s)). \<not> is_ascii d"
    using utf8_front_high [OF assms m_def] .
  have pos: "0 < m" by (simp add: m_def utf8_front_pos del: list.map)
  have "\<not> is_ascii CHR 0xEF" "\<not> is_ascii CHR 0xBF" "\<not> is_ascii CHR 0xBD"
    by (simp_all add: is_ascii_def)
  with high have "\<forall>d \<in> set piece. \<not> is_ascii d" by (simp add: piece_def)
  moreover have "from_utf8_lossy (c # s) = piece @ from_utf8_lossy (drop m (c # s))"
    by (subst from_utf8_lossy.simps) (simp add: piece_def m_def Let_def del: list.map)
  moreover have "piece \<noteq> []" using pos by (simp add: piece_def)
  ultimately show thesis using that pos high by blast
qed

lemma lossy_all_ascii: "\<forall>c \<in> set (from_utf8_lossy s). is_ascii c \<Longrightarrow> from_utf8_lossy s = s"
proof (induction s)
  case (Cons c s)
  show ?case
  proof (cases "is_ascii c")
    case False
    obtain m piece where p: "0 < m"
      "from_utf8_lossy (c # s) = piece @ from_utf8_lossy (drop m (c # s))"
      "\<forall>d \<in> set piece. \<not> is_ascii d" "\<forall>d \<in> set (take m (c # s)). \<not> is_ascii d" "piece \<noteq> []"
      by (rule lossy_high [OF False])
    from p(5) have "hd piece \<in> set piece" by simp
    then have "hd piece \<in> set (from_utf8_lossy (c # s))" unfolding p(2) set_append by (rule UnI1)
    with Cons.prems p(3) \<open>hd piece \<in> set piece\<close> show ?thesis by blast
  qed (use Cons in simp)
qed simp

lemma dropWhile_lossy:
  assumes "is_ascii a"
  shows "dropWhile (\<lambda>c. c \<noteq> a) (from_utf8_lossy s) = from_utf8_lossy (dropWhile (\<lambda>c. c \<noteq> a) s)"
proof (induction s rule: length_induct)
  case (1 s)
  show ?case
  proof (cases s)
    case (Cons c t)
    show ?thesis
    proof (cases "is_ascii c")
      case True
      with 1 Cons show ?thesis by (cases "c = a") simp_all
    next
      case False
      obtain m piece where p: "0 < m"
        "from_utf8_lossy (c # t) = piece @ from_utf8_lossy (drop m (c # t))"
        "\<forall>d \<in> set piece. \<not> is_ascii d" "\<forall>d \<in> set (take m (c # t)). \<not> is_ascii d" "piece \<noteq> []"
        by (rule lossy_high [OF False])
      have skip: "dropWhile (\<lambda>c. c \<noteq> a) (xs @ ys) = dropWhile (\<lambda>c. c \<noteq> a) ys"
        if "\<forall>d \<in> set xs. \<not> is_ascii d" for xs ys
        using that assms by (auto intro!: dropWhile_append2)
      have "dropWhile (\<lambda>c. c \<noteq> a) (c # t) = dropWhile (\<lambda>c. c \<noteq> a) (drop m (c # t))"
        using skip [OF p(4), of "drop m (c # t)"] by (simp only: append_take_drop_id)
      moreover have "length (drop m (c # t)) < length s" using p(1) Cons by simp
      ultimately show ?thesis using 1 Cons p(2) skip [OF p(3)] by simp
    qed
  qed simp
qed

lemma ascii_suffix_lossy:
  assumes "\<forall>c \<in> set a. is_ascii c" "suffix a (from_utf8_lossy s)"
  shows "suffix a s"
  using assms(2)
proof (induction s rule: length_induct)
  case (1 s)
  have ih: "suffix a r" if "length r < length s" "suffix a (from_utf8_lossy r)" for r
    using 1(1) that by blast
  show ?case
  proof (cases s)
    case (Cons c t)
    show ?thesis
    proof (cases "is_ascii c")
      case True
      have "suffix a (c # from_utf8_lossy t)" using 1(2) Cons True by simp
      then consider "suffix a (from_utf8_lossy t)" | "a = c # from_utf8_lossy t"
        by (auto simp: suffix_Cons)
      then show ?thesis
      proof cases
        case 1
        have "length t < length s" by (simp add: Cons)
        then have "suffix a t" using 1 by (rule ih)
        then show ?thesis by (simp add: Cons suffix_ConsI)
      next
        case 2
        then have "from_utf8_lossy t = t" using assms(1) by (intro lossy_all_ascii) simp
        with 2 Cons show ?thesis by simp
      qed
    next
      case False
      obtain m piece where p: "0 < m"
        "from_utf8_lossy (c # t) = piece @ from_utf8_lossy (drop m (c # t))"
        "\<forall>d \<in> set piece. \<not> is_ascii d" "\<forall>d \<in> set (take m (c # t)). \<not> is_ascii d" "piece \<noteq> []"
        by (rule lossy_high [OF False])
      have "suffix a (piece @ from_utf8_lossy (drop m (c # t)))"
        using 1(2) unfolding Cons p(2) .
      then consider "suffix a (from_utf8_lossy (drop m (c # t)))"
        | xs where "a = xs @ from_utf8_lossy (drop m (c # t))" "suffix xs piece" "xs \<noteq> []"
        unfolding suffix_append by (metis append_Nil suffix_order.refl)
      then show ?thesis
      proof cases
        case 1
        have "length (drop m (c # t)) < length s" using p(1) by (simp add: Cons)
        then have "suffix a (drop m (c # t))" using 1 by (rule ih)
        then show ?thesis unfolding Cons by (rule suffix_order.trans) (rule suffix_drop)
      next
        case 2
        have hd: "hd xs \<in> set xs" using 2(3) by (rule hd_in_set)
        have "hd xs \<in> set a" unfolding 2(1) set_append using hd by (rule UnI1)
        then have "is_ascii (hd xs)" using assms(1) by (rule bspec [rotated])
        moreover have "hd xs \<in> set piece" using set_mono_suffix [OF 2(2)] hd by (rule subsetD)
        ultimately show ?thesis using p(3) by (auto dest: bspec)
      qed
    qed
  qed (use 1 in simp)
qed

section \<open>Decimal numbers\<close>

text \<open>The standard library's decimal rendering of an unsigned number.\<close>

fun decimal :: "nat \<Rightarrow> string" where
  "decimal n = (if n < 10 then [char_of (48 + n)] else decimal (n div 10) @ [char_of (48 + n mod 10)])"

declare decimal.simps [simp del]

end
