(* ===== verification/Odf_Types.thy ===== *)
theory Odf_Types
  imports Odf_Prelude
begin

text \<open>
  The data of \<^verbatim>\<open>src/types.rs\<close>: the public result of \<^verbatim>\<open>classify\<close> and the two intermediates it is built
  from, the Stage A property bag and the accepted encryption row.  Constructors keep the source's
  names; where two enums share a constructor name the internal one carries a prefix
  (\<^verbatim>\<open>KdfId\<close>: \<^verbatim>\<open>IdPbkdf2\<close>, \<^verbatim>\<open>ChecksumAlg\<close>: \<^verbatim>\<open>AlgSha1_1K\<close>).  Record fields carry the record's initials,
  because HOL field names are global.
\<close>

section \<open>Public classification types\<close>

datatype odf_mode = Plain | PerEntry | Wholesome

datatype start_key_alg = Sha1 | Sha256

datatype cipher = BlowfishCfb8 | AesCbcW3c | AesGcmW3c

datatype kdf =
    Pbkdf2 (kdf_iterations: int) (kdf_salt: bytes)
  | Argon2id (kdf_t: int) (kdf_m: int) (kdf_p: int) (kdf_salt: bytes)
  | PgpRsaOaepMgf1p

datatype checksum = NoChecksum | Sha1_1K bytes | Sha256_1K bytes

record entry_encryption =
  ee_path :: string
  ee_cipher :: cipher
  ee_kdf :: kdf
  ee_start_key :: start_key_alg
  ee_checksum :: checksum
  ee_size :: int
  ee_iv :: bytes
  ee_derived_key_len :: int

record encrypted_key =
  key_id :: bytes
  key_packet :: bytes
  cipher_value :: bytes

record classification =
  cl_mode :: odf_mode
  cl_package_encrypted :: bool
  cl_has_non_encrypted_entries :: bool
  cl_odf_version :: "string option"
  cl_zip_has_encrypted_package :: bool
  cl_media_type :: "string option"
  cl_common :: "entry_encryption option"
  cl_encrypted_entries :: "entry_encryption list"
  cl_has_unexpected_streams :: bool
  cl_odf12_fatal :: bool
  cl_pgp_keys :: "encrypted_key list"

text \<open>\<^verbatim>\<open>Classification::wholesome_row\<close>: the row \<^verbatim>\<open>decrypt\<close> acts on for a wholesome package.\<close>

definition encrypted_package :: string where
  "encrypted_package = ''encrypted-package''"

definition wholesome_row :: "classification \<Rightarrow> entry_encryption option" where
  "wholesome_row c =
    (if cl_mode c \<noteq> Wholesome then None
     else find (\<lambda>e. ee_path e = encrypted_package) (cl_encrypted_entries c))"

datatype detect_error =
    NotZip
  | MissingManifest
  | ZipErr string
  | Inconsistent string
  | DetectIo string

section \<open>Stage A intermediates\<close>

datatype checksum_alg = AlgSha1_1K | AlgSha256_1K

datatype kdf_id = IdPbkdf2 | IdArgon2id | IdPgpRsaOaepMgf1p

definition empty_key :: encrypted_key where
  "empty_key = \<lparr>key_id = [], key_packet = [], cipher_value = []\<rparr>"

record property_bag =
  bag_full_path :: string
  bag_media_type :: "string option"
  bag_version :: "string option"
  bag_size :: "int option"
  bag_salt :: "bytes option"
  bag_iv :: "bytes option"
  bag_iteration_count :: "int option"
  bag_derived_key_size :: "int option"
  bag_digest :: "bytes option"
  bag_digest_alg :: "checksum_alg option"
  bag_enc_alg :: "cipher option"
  bag_start_key_alg :: "start_key_alg option"
  bag_kdf :: "kdf_id option"
  bag_argon2_args :: "(int \<times> int \<times> int) option"
  bag_key_info :: "encrypted_key list option"

text \<open>\<^verbatim>\<open>PropertyBag::default()\<close>.\<close>

definition empty_bag :: property_bag where
  "empty_bag = \<lparr>bag_full_path = [], bag_media_type = None, bag_version = None, bag_size = None,
     bag_salt = None, bag_iv = None, bag_iteration_count = None, bag_derived_key_size = None,
     bag_digest = None, bag_digest_alg = None, bag_enc_alg = None, bag_start_key_alg = None,
     bag_kdf = None, bag_argon2_args = None, bag_key_info = None\<rparr>"

section \<open>Lemmas\<close>

lemma wholesome_row_SomeD:
  "wholesome_row c = Some e \<Longrightarrow>
    cl_mode c = Wholesome \<and> e \<in> set (cl_encrypted_entries c) \<and> ee_path e = encrypted_package"
  by (auto simp: wholesome_row_def find_Some_iff split: if_splits)

lemma wholesome_row_None_iff:
  "wholesome_row c = None \<longleftrightarrow>
    cl_mode c \<noteq> Wholesome \<or> encrypted_package \<notin> ee_path ` set (cl_encrypted_entries c)"
  by (auto simp: wholesome_row_def find_None_iff image_iff)

end
