(* ===== verification/Odf_Uris.thy ===== *)
theory Odf_Uris
  imports Odf_Types
begin

text \<open>
  The URI and name tables of \<^verbatim>\<open>src/uris.rs\<close>: the strings \<^verbatim>\<open>ManifestImport\<close> accepts, the mapping from
  them to ciphers, digests and key-derivation functions, and the strings the manifest writer emits.
\<close>

section \<open>Strings\<close>

definition manifest_ns_ooo :: string where
  "manifest_ns_ooo = ''http://openoffice.org/2001/manifest''"

definition manifest_ns_oasis :: string where
  "manifest_ns_oasis = ''urn:oasis:names:tc:opendocument:xmlns:manifest:1.0''"

definition manifest_ns_loext :: string where
  "manifest_ns_loext = ''urn:org:documentfoundation:names:experimental:office:xmlns:loext:1.0''"

definition manifest_prefix :: string where
  "manifest_prefix = ''manifest:''"

definition element_manifest :: string where
  "element_manifest = ''manifest:manifest''"

definition element_file_entry :: string where
  "element_file_entry = ''manifest:file-entry''"

definition element_encryption_data :: string where
  "element_encryption_data = ''manifest:encryption-data''"

definition element_algorithm :: string where
  "element_algorithm = ''manifest:algorithm''"

definition element_start_key_generation :: string where
  "element_start_key_generation = ''manifest:start-key-generation''"

definition element_key_derivation :: string where
  "element_key_derivation = ''manifest:key-derivation''"

definition element_loext_keyinfo :: string where
  "element_loext_keyinfo = ''loext:keyinfo''"

definition element_loext_encrypted_key :: string where
  "element_loext_encrypted_key = ''loext:encrypted-key''"

definition element_loext_encryption_method :: string where
  "element_loext_encryption_method = ''loext:encryption-method''"

definition element_loext_keyinfo_dsig :: string where
  "element_loext_keyinfo_dsig = ''loext:KeyInfo''"

definition element_loext_pgp_data :: string where
  "element_loext_pgp_data = ''loext:PGPData''"

definition element_loext_pgp_key_id :: string where
  "element_loext_pgp_key_id = ''loext:PGPKeyID''"

definition element_loext_pgp_key_packet :: string where
  "element_loext_pgp_key_packet = ''loext:PGPKeyPacket''"

definition element_loext_cipher_data :: string where
  "element_loext_cipher_data = ''loext:CipherData''"

definition element_loext_cipher_value :: string where
  "element_loext_cipher_value = ''loext:CipherValue''"

definition element_manifest_keyinfo :: string where
  "element_manifest_keyinfo = ''manifest:keyinfo''"

definition element_manifest_encrypted_key :: string where
  "element_manifest_encrypted_key = ''manifest:encrypted-key''"

definition element_manifest_encryption_method :: string where
  "element_manifest_encryption_method = ''manifest:encryption-method''"

definition element_manifest_pgp_data :: string where
  "element_manifest_pgp_data = ''manifest:PGPData''"

definition element_manifest_pgp_key_id :: string where
  "element_manifest_pgp_key_id = ''manifest:PGPKeyID''"

definition element_manifest_pgp_key_packet :: string where
  "element_manifest_pgp_key_packet = ''manifest:PGPKeyPacket''"

definition element_manifest_cipher_data :: string where
  "element_manifest_cipher_data = ''manifest:CipherData''"

definition element_manifest_cipher_value :: string where
  "element_manifest_cipher_value = ''manifest:CipherValue''"

definition attr_full_path :: string where
  "attr_full_path = ''manifest:full-path''"

definition attr_version :: string where
  "attr_version = ''manifest:version''"

definition attr_media_type :: string where
  "attr_media_type = ''manifest:media-type''"

definition attr_size :: string where
  "attr_size = ''manifest:size''"

definition attr_checksum_type :: string where
  "attr_checksum_type = ''manifest:checksum-type''"

definition attr_checksum :: string where
  "attr_checksum = ''manifest:checksum''"

definition attr_algorithm_name :: string where
  "attr_algorithm_name = ''manifest:algorithm-name''"

definition attr_iv :: string where
  "attr_iv = ''manifest:initialisation-vector''"

definition attr_start_key_name :: string where
  "attr_start_key_name = ''manifest:start-key-generation-name''"

definition attr_key_size :: string where
  "attr_key_size = ''manifest:key-size''"

definition attr_key_derivation_name :: string where
  "attr_key_derivation_name = ''manifest:key-derivation-name''"

definition attr_salt :: string where
  "attr_salt = ''manifest:salt''"

definition attr_iteration_count :: string where
  "attr_iteration_count = ''manifest:iteration-count''"

definition attr_argon2_t :: string where
  "attr_argon2_t = ''manifest:argon2-iterations''"

definition attr_argon2_m :: string where
  "attr_argon2_m = ''manifest:argon2-memory''"

definition attr_argon2_p :: string where
  "attr_argon2_p = ''manifest:argon2-lanes''"

definition attr_argon2_t_lo :: string where
  "attr_argon2_t_lo = ''loext:argon2-iterations''"

definition attr_argon2_m_lo :: string where
  "attr_argon2_m_lo = ''loext:argon2-memory''"

definition attr_argon2_p_lo :: string where
  "attr_argon2_p_lo = ''loext:argon2-lanes''"

definition attr_pgp_algorithm_lo :: string where
  "attr_pgp_algorithm_lo = ''loext:PGPAlgorithm''"

definition attr_pgp_algorithm :: string where
  "attr_pgp_algorithm = ''manifest:PGPAlgorithm''"

definition sha256_url :: string where
  "sha256_url = ''http://www.w3.org/2001/04/xmlenc#sha256''"

definition sha256_url_odf12 :: string where
  "sha256_url_odf12 = ''http://www.w3.org/2000/09/xmldsig#sha256''"

definition sha1_name :: string where
  "sha1_name = ''SHA1''"

definition sha1_url :: string where
  "sha1_url = ''http://www.w3.org/2000/09/xmldsig#sha1''"

definition sha1_1k_name :: string where
  "sha1_1k_name = ''SHA1/1K''"

definition sha1_1k_url :: string where
  "sha1_1k_url = ''urn:oasis:names:tc:opendocument:xmlns:manifest:1.0#sha1-1k''"

definition sha256_1k_url :: string where
  "sha256_1k_url = ''urn:oasis:names:tc:opendocument:xmlns:manifest:1.0#sha256-1k''"

definition blowfish_name :: string where
  "blowfish_name = ''Blowfish CFB''"

definition blowfish_url :: string where
  "blowfish_url = ''urn:oasis:names:tc:opendocument:xmlns:manifest:1.0#blowfish''"

definition aes128_url :: string where
  "aes128_url = ''http://www.w3.org/2001/04/xmlenc#aes128-cbc''"

definition aes192_url :: string where
  "aes192_url = ''http://www.w3.org/2001/04/xmlenc#aes192-cbc''"

definition aes256_url :: string where
  "aes256_url = ''http://www.w3.org/2001/04/xmlenc#aes256-cbc''"

definition aesgcm128_url :: string where
  "aesgcm128_url = ''http://www.w3.org/2009/xmlenc11#aes128-gcm''"

definition aesgcm192_url :: string where
  "aesgcm192_url = ''http://www.w3.org/2009/xmlenc11#aes192-gcm''"

definition aesgcm256_url :: string where
  "aesgcm256_url = ''http://www.w3.org/2009/xmlenc11#aes256-gcm''"

definition pbkdf2_name :: string where
  "pbkdf2_name = ''PBKDF2''"

definition pgp_name :: string where
  "pgp_name = ''PGP''"

definition pbkdf2_url :: string where
  "pbkdf2_url = ''urn:oasis:names:tc:opendocument:xmlns:manifest:1.0#pbkdf2''"

definition argon2id_url :: string where
  "argon2id_url = ''urn:oasis:names:tc:opendocument:xmlns:manifest:1.5#argon2id''"

definition argon2id_url_lo :: string where
  "argon2id_url_lo = ''urn:org:documentfoundation:names:experimental:office:manifest:argon2id''"

definition pgp_wrap_uri :: string where
  "pgp_wrap_uri = ''http://www.w3.org/2001/04/xmlenc#rsa-oaep-mgf1p''"

lemmas uri_strings =
  manifest_ns_ooo_def manifest_ns_oasis_def manifest_ns_loext_def
  manifest_prefix_def element_manifest_def element_file_entry_def
  element_encryption_data_def element_algorithm_def element_start_key_generation_def
  element_key_derivation_def element_loext_keyinfo_def element_loext_encrypted_key_def
  element_loext_encryption_method_def element_loext_keyinfo_dsig_def element_loext_pgp_data_def
  element_loext_pgp_key_id_def element_loext_pgp_key_packet_def element_loext_cipher_data_def
  element_loext_cipher_value_def element_manifest_keyinfo_def element_manifest_encrypted_key_def
  element_manifest_encryption_method_def element_manifest_pgp_data_def element_manifest_pgp_key_id_def
  element_manifest_pgp_key_packet_def element_manifest_cipher_data_def element_manifest_cipher_value_def
  attr_full_path_def attr_version_def attr_media_type_def
  attr_size_def attr_checksum_type_def attr_checksum_def
  attr_algorithm_name_def attr_iv_def attr_start_key_name_def
  attr_key_size_def attr_key_derivation_name_def attr_salt_def
  attr_iteration_count_def attr_argon2_t_def attr_argon2_m_def
  attr_argon2_p_def attr_argon2_t_lo_def attr_argon2_m_lo_def
  attr_argon2_p_lo_def attr_pgp_algorithm_lo_def attr_pgp_algorithm_def
  sha256_url_def sha256_url_odf12_def sha1_name_def
  sha1_url_def sha1_1k_name_def sha1_1k_url_def
  sha256_1k_url_def blowfish_name_def blowfish_url_def
  aes128_url_def aes192_url_def aes256_url_def
  aesgcm128_url_def aesgcm192_url_def aesgcm256_url_def
  pbkdf2_name_def pgp_name_def pbkdf2_url_def
  argon2id_url_def argon2id_url_lo_def pgp_wrap_uri_def

section \<open>Name tables\<close>

text \<open>\<^verbatim>\<open>cipher_from_algorithm_name\<close>: the cipher and the key length its URI implies.\<close>

definition cipher_from_algorithm_name :: "string \<Rightarrow> (cipher \<times> nat option) option" where
  "cipher_from_algorithm_name name =
    (if name = blowfish_name \<or> name = blowfish_url then Some (BlowfishCfb8, None)
     else if name = aesgcm256_url then Some (AesGcmW3c, Some 32)
     else if name = aesgcm192_url then Some (AesGcmW3c, Some 24)
     else if name = aesgcm128_url then Some (AesGcmW3c, Some 16)
     else if name = aes256_url then Some (AesCbcW3c, Some 32)
     else if name = aes192_url then Some (AesCbcW3c, Some 24)
     else if name = aes128_url then Some (AesCbcW3c, Some 16)
     else None)"

fun default_derived_key_size :: "cipher \<Rightarrow> int" where
  "default_derived_key_size BlowfishCfb8 = 16"
| "default_derived_key_size AesCbcW3c = 32"
| "default_derived_key_size AesGcmW3c = 32"

definition start_key_from_name :: "string \<Rightarrow> start_key_alg option" where
  "start_key_from_name name =
    (if name = sha256_url \<or> name = sha256_url_odf12 then Some Sha256
     else if name = sha1_name \<or> name = sha1_url then Some Sha1
     else None)"

definition checksum_alg_from_type :: "string \<Rightarrow> checksum_alg option" where
  "checksum_alg_from_type name =
    (if name = sha1_1k_name \<or> name = sha1_1k_url then Some AlgSha1_1K
     else if name = sha256_1k_url then Some AlgSha256_1K
     else None)"

definition password_kdf_from_name :: "string \<Rightarrow> kdf_id option" where
  "password_kdf_from_name name =
    (if name = pbkdf2_name \<or> name = pbkdf2_url then Some IdPbkdf2
     else if name = argon2id_url \<or> name = argon2id_url_lo then Some IdArgon2id
     else None)"

definition is_manifest_namespace :: "string \<Rightarrow> bool" where
  "is_manifest_namespace uri \<longleftrightarrow> uri = manifest_ns_ooo \<or> uri = manifest_ns_oasis"

definition is_pgp_wrap_uri :: "string \<Rightarrow> bool" where
  "is_pgp_wrap_uri uri \<longleftrightarrow> uri = pgp_wrap_uri"

lemmas uri_tables = cipher_from_algorithm_name_def start_key_from_name_def
  checksum_alg_from_type_def password_kdf_from_name_def is_manifest_namespace_def
  is_pgp_wrap_uri_def

section \<open>Lemmas\<close>

lemma password_kdf_not_pgp: "password_kdf_from_name name \<noteq> Some IdPgpRsaOaepMgf1p"
  by (simp add: password_kdf_from_name_def)

lemma cipher_key_len:
  "cipher_from_algorithm_name name = Some (c, k) \<Longrightarrow>
    (c = BlowfishCfb8 \<longrightarrow> k = None) \<and> (c \<noteq> BlowfishCfb8 \<longrightarrow> k \<in> {Some 16, Some 24, Some 32})"
  by (auto simp: cipher_from_algorithm_name_def split: if_splits)

text \<open>The strings the writer emits are read back as what they name.\<close>

lemma written_names [simp]:
  "cipher_from_algorithm_name aesgcm256_url = Some (AesGcmW3c, Some 32)"
  "start_key_from_name sha256_url = Some Sha256"
  "password_kdf_from_name argon2id_url_lo = Some IdArgon2id"
  "is_manifest_namespace manifest_ns_oasis"
  "\<not> is_manifest_namespace manifest_ns_loext"
  by (simp_all add: uri_tables uri_strings)

end
