(* ===== verification/Manifest_Text.thy ===== *)
theory Manifest_Text
  imports Odf_Prelude
begin

text \<open>
  The text primitives of \<^verbatim>\<open>src/manifest.rs\<close>: LibreOffice's lenient integer parser, the lenient base64
  decoder with the writer's encoder, and the attribute-value normalisation that stands between the
  XML reader and the import state machine.  The lemmas show that the integer parser is the
  saturating-to-zero decimal reader it is meant to be, and that base64 survives a round trip.
\<close>

section \<open>Integers: \<^verbatim>\<open>parse_lo_int\<close>\<close>

definition lo_is_whitespace :: "nat \<Rightarrow> bool" where
  "lo_is_whitespace u \<longleftrightarrow>
    u \<le> 32 \<and> u \<noteq> 0 \<or> (8192 \<le> u \<and> u \<le> 8233) \<and> (u \<le> 8203 \<or> 8232 \<le> u)"

definition is_digit :: "nat \<Rightarrow> bool" where
  "is_digit c \<longleftrightarrow> 48 \<le> c \<and> c \<le> 57"

text \<open>
  The digit loop: \<^verbatim>\<open>None\<close> is the early \<^verbatim>\<open>return 0\<close> on overflow, otherwise the number read and whether a
  digit was seen.
\<close>

fun scan_digits :: "nat \<Rightarrow> nat list \<Rightarrow> nat \<Rightarrow> bool \<Rightarrow> (nat \<times> bool) option" where
  "scan_digits limit [] n saw = Some (n, saw)"
| "scan_digits limit (c # cs) n saw =
    (if \<not> is_digit c then Some (n, saw)
     else
       (let d = c - 48 in
        if n > limit div 10 \<or> n = limit div 10 \<and> d > limit mod 10 then None
        else scan_digits limit cs (n * 10 + d) True))"

definition parse_lo_int :: "string \<Rightarrow> int \<Rightarrow> int \<Rightarrow> int" where
  "parse_lo_int s lo hi =
    (case dropWhile lo_is_whitespace (utf8_chars s) of
       [] \<Rightarrow> 0
     | first # rest \<Rightarrow>
        (let neg = (first = 45);
             digits = (if first = 45 \<or> first = 43 then rest else first # rest);
             limit = (if neg then nat \<bar>lo\<bar> else nat hi)
         in case scan_digits limit digits 0 False of
              None \<Rightarrow> 0
            | Some (n, saw) \<Rightarrow>
                if \<not> saw then 0
                else if neg then (if n = nat \<bar>lo\<bar> then lo else - int n)
                else int n))"

definition parse_i32 :: "string \<Rightarrow> int" where
  "parse_i32 s = parse_lo_int s i32_min i32_max"

definition parse_i64 :: "string \<Rightarrow> int" where
  "parse_i64 s = parse_lo_int s i64_min i64_max"

text \<open>\<^verbatim>\<open>to_string\<close> of an unsigned integer.\<close>

fun dec_string :: "nat \<Rightarrow> string" where
  "dec_string n = (if n < 10 then [char_of (48 + n)] else dec_string (n div 10) @ [char_of (48 + n mod 10)])"

declare dec_string.simps [simp del]

definition int_string :: "int \<Rightarrow> string" where
  "int_string i = (if i < 0 then CHR ''-'' # dec_string (nat (- i)) else dec_string (nat i))"

subsection \<open>The parser is the saturating decimal reader\<close>

definition dec_value :: "nat list \<Rightarrow> nat" where
  "dec_value ds = foldl (\<lambda>n c. n * 10 + (c - 48)) 0 ds"

lemma dec_value_Nil [simp]: "dec_value [] = 0"
  by (simp add: dec_value_def)

lemma foldl_dec_mono: "n \<le> foldl (\<lambda>n c. n * 10 + (c - 48)) n ds" for n :: nat
proof (induction ds arbitrary: n)
  case (Cons d ds)
  have "n \<le> n * 10 + (d - 48)" by simp
  also have "\<dots> \<le> foldl (\<lambda>n c. n * 10 + (c - 48)) (n * 10 + (d - 48)) ds" by (rule Cons)
  finally show ?case by simp
qed simp

lemma overflow_test:
  "d \<le> 9 \<Longrightarrow> (n > limit div 10 \<or> n = limit div 10 \<and> d > limit mod 10) \<longleftrightarrow> n * 10 + d > limit"
  for n d limit :: nat
proof -
  assume d: "d \<le> 9"
  define q r where "q = limit div 10" and "r = limit mod 10"
  have "limit = 10 * q + r" "r < 10" unfolding q_def r_def by simp_all
  with d show ?thesis unfolding q_def [symmetric] r_def [symmetric] by auto
qed

lemma scan_digits_spec:
  "n \<le> limit \<Longrightarrow> scan_digits limit cs n saw =
    (let ds = takeWhile is_digit cs; v = foldl (\<lambda>n c. n * 10 + (c - 48)) n ds in
     if v > limit then None else Some (v, saw \<or> ds \<noteq> []))"
proof (induction cs arbitrary: n saw)
  case (Cons c cs)
  show ?case
  proof (cases "is_digit c")
    case True
    then have "c - 48 \<le> 9" by (auto simp: is_digit_def)
    note ov = overflow_test [OF this, where n = n and limit = limit]
    show ?thesis
    proof (cases "n * 10 + (c - 48) > limit")
      case True
      then have "foldl (\<lambda>n c. n * 10 + (c - 48)) (n * 10 + (c - 48)) (takeWhile is_digit cs) > limit"
        using foldl_dec_mono [of "n * 10 + (c - 48)"] le_trans not_le by (meson order_less_le_trans)
      with True \<open>is_digit c\<close> show ?thesis
        unfolding scan_digits.simps Let_def ov by simp
    next
      case False
      with Cons.IH [of "n * 10 + (c - 48)" True] \<open>is_digit c\<close> show ?thesis
        unfolding scan_digits.simps Let_def ov by simp
    qed
  qed (use Cons.prems in simp)
qed simp

text \<open>The reference reading: the digits after white space and a sign, 0 if there are none or too many.\<close>

definition lo_int_spec :: "string \<Rightarrow> int \<Rightarrow> int \<Rightarrow> int" where
  "lo_int_spec s lo hi =
    (let cs = dropWhile lo_is_whitespace (utf8_chars s);
         neg = (cs \<noteq> [] \<and> hd cs = 45);
         ds = takeWhile is_digit (if cs \<noteq> [] \<and> hd cs \<in> {43, 45} then tl cs else cs);
         v = (if neg then - int (dec_value ds) else int (dec_value ds))
     in if lo \<le> v \<and> v \<le> hi then v else 0)"

lemma parse_lo_int_correct:
  assumes "lo \<le> 0" "0 \<le> hi"
  shows "parse_lo_int s lo hi = lo_int_spec s lo hi"
proof (cases "dropWhile lo_is_whitespace (utf8_chars s)")
  case Nil
  with assms show ?thesis
    unfolding parse_lo_int_def lo_int_spec_def Nil by (simp add: dec_value_def Let_def)
next
  case (Cons c cs)
  have scan: "scan_digits limit ds 0 False =
      (let es = takeWhile is_digit ds; v = dec_value es in
       if v > limit then None else Some (v, es \<noteq> []))" for limit ds
    using scan_digits_spec [of 0 limit ds False] by (simp add: dec_value_def Let_def)
  have empty: "dec_value (takeWhile is_digit ds) = 0" if "takeWhile is_digit ds = []" for ds
    using that by (simp add: dec_value_def)
  consider "c = 45" | "c = 43" | "c \<noteq> 45" "c \<noteq> 43" by blast
  then show ?thesis
  proof cases
    case 1
    then show ?thesis using Cons assms
      by (auto simp: parse_lo_int_def lo_int_spec_def scan Let_def empty)
  next
    case 2
    then show ?thesis using Cons assms
      by (auto simp: parse_lo_int_def lo_int_spec_def scan Let_def empty)
  next
    case 3
    then show ?thesis using Cons assms
      by (auto simp: parse_lo_int_def lo_int_spec_def scan Let_def empty dec_value_def)
  qed
qed

lemma lo_int_spec_range: "lo \<le> 0 \<Longrightarrow> 0 \<le> hi \<Longrightarrow> lo \<le> lo_int_spec s lo hi \<and> lo_int_spec s lo hi \<le> hi"
  by (simp add: lo_int_spec_def Let_def)

lemma parse_i32_range: "i32_min \<le> parse_i32 s \<and> parse_i32 s \<le> i32_max"
  unfolding parse_i32_def
  by (subst (1 2) parse_lo_int_correct) (simp_all add: lo_int_spec_range int_limits)

lemma parse_i64_range: "i64_min \<le> parse_i64 s \<and> parse_i64 s \<le> i64_max"
  unfolding parse_i64_def
  by (subst (1 2) parse_lo_int_correct) (simp_all add: lo_int_spec_range int_limits)

subsection \<open>Printed integers are read back\<close>

lemma dec_string_ne [simp]: "dec_string n \<noteq> []"
  by (subst dec_string.simps) simp

lemma dec_string_digits:
  "c \<in> set (dec_string n) \<Longrightarrow> 48 \<le> (of_char c :: nat) \<and> (of_char c :: nat) \<le> 57"
proof (induction n rule: dec_string.induct)
  case (1 n)
  then show ?case
    by (subst (asm) dec_string.simps) (auto split: if_splits)
qed

lemma utf8_chars_ascii_list:
  "\<forall>c \<in> set s. of_char c < (128 :: nat) \<Longrightarrow> utf8_chars s = map of_char s"
  by (induction s) auto

lemma utf8_dec_string: "utf8_chars (dec_string n) = map of_char (dec_string n)"
  using dec_string_digits [of _ n] by (intro utf8_chars_ascii_list) fastforce

lemma dec_value_snoc: "dec_value (ds @ [d]) = dec_value ds * 10 + (d - 48)"
  by (simp add: dec_value_def)

lemma dec_value_dec_string [simp]: "dec_value (map of_char (dec_string n)) = n"
proof (induction n rule: dec_string.induct)
  case (1 n)
  show ?case
  proof (cases "n < 10")
    case True
    then show ?thesis by (subst dec_string.simps) (simp add: dec_value_def)
  next
    case False
    with 1 have "dec_value (map of_char (dec_string (n div 10))) = n div 10" by simp
    with False show ?thesis by (subst dec_string.simps) (simp add: dec_value_snoc)
  qed
qed

lemma is_digit_not_white: "is_digit c \<Longrightarrow> \<not> lo_is_whitespace c"
  by (auto simp: is_digit_def lo_is_whitespace_def)

lemma parse_lo_int_dec_string:
  assumes "lo \<le> 0" "int n \<le> hi"
  shows "parse_lo_int (dec_string n) lo hi = int n"
proof -
  have dig: "\<forall>c \<in> set (map of_char (dec_string n) :: nat list). is_digit c"
    using dec_string_digits by (auto simp: is_digit_def)
  obtain c cs where c: "map of_char (dec_string n) = (c :: nat) # cs"
    by (cases "dec_string n") auto
  with dig have "is_digit c" "\<forall>c \<in> set (c # cs). is_digit c" by auto
  then have "dropWhile lo_is_whitespace (c # cs) = c # cs" "c \<noteq> 43" "c \<noteq> 45"
    "takeWhile is_digit (c # cs) = c # cs"
    by (auto simp: is_digit_not_white is_digit_def takeWhile_eq_all_conv)
  moreover have "dec_value (c # cs) = n" using dec_value_dec_string [of n] c by simp
  moreover have "0 \<le> hi" using assms by linarith
  ultimately show ?thesis using assms c
    by (subst parse_lo_int_correct) (simp_all add: lo_int_spec_def utf8_dec_string Let_def)
qed

lemma parse_i64_int_string:
  "0 \<le> i \<Longrightarrow> i \<le> i64_max \<Longrightarrow> parse_i64 (int_string i) = i"
  unfolding parse_i64_def int_string_def by (simp add: parse_lo_int_dec_string int_limits)

lemma parse_i32_int_string:
  "0 \<le> i \<Longrightarrow> i \<le> i32_max \<Longrightarrow> parse_i32 (int_string i) = i"
  unfolding parse_i32_def int_string_def by (simp add: parse_lo_int_dec_string int_limits)

section \<open>Base64\<close>

text \<open>\<^verbatim>\<open>decode_b64\<close>: the table is indexed by the character minus \<^verbatim>\<open>'+'\<close>; 255 marks a character to skip.\<close>

definition b64_table :: "nat list" where
  "b64_table =
    [62, 255, 255, 255, 63, 52, 53, 54, 55, 56, 57, 58, 59, 60, 61, 255, 255, 255, 0, 255, 255,
     255, 0, 1, 2, 3, 4, 5, 6, 7, 8, 9, 10, 11, 12, 13, 14, 15, 16, 17, 18, 19, 20, 21, 22, 23,
     24, 25, 255, 255, 255, 255, 255, 0, 26, 27, 28, 29, 30, 31, 32, 33, 34, 35, 36, 37, 38, 39,
     40, 41, 42, 43, 44, 45, 46, 47, 48, 49, 50, 51]"

text \<open>The decoder's local variables: \<^verbatim>\<open>out\<close>, the four-slot \<^verbatim>\<open>acc\<close>, \<^verbatim>\<open>n\<close> and \<^verbatim>\<open>got\<close>.\<close>

record b64_state =
  b64_out :: bytes
  b64_acc :: "nat list"
  b64_n :: nat
  b64_got :: nat

definition b64_init :: b64_state where
  "b64_init = \<lparr>b64_out = [], b64_acc = [0, 0, 0, 0], b64_n = 0, b64_got = 3\<rparr>"

definition b64_emit :: "nat list \<Rightarrow> nat \<Rightarrow> bytes" where
  "b64_emit acc got =
    (let v = acc ! 0 * 2 ^ 18 + acc ! 1 * 2 ^ 12 + acc ! 2 * 2 ^ 6 + acc ! 3 in
     [of_nat (v div 2 ^ 16 mod 256)]
     @ (if got > 1 then [of_nat (v div 2 ^ 8 mod 256)] else [])
     @ (if got > 2 then [of_nat (v mod 256)] else []))"

definition decode_b64_step :: "b64_state \<Rightarrow> char \<Rightarrow> b64_state" where
  "decode_b64_step st c =
    (if \<not> (43 \<le> (of_char c :: nat) \<and> (of_char c :: nat) \<le> 122) then st
     else
       (let byte = b64_table ! (of_char c - 43) in
        if byte = 255 then st
        else
          (let acc = (b64_acc st)[b64_n st := byte];
               n = b64_n st + 1;
               got = (if c = CHR ''='' \<and> n > 2 then b64_got st - 1 else b64_got st)
           in if n = 4 then
                st\<lparr>b64_out := b64_out st @ b64_emit acc got, b64_acc := acc, b64_n := 0, b64_got := 3\<rparr>
              else st\<lparr>b64_acc := acc, b64_n := n, b64_got := got\<rparr>)))"

definition decode_b64 :: "string \<Rightarrow> bytes" where
  "decode_b64 s = b64_out (foldl decode_b64_step b64_init s)"

text \<open>\<^verbatim>\<open>encode_b64\<close>: one quad per chunk of three bytes, \<^verbatim>\<open>=\<close> for the absent ones.\<close>

definition b64_alphabet :: string where
  "b64_alphabet = ''ABCDEFGHIJKLMNOPQRSTUVWXYZabcdefghijklmnopqrstuvwxyz0123456789+/''"

definition sextet :: "nat \<Rightarrow> char" where
  "sextet n = b64_alphabet ! (n mod 64)"

definition b64_chunk :: "byte \<Rightarrow> byte option \<Rightarrow> byte option \<Rightarrow> string" where
  "b64_chunk b0 b1 b2 =
    (let value = (\<lambda>b. case b of None \<Rightarrow> 0 | Some x \<Rightarrow> unat (x :: byte));
         n = unat b0 * 2 ^ 16 + value b1 * 2 ^ 8 + value b2
     in [sextet (n div 2 ^ 18), sextet (n div 2 ^ 12),
         (case b1 of None \<Rightarrow> CHR ''='' | Some _ \<Rightarrow> sextet (n div 2 ^ 6)),
         (case b2 of None \<Rightarrow> CHR ''='' | Some _ \<Rightarrow> sextet n)])"

fun encode_b64 :: "bytes \<Rightarrow> string" where
  "encode_b64 [] = []"
| "encode_b64 [b0] = b64_chunk b0 None None"
| "encode_b64 [b0, b1] = b64_chunk b0 (Some b1) None"
| "encode_b64 (b0 # b1 # b2 # rest) = b64_chunk b0 (Some b1) (Some b2) @ encode_b64 rest"

subsection \<open>Round trip\<close>

lemma all_less_64:
  "(\<forall>s < (64::nat). P s) \<longleftrightarrow> list_all P [0..<64]"
  by (auto simp: list_all_iff)

lemma alphabet_table:
  "\<forall>s < 64. (let c = b64_alphabet ! s; k = (of_char c :: nat) in
     43 \<le> k \<and> k \<le> 122 \<and> b64_table ! (k - 43) = s \<and> c \<noteq> CHR ''='')"
  unfolding all_less_64 by (simp add: upt_conv_Cons b64_alphabet_def b64_table_def Let_def)

lemma step_sextet:
  assumes "b64_n st < 4"
  shows "decode_b64_step st (sextet m) =
    (let acc = (b64_acc st)[b64_n st := m mod 64] in
     if b64_n st = 3 then
       st\<lparr>b64_out := b64_out st @ b64_emit acc (b64_got st), b64_acc := acc, b64_n := 0, b64_got := 3\<rparr>
     else st\<lparr>b64_acc := acc, b64_n := b64_n st + 1\<rparr>)"
proof -
  have "m mod 64 < 64" by simp
  with alphabet_table show ?thesis
    by (auto simp: decode_b64_step_def sextet_def Let_def)
qed

lemma step_pad:
  "decode_b64_step st CHR ''='' =
    (let acc = (b64_acc st)[b64_n st := 0]; n = b64_n st + 1;
         got = (if n > 2 then b64_got st - 1 else b64_got st)
     in if n = 4 then
          st\<lparr>b64_out := b64_out st @ b64_emit acc got, b64_acc := acc, b64_n := 0, b64_got := 3\<rparr>
        else st\<lparr>b64_acc := acc, b64_n := n, b64_got := got\<rparr>)"
  by (simp add: decode_b64_step_def b64_table_def Let_def)

text \<open>Between quads the decoder is at rest: four slots, none filled, three bytes to come.\<close>

definition b64_rest :: "b64_state \<Rightarrow> bool" where
  "b64_rest st \<longleftrightarrow> length (b64_acc st) = 4 \<and> b64_n st = 0 \<and> b64_got st = 3"

lemma sextets_join:
  fixes n :: nat
  assumes "n < 16777216"
  shows "n div 262144 mod 64 * 262144 + n div 4096 mod 64 * 4096 + n div 64 mod 64 * 64
    + n mod 64 = n"
proof -
  from assms have "n div 262144 < 64" by simp
  then have "n div 262144 mod 64 = n div 262144" by simp
  with div_mod_join [of n 64 64, simplified] div_mod_join [of n 64 4096, simplified]
    div_mult_mod_eq [of n 4096] show ?thesis by linarith
qed

lemma bytes_split:
  assumes "a < 256" "b < 256" "c < (256 :: nat)"
  shows "(a * 65536 + b * 256 + c) div 65536 mod 256 = a"
    "(a * 65536 + b * 256 + c) div 256 mod 256 = b"
    "(a * 65536 + b * 256 + c) mod 256 = c"
    "a * 65536 + b * 256 + c < 16777216"
proof -
  have n: "a * 65536 + b * 256 + c = (a * 256 + b) * 256 + c" by simp
  have d: "(a * 65536 + b * 256 + c) div 256 = a * 256 + b"
    unfolding n using assms by simp
  then show "(a * 65536 + b * 256 + c) div 256 mod 256 = b" using assms by simp
  have "(a * 65536 + b * 256 + c) div 65536 = (a * 65536 + b * 256 + c) div 256 div 256"
    by (simp add: div_mult2_eq [symmetric])
  with d assms show "(a * 65536 + b * 256 + c) div 65536 mod 256 = a" by simp
  show "(a * 65536 + b * 256 + c) mod 256 = c" unfolding n mod_mult_self3 using assms by simp
  show "a * 65536 + b * 256 + c < 16777216" using assms by linarith
qed

lemma b64_emit_eq:
  "b64_emit [a, b, c, d] got =
    (let v = a * 262144 + b * 4096 + c * 64 + d in
     [of_nat (v div 65536 mod 256)] @ (if got > 1 then [of_nat (v div 256 mod 256)] else [])
      @ (if got > 2 then [of_nat (v mod 256)] else []))"
  by (simp add: b64_emit_def Let_def)

lemma emit_join:
  assumes "n < 16777216"
  shows "b64_emit [n div 262144 mod 64, n div 4096 mod 64, n div 64 mod 64, n mod 64] got =
    [of_nat (n div 65536 mod 256)] @ (if got > 1 then [of_nat (n div 256 mod 256)] else [])
      @ (if got > 2 then [of_nat (n mod 256)] else [])"
  unfolding b64_emit_eq sextets_join [OF assms] Let_def ..

lemma quad_steps:
  assumes "b64_rest st" and s2_def: "s2 = decode_b64_step (decode_b64_step st (sextet k)) (sextet l)"
  shows "b64_rest (decode_b64_step (decode_b64_step s2 (sextet m)) (sextet n))"
    and "b64_out (decode_b64_step (decode_b64_step s2 (sextet m)) (sextet n))
      = b64_out st @ b64_emit [k mod 64, l mod 64, m mod 64, n mod 64] 3"
    and "b64_out (decode_b64_step (decode_b64_step s2 (sextet m)) CHR ''='')
      = b64_out st @ b64_emit [k mod 64, l mod 64, m mod 64, 0] 2"
    and "b64_out (decode_b64_step (decode_b64_step s2 CHR ''='') CHR ''='')
      = b64_out st @ b64_emit [k mod 64, l mod 64, 0, 0] 1"
proof -
  obtain w x y z where acc: "b64_acc st = [w, x, y, z]" and st: "b64_n st = 0" "b64_got st = 3"
    using assms(1) by (auto simp: b64_rest_def numeral_eq_Suc length_Suc_conv)
  note [simp] = step_sextet step_pad acc st
  have s1: "decode_b64_step st (sextet k) = st\<lparr>b64_acc := [k mod 64, x, y, z], b64_n := 1\<rparr>"
    by simp
  have s2: "s2 = st\<lparr>b64_acc := [k mod 64, l mod 64, y, z], b64_n := 2\<rparr>"
    unfolding s2_def s1 by simp
  have s3: "decode_b64_step s2 (sextet m)
      = st\<lparr>b64_acc := [k mod 64, l mod 64, m mod 64, z], b64_n := 3\<rparr>"
    unfolding s2 by simp
  have p3: "decode_b64_step s2 CHR ''=''
      = st\<lparr>b64_acc := [k mod 64, l mod 64, 0, z], b64_n := 3, b64_got := 2\<rparr>"
    unfolding s2 by simp
  show "b64_rest (decode_b64_step (decode_b64_step s2 (sextet m)) (sextet n))"
    "b64_out (decode_b64_step (decode_b64_step s2 (sextet m)) (sextet n))
      = b64_out st @ b64_emit [k mod 64, l mod 64, m mod 64, n mod 64] 3"
    "b64_out (decode_b64_step (decode_b64_step s2 (sextet m)) CHR ''='')
      = b64_out st @ b64_emit [k mod 64, l mod 64, m mod 64, 0] 2"
    unfolding s3 by (simp_all add: b64_rest_def Let_def)
  show "b64_out (decode_b64_step (decode_b64_step s2 CHR ''='') CHR ''='')
      = b64_out st @ b64_emit [k mod 64, l mod 64, 0, 0] 1"
    unfolding p3 by (simp add: Let_def)
qed

text \<open>A padded quad decodes as if the absent sextets were zero, and they are.\<close>

lemma pad_sextets:
  fixes a b :: nat
  shows "(a * 65536) div 64 mod 64 = 0" "a * 65536 mod 64 = 0" "(a * 65536 + b * 256) mod 64 = 0"
proof -
  have "a * 65536 = a * 1024 * 64" "a * 65536 + b * 256 = (a * 1024 + b * 4) * 64" by simp_all
  then show "a * 65536 mod 64 = 0" "(a * 65536 + b * 256) mod 64 = 0"
    by (metis mod_mult_self2_is_0)+
  have "a * 65536 div 64 = a * 16 * 64" by simp
  then show "(a * 65536) div 64 mod 64 = 0" by (metis mod_mult_self2_is_0)
qed

lemma b64_chunk_eq:
  "b64_chunk a b c =
    (let value = (\<lambda>b. case b of None \<Rightarrow> 0 | Some x \<Rightarrow> unat (x :: byte));
         n = unat a * 65536 + value b * 256 + value c
     in [sextet (n div 262144), sextet (n div 4096),
         (case b of None \<Rightarrow> CHR ''='' | Some _ \<Rightarrow> sextet (n div 64)),
         (case c of None \<Rightarrow> CHR ''='' | Some _ \<Rightarrow> sextet n)])"
  by (simp add: b64_chunk_def Let_def split: option.split)

lemma chunk_decode:
  assumes "b64_rest st"
  shows "b64_rest (foldl decode_b64_step st (b64_chunk a (Some b) (Some c)))"
    and "b64_out (foldl decode_b64_step st (b64_chunk a (Some b) (Some c)))
      = b64_out st @ [a, b, c]"
    and "b64_out (foldl decode_b64_step st (b64_chunk a (Some b) None)) = b64_out st @ [a, b]"
    and "b64_out (foldl decode_b64_step st (b64_chunk a None None)) = b64_out st @ [a]"
proof -
  have z: "(0::nat) < 256" by simp
  define n where "n = unat a * 65536 + unat b * 256 + unat c"
  have n: "b64_chunk a (Some b) (Some c)
      = [sextet (n div 262144), sextet (n div 4096), sextet (n div 64), sextet n]"
    unfolding b64_chunk_eq n_def by (simp only: Let_def option.case)
  note ns = bytes_split [OF unat_byte_less unat_byte_less unat_byte_less, of a b c, folded n_def]
  show "b64_rest (foldl decode_b64_step st (b64_chunk a (Some b) (Some c)))"
    unfolding n foldl.simps by (rule quad_steps(1) [OF assms refl])
  show "b64_out (foldl decode_b64_step st (b64_chunk a (Some b) (Some c)))
      = b64_out st @ [a, b, c]"
    unfolding n foldl.simps quad_steps(2) [OF assms refl] emit_join [OF ns(4)] ns(1-3) by simp
  define m where "m = unat a * 65536 + unat b * 256 + 0"
  have m: "b64_chunk a (Some b) None
      = [sextet (m div 262144), sextet (m div 4096), sextet (m div 64), CHR ''='']"
    unfolding b64_chunk_eq m_def by (simp only: Let_def option.case)
  note ms = bytes_split [OF unat_byte_less unat_byte_less z, of a b, folded m_def]
  have "m mod 64 = 0" unfolding m_def by (simp add: pad_sextets)
  with emit_join [OF ms(4), of 2]
  have "b64_emit [m div 262144 mod 64, m div 4096 mod 64, m div 64 mod 64, 0] 2 = [a, b]"
    unfolding ms(1-3) by simp
  then show "b64_out (foldl decode_b64_step st (b64_chunk a (Some b) None)) = b64_out st @ [a, b]"
    unfolding m foldl.simps quad_steps(3) [OF assms refl] by simp
  define l where "l = unat a * 65536 + 0 * 256 + 0"
  have l: "b64_chunk a None None
      = [sextet (l div 262144), sextet (l div 4096), CHR ''='', CHR ''='']"
    unfolding b64_chunk_eq l_def by (simp only: Let_def option.case)
  note ls = bytes_split [OF unat_byte_less z z, of a, folded l_def]
  have "l div 64 mod 64 = 0" "l mod 64 = 0"
    unfolding l_def mult_zero_left add_0_right by (rule pad_sextets)+
  with emit_join [OF ls(4), of 1]
  have "b64_emit [l div 262144 mod 64, l div 4096 mod 64, 0, 0] 1 = [a]"
    unfolding ls(1-3) by simp
  then show "b64_out (foldl decode_b64_step st (b64_chunk a None None)) = b64_out st @ [a]"
    unfolding l foldl.simps quad_steps(4) [OF assms refl] by simp
qed

lemma decode_encode_from:
  "b64_rest st \<Longrightarrow> b64_out (foldl decode_b64_step st (encode_b64 bs)) = b64_out st @ bs"
proof (induction bs arbitrary: st rule: encode_b64.induct)
  case (4 b0 b1 b2 rest)
  from 4(1) [OF chunk_decode(1) [OF 4(2), of b0 b1 b2]] chunk_decode(2) [OF 4(2), of b0 b1 b2]
  show ?case by simp
qed (simp_all add: chunk_decode)

theorem decode_encode_b64: "decode_b64 (encode_b64 bs) = bs"
  using decode_encode_from [of b64_init bs] by (simp add: decode_b64_def b64_rest_def b64_init_def)

subsection \<open>Characters outside the alphabet\<close>

definition b64_char :: "char \<Rightarrow> bool" where
  "b64_char c \<longleftrightarrow> 43 \<le> (of_char c :: nat) \<and> (of_char c :: nat) \<le> 122
     \<and> b64_table ! (of_char c - 43) \<noteq> 255"

lemma decode_b64_step_skip: "\<not> b64_char c \<Longrightarrow> decode_b64_step st c = st"
  by (auto simp: decode_b64_step_def b64_char_def Let_def)

lemma foldl_filter_skip:
  assumes "\<And>st c. \<not> P c \<Longrightarrow> f st c = st"
  shows "foldl f st (filter P cs) = foldl f st cs"
  by (induction cs arbitrary: st) (auto simp: assms)

lemma decode_b64_filter: "decode_b64 (filter b64_char s) = decode_b64 s"
  unfolding decode_b64_def by (simp add: foldl_filter_skip decode_b64_step_skip)

section \<open>Attribute values\<close>

text \<open>\<^verbatim>\<open>char::to_digit\<close> for radix 10 and 16.\<close>

definition to_digit :: "nat \<Rightarrow> char \<Rightarrow> nat option" where
  "to_digit radix c =
    (let k = (of_char c :: nat);
         d = (if 48 \<le> k \<and> k \<le> 57 then k - 48
              else if 97 \<le> k \<and> k \<le> 122 then k - 87
              else if 65 \<le> k \<and> k \<le> 90 then k - 55
              else 99)
     in if d < radix then Some d else None)"

text \<open>\<^verbatim>\<open>u32::from_str_radix\<close>: an optional plus sign, at least one digit, an error on overflow.\<close>

fun radix_digits :: "nat \<Rightarrow> string \<Rightarrow> nat \<Rightarrow> nat option" where
  "radix_digits radix [] n = Some n"
| "radix_digits radix (c # cs) n =
    (case to_digit radix c of
       None \<Rightarrow> None
     | Some d \<Rightarrow> if n * radix + d > u32_max then None else radix_digits radix cs (n * radix + d))"

definition u32_from_str_radix :: "nat \<Rightarrow> string \<Rightarrow> nat option" where
  "u32_from_str_radix radix s =
    (let ds = (case s of c # d # ds \<Rightarrow> if c = CHR ''+'' then d # ds else s | _ \<Rightarrow> s)
     in if ds = [] then None else radix_digits radix ds 0)"

definition expand_ref :: "string \<Rightarrow> string" where
  "expand_ref name =
    (case name of
       CHR ''#'' # rest \<Rightarrow>
        (let code = (case rest of
                       c # hex \<Rightarrow> if c = CHR ''x'' \<or> c = CHR ''X'' then u32_from_str_radix 16 hex
                                   else u32_from_str_radix 10 rest
                     | [] \<Rightarrow> u32_from_str_radix 10 rest)
         in case code of
              None \<Rightarrow> []
            | Some n \<Rightarrow> if scalar_value n then utf8_char n else [])
     | _ \<Rightarrow>
        (if name = ''amp'' then ''&''
         else if name = ''lt'' then ''<''
         else if name = ''gt'' then ''>''
         else if name = ''apos'' then [CHR 39]
         else if name = ''quot'' then [CHR 34]
         else []))"

text \<open>
  \<^verbatim>\<open>normalize_attr_value\<close>: a literal tab, line feed, carriage return or CRLF becomes one space, a
  reference is expanded; a reference with no semicolon swallows the rest of the value.
\<close>

function normalize_attr_value :: "string \<Rightarrow> string" where
  "normalize_attr_value [] = []"
| "normalize_attr_value (c # cs) =
    (if c = CHR ''&'' then
       expand_ref (takeWhile (\<lambda>e. e \<noteq> CHR '';'') cs)
         @ normalize_attr_value (drop 1 (dropWhile (\<lambda>e. e \<noteq> CHR '';'') cs))
     else if c = CHR 13 then
       CHR '' '' # normalize_attr_value (if cs \<noteq> [] \<and> hd cs = CHR 10 then tl cs else cs)
     else if c = CHR 10 \<or> c = CHR 9 then CHR '' '' # normalize_attr_value cs
     else c # normalize_attr_value cs)"
  by pat_completeness auto
termination
  by (relation "measure length") (auto simp: less_Suc_eq_le intro: le_trans [OF diff_le_self] length_dropWhile_le)

definition plain_char :: "char \<Rightarrow> bool" where
  "plain_char c \<longleftrightarrow> c \<notin> {CHR ''&'', CHR 13, CHR 10, CHR 9}"

lemma normalize_plain: "\<forall>c \<in> set s. plain_char c \<Longrightarrow> normalize_attr_value (s @ r) = s @ normalize_attr_value r"
  by (induction s) (auto simp: plain_char_def)

lemma normalize_ref:
  assumes "CHR '';'' \<notin> set name"
  shows "normalize_attr_value (CHR ''&'' # name @ CHR '';'' # r) = expand_ref name @ normalize_attr_value r"
proof -
  have ne: "\<forall>e \<in> set name. e \<noteq> CHR '';''" using assms by auto
  then have "takeWhile (\<lambda>e. e \<noteq> CHR '';'') (name @ CHR '';'' # r) = name"
    by (subst takeWhile_append2) auto
  moreover have "dropWhile (\<lambda>e. e \<noteq> CHR '';'') (name @ CHR '';'' # r) = CHR '';'' # r"
    using ne by (subst dropWhile_append2) auto
  ultimately show ?thesis by simp
qed

text \<open>An escaped value, as an XML writer produces it, is read back: the predefined entities expand.\<close>

definition xml_entity :: "char \<Rightarrow> string option" where
  "xml_entity c =
    (if c = CHR ''&'' then Some ''amp''
     else if c = CHR ''<'' then Some ''lt''
     else if c = CHR ''>'' then Some ''gt''
     else if c = CHR 39 then Some ''apos''
     else if c = CHR 34 then Some ''quot''
     else None)"

fun xml_escape :: "string \<Rightarrow> string" where
  "xml_escape [] = []"
| "xml_escape (c # cs) =
    (case xml_entity c of None \<Rightarrow> [c] | Some name \<Rightarrow> CHR ''&'' # name @ [CHR '';'']) @ xml_escape cs"

lemma xml_entity_Some:
  "xml_entity c = Some name \<Longrightarrow> CHR '';'' \<notin> set name \<and> expand_ref name = [c]"
  by (auto simp: xml_entity_def expand_ref_def split: if_splits)

lemma xml_entity_None: "xml_entity c = None \<Longrightarrow> c \<noteq> CHR ''&''"
  by (auto simp: xml_entity_def)

lemma normalize_xml_escape:
  assumes "\<forall>c \<in> set s. c \<notin> {CHR 13, CHR 10, CHR 9}"
  shows "normalize_attr_value (xml_escape s) = s"
  using assms
proof (induction s)
  case (Cons c cs)
  then have IH: "normalize_attr_value (xml_escape cs) = cs" by simp
  show ?case
  proof (cases "xml_entity c")
    case None
    with xml_entity_None [OF this] Cons.prems IH show ?thesis by simp
  next
    case (Some name)
    with xml_entity_Some [OF this] IH show ?thesis
      using normalize_ref [of name "xml_escape cs"] by simp
  qed
qed simp

section \<open>Properties\<close>

text \<open>
  C7. The integer parser reads what it documents: white space, one sign and the digits that follow, and 0
  when there are no digits or the number does not fit its width; its result always fits.
\<close>

theorem lo_integers:
  "parse_i32 s = lo_int_spec s i32_min i32_max \<and> i32_min \<le> parse_i32 s \<and> parse_i32 s \<le> i32_max
   \<and> parse_i64 s = lo_int_spec s i64_min i64_max \<and> i64_min \<le> parse_i64 s \<and> parse_i64 s \<le> i64_max"
  using parse_i32_range [of s] parse_i64_range [of s]
  by (simp add: parse_i32_def parse_i64_def parse_lo_int_correct int_limits)

text \<open>
  C6. Base64 survives a round trip through the writer's encoder and the lenient decoder, and characters
  outside the alphabet anywhere in the text do not change what is decoded.
\<close>

theorem base64_round_trip:
  "decode_b64 (encode_b64 bs) = bs
   \<and> (filter b64_char s = encode_b64 bs \<longrightarrow> decode_b64 s = bs)"
  using decode_encode_b64 [of bs] decode_b64_filter [of s] by auto

theorem base64_round_trip_witness: "decode_b64 ''A Q-ID'' = [1, 2, 3]"
proof -
  have "filter b64_char ''A Q-ID'' = encode_b64 [1, 2, 3]"
    by (simp add: b64_char_def b64_table_def b64_chunk_def sextet_def b64_alphabet_def Let_def)
  with base64_round_trip [of "[1, 2, 3]" "''A Q-ID''"] show ?thesis by blast
qed

text \<open>
  A value spelled with the five predefined entities is read back as it was, provided it has no tab,
  line feed or carriage return, which normalisation turns into spaces.
\<close>

theorem attribute_value_round_trip:
  assumes "\<forall>c \<in> set s. c \<notin> {CHR 13, CHR 10, CHR 9}"
  shows "normalize_attr_value (xml_escape s) = s"
  using assms by (rule normalize_xml_escape)

theorem attribute_value_witness: "normalize_attr_value ''a&amp;b'' = ''a&b''"
  using attribute_value_round_trip [of "''a&b''"] by (simp add: xml_entity_def)

end
