(* ===== verification/Manifest_Import.thy ===== *)
theory Manifest_Import
  imports Odf_Uris Manifest_Text
begin

text \<open>
  Stage A, \<^verbatim>\<open>src/manifest.rs\<close>: the \<^verbatim>\<open>ManifestImport\<close> state machine that turns the XML reader's events into
  an ordered list of property bags.  The reader itself (\<^verbatim>\<open>quick_xml\<close>) is a parameter: a document is the
  list of events it reports, an \<^verbatim>\<open>Err\<close> event included, and the end of the list is its \<^verbatim>\<open>Eof\<close>.

  The element stack is kept with its top at the head.  A \<^verbatim>\<open>HashMap\<close> is an association list whose
  latest insertion is in front, read with \<^const>\<open>map_of\<close>.
\<close>

section \<open>State\<close>

type_synonym attrs = "(string \<times> string) list"

record stack_frame =
  sf_name :: string
  sf_namespaces :: attrs
  sf_valid :: bool

definition max_depth :: nat where "max_depth = 16"

record import_state =
  im_stack :: "stack_frame list"
  im_beyond_cap :: nat
  im_bags :: "property_bag list"
  im_bag :: property_bag
  im_ignore_encrypt_data :: bool
  im_pgp_encryption :: bool
  im_derived_key_size :: int
  im_package_version :: "string option"
  im_keys :: "encrypted_key list"
  im_current_key :: "encrypted_key option"
  im_current_characters :: string

definition import_new :: import_state where
  "import_new = \<lparr>im_stack = [], im_beyond_cap = 0, im_bags = [], im_bag = empty_bag,
     im_ignore_encrypt_data = False, im_pgp_encryption = False, im_derived_key_size = 0,
     im_package_version = None, im_keys = [], im_current_key = None, im_current_characters = []\<rparr>"

section \<open>Names and namespaces\<close>

definition convert_name_with_ns :: "string \<Rightarrow> attrs \<Rightarrow> string option" where
  "convert_name_with_ns name namespaces =
    (let pre = takeWhile (\<lambda>c. c \<noteq> CHR '':'') name;
         rest = dropWhile (\<lambda>c. c \<noteq> CHR '':'') name;
         (alias, local) = (if rest = [] then ([], name) else (pre, tl rest))
     in case map_of namespaces alias of
          Some uri \<Rightarrow> if is_manifest_namespace uri then Some (manifest_prefix @ local) else None
        | None \<Rightarrow> None)"

fun convert_name_from :: "stack_frame list \<Rightarrow> string \<Rightarrow> string" where
  "convert_name_from [] name = name"
| "convert_name_from (frame # frames) name =
    (if sf_namespaces frame = [] then convert_name_from frames name
     else case convert_name_with_ns name (sf_namespaces frame) of
            Some converted \<Rightarrow> converted
          | None \<Rightarrow> convert_name_from frames name)"

definition convert_name :: "import_state \<Rightarrow> string \<Rightarrow> string" where
  "convert_name st name = convert_name_from (im_stack st) name"

text \<open>The attribute loop of \<^verbatim>\<open>push_name_and_namespaces\<close>: declarations on one side, the rest in order.\<close>

fun split_attrs :: "attrs \<Rightarrow> attrs \<Rightarrow> attrs \<Rightarrow> attrs \<times> attrs" where
  "split_attrs [] namespaces other = (namespaces, other)"
| "split_attrs ((key, value) # raw) namespaces other =
    (if key = ''xmlns'' then split_attrs raw (([], value) # namespaces) other
     else if take 6 key = ''xmlns:'' then split_attrs raw ((drop 6 key, value) # namespaces) other
     else split_attrs raw namespaces (other @ [(key, value)]))"

definition push_name_and_namespaces ::
    "import_state \<Rightarrow> string \<Rightarrow> attrs \<Rightarrow> import_state \<times> string \<times> attrs" where
  "push_name_and_namespaces st raw_name raw_attrs =
    (let (namespaces, other) = split_attrs raw_attrs [] [];
         converted = (case convert_name_with_ns raw_name namespaces of
                        Some c \<Rightarrow> c | None \<Rightarrow> convert_name st raw_name);
         st1 = st\<lparr>im_stack := \<lparr>sf_name = converted, sf_namespaces = namespaces, sf_valid = True\<rparr>
                               # im_stack st\<rparr>;
         attrs = foldl (\<lambda>m (key, value). (convert_name st1 key, value) # m) [] other
     in (st1, converted, attrs))"

definition parent_valid :: "import_state \<Rightarrow> bool" where
  "parent_valid st = (case im_stack st of _ # parent # _ \<Rightarrow> sf_valid parent | _ \<Rightarrow> True)"

definition invalidate_current :: "import_state \<Rightarrow> import_state" where
  "invalidate_current st =
    (case im_stack st of
       [] \<Rightarrow> st
     | frame # frames \<Rightarrow> st\<lparr>im_stack := frame\<lparr>sf_valid := False\<rparr> # frames\<rparr>)"

text \<open>\<^verbatim>\<open>attrs.get(name).map(String::as_str).unwrap_or("")\<close>\<close>

definition attr_or_empty :: "attrs \<Rightarrow> string \<Rightarrow> string" where
  "attr_or_empty attrs name = (case map_of attrs name of Some v \<Rightarrow> v | None \<Rightarrow> [])"

section \<open>Element handlers\<close>

definition do_file_entry :: "attrs \<Rightarrow> import_state \<Rightarrow> import_state" where
  "do_file_entry attrs st =
    st\<lparr>im_bag := empty_bag
      \<lparr>bag_full_path := (case map_of attrs attr_full_path of Some path \<Rightarrow> path | None \<Rightarrow> []),
       bag_media_type := Some (attr_or_empty attrs attr_media_type),
       bag_version := (case map_of attrs attr_version of
                         Some v \<Rightarrow> if v = [] then None else Some v | None \<Rightarrow> None),
       bag_size := (case map_of attrs attr_size of
                      Some sz \<Rightarrow> if sz = [] then None else Some (parse_i64 sz)
                    | None \<Rightarrow> None)\<rparr>\<rparr>"

definition do_encrypted_key :: "import_state \<Rightarrow> import_state" where
  "do_encrypted_key st = st\<lparr>im_current_key := Some empty_key\<rparr>"

definition do_encryption_method :: "attrs \<Rightarrow> string \<Rightarrow> import_state \<Rightarrow> import_state" where
  "do_encryption_method attrs algo_attr st =
    (if im_current_key st = None \<or> \<not> is_pgp_wrap_uri (attr_or_empty attrs algo_attr)
     then st\<lparr>im_ignore_encrypt_data := True\<rparr> else st)"

definition take_chars_decoded :: "import_state \<Rightarrow> bytes" where
  "take_chars_decoded st = decode_b64 (im_current_characters st)"

definition do_encrypted_cipher_value :: "import_state \<Rightarrow> import_state" where
  "do_encrypted_cipher_value st =
    (case im_current_key st of
       Some key \<Rightarrow> st\<lparr>im_current_key := Some (key\<lparr>cipher_value := take_chars_decoded st\<rparr>)\<rparr>
     | None \<Rightarrow> st\<lparr>im_ignore_encrypt_data := True\<rparr>)"

definition do_encrypted_key_id :: "import_state \<Rightarrow> import_state" where
  "do_encrypted_key_id st =
    (case im_current_key st of
       Some key \<Rightarrow> st\<lparr>im_current_key := Some (key\<lparr>key_id := take_chars_decoded st\<rparr>)\<rparr>
     | None \<Rightarrow> st\<lparr>im_ignore_encrypt_data := True\<rparr>)"

definition do_encrypted_key_packet :: "import_state \<Rightarrow> import_state" where
  "do_encrypted_key_packet st =
    (case im_current_key st of
       Some key \<Rightarrow> st\<lparr>im_current_key := Some (key\<lparr>key_packet := take_chars_decoded st\<rparr>)\<rparr>
     | None \<Rightarrow> st\<lparr>im_ignore_encrypt_data := True\<rparr>)"

definition do_encryption_data :: "attrs \<Rightarrow> import_state \<Rightarrow> import_state" where
  "do_encryption_data attrs st0 =
    (let st = st0\<lparr>im_derived_key_size := 0\<rparr> in
     if im_ignore_encrypt_data st then st
     else
       (let bag = im_bag st;
            bag = (case checksum_alg_from_type (attr_or_empty attrs attr_checksum_type) of
                     Some alg \<Rightarrow> bag\<lparr>bag_digest_alg := Some alg\<rparr> | None \<Rightarrow> bag);
            bag = (if bag_digest_alg bag \<noteq> None
                   then bag\<lparr>bag_digest := Some (decode_b64 (attr_or_empty attrs attr_checksum))\<rparr>
                   else bag)
        in st\<lparr>im_bag := bag\<rparr>))"

definition do_algorithm :: "attrs \<Rightarrow> import_state \<Rightarrow> import_state" where
  "do_algorithm attrs st =
    (if im_ignore_encrypt_data st then st
     else case cipher_from_algorithm_name (attr_or_empty attrs attr_algorithm_name) of
       Some (cipher, implied) \<Rightarrow>
         st\<lparr>im_bag := (im_bag st)\<lparr>bag_enc_alg := Some cipher,
                                 bag_iv := Some (decode_b64 (attr_or_empty attrs attr_iv))\<rparr>,
            im_derived_key_size :=
              (case implied of Some len \<Rightarrow> int len | None \<Rightarrow> im_derived_key_size st)\<rparr>
     | None \<Rightarrow> st\<lparr>im_ignore_encrypt_data := True\<rparr>)"

definition do_start_key_alg :: "attrs \<Rightarrow> import_state \<Rightarrow> import_state" where
  "do_start_key_alg attrs st =
    (case start_key_from_name (attr_or_empty attrs attr_start_key_name) of
       Some alg \<Rightarrow> st\<lparr>im_bag := (im_bag st)\<lparr>bag_start_key_alg := Some alg\<rparr>\<rparr>
     | None \<Rightarrow> st\<lparr>im_ignore_encrypt_data := True\<rparr>)"

definition argon2_attr :: "attrs \<Rightarrow> string \<Rightarrow> string \<Rightarrow> string" where
  "argon2_attr attrs manifest loext =
    (case map_of attrs manifest of
       Some v \<Rightarrow> v | None \<Rightarrow> attr_or_empty attrs loext)"

text \<open>The KDF branch of \<^verbatim>\<open>do_key_derivation\<close>: the parameters the function's own name calls for.\<close>

definition kdf_parameters :: "attrs \<Rightarrow> kdf_id \<Rightarrow> import_state \<Rightarrow> import_state" where
  "kdf_parameters attrs kdf st =
    (if kdf = IdArgon2id then
       (let t = parse_i32 (argon2_attr attrs attr_argon2_t attr_argon2_t_lo);
            m = parse_i32 (argon2_attr attrs attr_argon2_m attr_argon2_m_lo);
            p = parse_i32 (argon2_attr attrs attr_argon2_p attr_argon2_p_lo)
        in if t > 0 \<and> m > 0 \<and> p > 0
           then st\<lparr>im_bag := (im_bag st)\<lparr>bag_argon2_args := Some (t, m, p)\<rparr>\<rparr>
           else st\<lparr>im_ignore_encrypt_data := True\<rparr>)
     else st\<lparr>im_bag := (im_bag st)
       \<lparr>bag_iteration_count := Some (parse_i32 (attr_or_empty attrs attr_iteration_count))\<rparr>\<rparr>)"

definition key_size_of :: "attrs \<Rightarrow> int \<Rightarrow> int" where
  "key_size_of attrs current =
    (case map_of attrs attr_key_size of
       Some key_size \<Rightarrow> if key_size \<noteq> [] then parse_i32 key_size
                         else if current = 0 then 16 else current
     | None \<Rightarrow> if current = 0 then 16 else current)"

definition do_key_derivation :: "attrs \<Rightarrow> import_state \<Rightarrow> import_state" where
  "do_key_derivation attrs st =
    (if im_ignore_encrypt_data st then st
     else
       (let name = attr_or_empty attrs attr_key_derivation_name in
        case password_kdf_from_name name of
          Some kdf \<Rightarrow>
            (let st1 = kdf_parameters attrs kdf (st\<lparr>im_bag := (im_bag st)\<lparr>bag_kdf := Some kdf\<rparr>\<rparr>);
                 key_size = key_size_of attrs (im_derived_key_size st1)
             in st1\<lparr>im_bag := (im_bag st1)\<lparr>bag_salt := Some (decode_b64 (attr_or_empty attrs attr_salt)),
                                            bag_derived_key_size := Some key_size\<rparr>,
                    im_derived_key_size := key_size\<rparr>)
        | None \<Rightarrow>
            if im_pgp_encryption st \<and> name = pgp_name
            then st\<lparr>im_bag := (im_bag st)\<lparr>bag_kdf := Some IdPgpRsaOaepMgf1p\<rparr>\<rparr>
            else st\<lparr>im_ignore_encrypt_data := True\<rparr>))"

section \<open>Start and end of an element\<close>

definition clear_characters :: "import_state \<Rightarrow> import_state" where
  "clear_characters st = st\<lparr>im_current_characters := []\<rparr>"

text \<open>The arms of the \<^verbatim>\<open>match level\<close> in \<^verbatim>\<open>start_element\<close>.\<close>

definition start_level_1 :: "string \<Rightarrow> attrs \<Rightarrow> import_state \<Rightarrow> import_state" where
  "start_level_1 converted attrs st =
    (let st1 = (case map_of attrs attr_version of
                  Some v \<Rightarrow> if v \<noteq> [] then st\<lparr>im_package_version := Some v\<rparr> else st
                | None \<Rightarrow> st)
     in if converted \<noteq> element_manifest then invalidate_current st1 else st1)"

definition start_level_2 :: "string \<Rightarrow> attrs \<Rightarrow> import_state \<Rightarrow> import_state" where
  "start_level_2 converted attrs st =
    (if converted = element_file_entry then do_file_entry attrs st
     else if converted = element_loext_keyinfo \<or> converted = element_manifest_encrypted_key then
       (if converted = element_manifest_encrypted_key then do_encrypted_key st else st)
     else invalidate_current st)"

definition start_level_3 :: "string \<Rightarrow> attrs \<Rightarrow> import_state \<Rightarrow> import_state" where
  "start_level_3 converted attrs st =
    (if converted = element_encryption_data then do_encryption_data attrs st
     else if converted = element_loext_encrypted_key then do_encrypted_key st
     else if converted = element_manifest_encryption_method
       then do_encryption_method attrs attr_pgp_algorithm st
     else if converted = element_manifest_keyinfo \<or> converted = element_manifest_cipher_data then st
     else invalidate_current st)"

definition start_level_4 :: "string \<Rightarrow> attrs \<Rightarrow> import_state \<Rightarrow> import_state" where
  "start_level_4 converted attrs st =
    (if converted = element_algorithm then do_algorithm attrs st
     else if converted = element_key_derivation then do_key_derivation attrs st
     else if converted = element_start_key_generation then do_start_key_alg attrs st
     else if converted = element_loext_encryption_method
       then do_encryption_method attrs attr_pgp_algorithm_lo st
     else if converted = element_loext_keyinfo_dsig \<or> converted = element_loext_cipher_data
          \<or> converted = element_manifest_pgp_data then st
     else if converted = element_manifest_cipher_value then clear_characters st
     else invalidate_current st)"

definition start_level_5 :: "string \<Rightarrow> import_state \<Rightarrow> import_state" where
  "start_level_5 converted st =
    (if converted = element_loext_pgp_data then st
     else if converted = element_loext_cipher_value \<or> converted = element_manifest_pgp_key_id
          \<or> converted = element_manifest_pgp_key_packet then clear_characters st
     else invalidate_current st)"

definition start_level_6 :: "string \<Rightarrow> import_state \<Rightarrow> import_state" where
  "start_level_6 converted st =
    (if converted = element_loext_pgp_key_id \<or> converted = element_loext_pgp_key_packet
     then clear_characters st else invalidate_current st)"

definition start_level :: "nat \<Rightarrow> string \<Rightarrow> attrs \<Rightarrow> import_state \<Rightarrow> import_state" where
  "start_level level converted attrs st =
    (if level = 1 then start_level_1 converted attrs st
     else if level = 2 then start_level_2 converted attrs st
     else if level = 3 then start_level_3 converted attrs st
     else if level = 4 then start_level_4 converted attrs st
     else if level = 5 then start_level_5 converted st
     else if level = 6 then start_level_6 converted st
     else invalidate_current st)"

lemmas start_level_defs = start_level_1_def start_level_2_def start_level_3_def start_level_4_def
  start_level_5_def start_level_6_def

definition start_element :: "string \<Rightarrow> attrs \<Rightarrow> import_state \<Rightarrow> import_state" where
  "start_element raw_name raw_attrs st =
    (if im_beyond_cap st > 0 \<or> length (im_stack st) \<ge> max_depth
     then st\<lparr>im_beyond_cap := im_beyond_cap st + 1\<rparr>
     else
       (let (st1, converted, attrs) = push_name_and_namespaces st raw_name raw_attrs;
            level = length (im_stack st1)
        in if level \<ge> 3 \<and> \<not> parent_valid st1 then invalidate_current st1
           else start_level level converted attrs st1))"

text \<open>The first half of \<^verbatim>\<open>end_element\<close>: a valid file entry is pushed, a valid key is collected.\<close>

definition finish_file_entry :: "import_state \<Rightarrow> import_state" where
  "finish_file_entry st =
    (let bag = im_bag st;
         bag = (if im_bags st = [] \<and> im_package_version st \<noteq> None \<and> bag_version bag = None
                then bag\<lparr>bag_version := im_package_version st\<rparr> else bag);
         bag = (if \<not> im_ignore_encrypt_data st \<and> im_keys st \<noteq> [] \<and> im_bags st = []
                then bag\<lparr>bag_key_info := Some (im_keys st)\<rparr> else bag)
     in st\<lparr>im_ignore_encrypt_data := False, im_bags := im_bags st @ [bag], im_bag := empty_bag\<rparr>)"

definition finish_encrypted_key :: "import_state \<Rightarrow> import_state" where
  "finish_encrypted_key st =
    (if \<not> im_ignore_encrypt_data st then
       st\<lparr>im_keys := im_keys st @ [(case im_current_key st of Some k \<Rightarrow> k | None \<Rightarrow> empty_key)],
          im_pgp_encryption := True, im_current_key := None\<rparr>
     else st\<lparr>im_current_key := None\<rparr>)"

text \<open>The second half: the character data of a key's slot is decoded, at the levels it may stand at.\<close>

definition finish_cdata :: "nat \<Rightarrow> string \<Rightarrow> import_state \<Rightarrow> import_state" where
  "finish_cdata level converted st =
    (if converted = element_manifest_cipher_value \<and> level = 4
        \<or> converted = element_loext_cipher_value \<and> level = 5 then do_encrypted_cipher_value st
     else if converted = element_manifest_pgp_key_id \<and> level = 5
        \<or> converted = element_loext_pgp_key_id \<and> level = 6 then do_encrypted_key_id st
     else if converted = element_manifest_pgp_key_packet \<and> level = 5
        \<or> converted = element_loext_pgp_key_packet \<and> level = 6 then do_encrypted_key_packet st
     else st)"

definition end_element :: "string \<Rightarrow> import_state \<Rightarrow> import_state" where
  "end_element raw_name st =
    (if im_beyond_cap st > 0 then st\<lparr>im_beyond_cap := im_beyond_cap st - 1\<rparr>
     else case im_stack st of
       [] \<Rightarrow> st
     | frame # _ \<Rightarrow>
        (let converted = convert_name st raw_name in
         if sf_name frame \<noteq> converted then st
         else
           (let valid = sf_valid frame;
                level = length (im_stack st);
                st1 = (if converted = element_file_entry \<and> valid then finish_file_entry st
                       else if (converted = element_loext_encrypted_key
                                \<or> converted = element_manifest_encrypted_key) \<and> valid
                       then finish_encrypted_key st
                       else st);
                st2 = finish_cdata level converted st1
            in st2\<lparr>im_stack := tl (im_stack st2)\<rparr>)))"

definition characters :: "string \<Rightarrow> import_state \<Rightarrow> import_state" where
  "characters txt st = st\<lparr>im_current_characters := im_current_characters st @ txt\<rparr>"

section \<open>The event loop\<close>

text \<open>
  What the reader reports.  An attribute is \<^const>\<open>None\<close> where the reader's attribute iterator fails,
  a text event where its own decoding fails.
\<close>

datatype xml_event =
    EvStart string "(string \<times> string) option list"
  | EvEnd string
  | EvText "string option"
  | EvCData "string option"
  | EvGeneralRef "string option"
  | EvError
  | EvOther

fun collect_attrs :: "(string \<times> string) option list \<Rightarrow> attrs option" where
  "collect_attrs [] = Some []"
| "collect_attrs (None # _) = None"
| "collect_attrs (Some (key, raw) # rest) =
    (if \<not> utf8_valid raw then None
     else map_option (\<lambda>attrs. (from_utf8_lossy key, normalize_attr_value raw) # attrs)
            (collect_attrs rest))"

text \<open>One turn of the loop: \<^const>\<open>None\<close> is its \<^verbatim>\<open>return Vec::new()\<close>.\<close>

fun import_event :: "xml_event \<Rightarrow> import_state \<Rightarrow> import_state option" where
  "import_event (EvStart name attrs) st =
    map_option (\<lambda>as. start_element (from_utf8_lossy name) as st) (collect_attrs attrs)"
| "import_event (EvEnd name) st = Some (end_element (from_utf8_lossy name) st)"
| "import_event (EvText t) st = map_option (\<lambda>s. characters s st) t"
| "import_event (EvCData t) st = map_option (\<lambda>s. characters s st) t"
| "import_event (EvGeneralRef r) st = map_option (\<lambda>name. characters (expand_ref name) st) r"
| "import_event EvError st = None"
| "import_event EvOther st = Some st"

fun import_events :: "xml_event list \<Rightarrow> import_state \<Rightarrow> import_state option" where
  "import_events [] st = Some st"
| "import_events (ev # evs) st =
    (case import_event ev st of None \<Rightarrow> None | Some st' \<Rightarrow> import_events evs st')"

definition parse_manifest :: "xml_event list \<Rightarrow> property_bag list" where
  "parse_manifest evs =
    (case import_events evs import_new of
       None \<Rightarrow> []
     | Some st \<Rightarrow> if im_stack st \<noteq> [] then [] else im_bags st)"

section \<open>What the handlers leave alone\<close>

lemmas handler_defs = do_file_entry_def do_encrypted_key_def do_encryption_method_def
  do_encrypted_cipher_value_def do_encrypted_key_id_def do_encrypted_key_packet_def
  do_encryption_data_def do_algorithm_def do_start_key_alg_def kdf_parameters_def
  do_key_derivation_def clear_characters_def

lemma stack_simps [simp]:
  "im_stack (do_file_entry a st) = im_stack st"
  "im_stack (do_encrypted_key st) = im_stack st"
  "im_stack (do_encryption_method a n st) = im_stack st"
  "im_stack (do_encrypted_cipher_value st) = im_stack st"
  "im_stack (do_encrypted_key_id st) = im_stack st"
  "im_stack (do_encrypted_key_packet st) = im_stack st"
  "im_stack (do_encryption_data a st) = im_stack st"
  "im_stack (do_algorithm a st) = im_stack st"
  "im_stack (do_start_key_alg a st) = im_stack st"
  "im_stack (kdf_parameters a k st) = im_stack st"
  "im_stack (do_key_derivation a st) = im_stack st"
  "im_stack (clear_characters st) = im_stack st"
  "im_stack (finish_file_entry st) = im_stack st"
  "im_stack (finish_encrypted_key st) = im_stack st"
  "im_stack (finish_cdata l n st) = im_stack st"
  by (simp_all add: handler_defs finish_file_entry_def finish_encrypted_key_def finish_cdata_def
      Let_def split: option.split prod.split)

lemma beyond_simps [simp]:
  "im_beyond_cap (do_file_entry a st) = im_beyond_cap st"
  "im_beyond_cap (do_encrypted_key st) = im_beyond_cap st"
  "im_beyond_cap (do_encryption_method a n st) = im_beyond_cap st"
  "im_beyond_cap (do_encrypted_cipher_value st) = im_beyond_cap st"
  "im_beyond_cap (do_encrypted_key_id st) = im_beyond_cap st"
  "im_beyond_cap (do_encrypted_key_packet st) = im_beyond_cap st"
  "im_beyond_cap (do_encryption_data a st) = im_beyond_cap st"
  "im_beyond_cap (do_algorithm a st) = im_beyond_cap st"
  "im_beyond_cap (do_start_key_alg a st) = im_beyond_cap st"
  "im_beyond_cap (kdf_parameters a k st) = im_beyond_cap st"
  "im_beyond_cap (do_key_derivation a st) = im_beyond_cap st"
  "im_beyond_cap (clear_characters st) = im_beyond_cap st"
  "im_beyond_cap (invalidate_current st) = im_beyond_cap st"
  "im_beyond_cap (finish_file_entry st) = im_beyond_cap st"
  "im_beyond_cap (finish_encrypted_key st) = im_beyond_cap st"
  "im_beyond_cap (finish_cdata l n st) = im_beyond_cap st"
  by (simp_all add: handler_defs finish_file_entry_def finish_encrypted_key_def finish_cdata_def
      invalidate_current_def Let_def split: option.split prod.split list.split)

lemma length_invalidate [simp]: "length (im_stack (invalidate_current st)) = length (im_stack st)"
  by (simp add: invalidate_current_def split: list.split)

text \<open>Whatever the level, the step is one of these; a property of each is a property of the step.\<close>

lemma start_level_rule:
  assumes "P st" "P (invalidate_current st)"
    and "\<And>v. P (st\<lparr>im_package_version := Some v\<rparr>)"
    and "\<And>v. P (invalidate_current (st\<lparr>im_package_version := Some v\<rparr>))"
    and "l = 2 \<Longrightarrow> n = element_file_entry \<Longrightarrow> P (do_file_entry a st)"
    and "P (do_encrypted_key st)" "P (do_encryption_data a st)"
    and "\<And>x. P (do_encryption_method a x st)"
    and "P (do_algorithm a st)" "P (do_key_derivation a st)" "P (do_start_key_alg a st)"
    and "P (clear_characters st)"
  shows "P (start_level l n a st)"
proof -
  have "P (start_level_1 n a st)"
    using assms(1-4) by (simp add: start_level_1_def Let_def split: option.split)
  moreover have "P (start_level_2 n a st)" if "l = 2"
    using assms(1,2,5,6) that by (simp add: start_level_2_def)
  moreover have "P (start_level_3 n a st)"
    using assms(1,2,6-8) by (simp add: start_level_3_def)
  moreover have "P (start_level_4 n a st)"
    using assms(1,2,8-12) by (simp add: start_level_4_def)
  moreover have "P (start_level_5 n st)" "P (start_level_6 n st)"
    using assms(1,2,12) by (simp_all add: start_level_5_def start_level_6_def)
  ultimately show ?thesis using assms(2) by (simp add: start_level_def)
qed

lemma length_start_level [simp]: "length (im_stack (start_level l n a st)) = length (im_stack st)"
  by (rule start_level_rule) (simp_all add: invalidate_current_def split: list.split)

lemma beyond_start_level [simp]: "im_beyond_cap (start_level l n a st) = im_beyond_cap st"
  by (rule start_level_rule) (simp_all add: invalidate_current_def split: list.split)

lemma push_stack:
  "push_name_and_namespaces st n as = (st1, converted, attrs) \<Longrightarrow>
    \<exists>ns. st1 = st\<lparr>im_stack := \<lparr>sf_name = converted, sf_namespaces = ns, sf_valid = True\<rparr> # im_stack st\<rparr>"
  by (auto simp: push_name_and_namespaces_def Let_def split: prod.splits)

section \<open>Depth\<close>

definition open_elements :: "import_state \<Rightarrow> nat" where
  "open_elements st = length (im_stack st) + im_beyond_cap st"

definition depth_inv :: "import_state \<Rightarrow> bool" where
  "depth_inv st \<longleftrightarrow> length (im_stack st) \<le> max_depth
     \<and> (im_beyond_cap st > 0 \<longrightarrow> length (im_stack st) = max_depth)"

lemma start_element_depth:
  assumes "depth_inv st"
  shows "depth_inv (start_element n as st) \<and> open_elements (start_element n as st) = open_elements st + 1"
proof (cases "im_beyond_cap st > 0 \<or> length (im_stack st) \<ge> max_depth")
  case True
  with assms show ?thesis by (auto simp: start_element_def depth_inv_def open_elements_def)
next
  case False
  obtain st1 c a where push: "push_name_and_namespaces st n as = (st1, c, a)"
    by (cases "push_name_and_namespaces st n as")
  from push_stack [OF push] False assms push show ?thesis
    by (auto simp: start_element_def depth_inv_def open_elements_def Let_def)
qed

lemma end_element_depth:
  assumes "depth_inv st"
  shows "depth_inv (end_element n st) \<and> open_elements st \<le> open_elements (end_element n st) + 1"
  using assms
  by (auto simp: end_element_def depth_inv_def open_elements_def Let_def split: list.split)

text \<open>Elements opened minus elements closed is a lower bound for the elements still open.\<close>

fun starts :: "xml_event list \<Rightarrow> nat" where
  "starts [] = 0"
| "starts (EvStart _ _ # evs) = Suc (starts evs)"
| "starts (_ # evs) = starts evs"

fun ends :: "xml_event list \<Rightarrow> nat" where
  "ends [] = 0"
| "ends (EvEnd _ # evs) = Suc (ends evs)"
| "ends (_ # evs) = ends evs"

lemma import_event_depth:
  assumes "import_event ev st = Some st'" "depth_inv st"
  shows "depth_inv st' \<and> open_elements st + starts [ev] \<le> open_elements st' + ends [ev]"
  using assms start_element_depth [OF assms(2)] end_element_depth [OF assms(2)]
  by (cases ev) (auto simp: characters_def depth_inv_def open_elements_def)

lemma import_events_depth:
  "import_events evs st = Some st' \<Longrightarrow> depth_inv st \<Longrightarrow>
    depth_inv st' \<and> open_elements st + starts evs \<le> open_elements st' + ends evs"
proof (induction evs arbitrary: st)
  case (Cons ev evs)
  then obtain s where s: "import_event ev st = Some s" "import_events evs s = Some st'"
    by (auto split: option.splits)
  note d = import_event_depth [OF s(1) Cons.prems(2)]
  have "starts (ev # evs) = starts [ev] + starts evs" "ends (ev # evs) = ends [ev] + ends evs"
    by (cases ev; simp)+
  with d Cons.IH [OF s(2)] show ?case by simp
qed simp

lemma depth_inv_new: "depth_inv import_new"
  by (simp add: depth_inv_def import_new_def)

section \<open>Well-formed bags\<close>

text \<open>What Stage B may rely on: the fields that come in pairs, positive Argon2 costs, and the ranges.\<close>

definition in_i32 :: "int \<Rightarrow> bool" where
  "in_i32 i \<longleftrightarrow> i32_min \<le> i \<and> i \<le> i32_max"

definition in_i64 :: "int \<Rightarrow> bool" where
  "in_i64 i \<longleftrightarrow> i64_min \<le> i \<and> i \<le> i64_max"

lemma in_i32_parse [simp]: "in_i32 (parse_i32 s)"
  using parse_i32_range by (simp add: in_i32_def)

lemma in_i64_parse [simp]: "in_i64 (parse_i64 s)"
  using parse_i64_range by (simp add: in_i64_def)

lemma in_i32_small [simp]: "in_i32 0" "in_i32 16" "in_i32 24" "in_i32 32"
  by (simp_all add: in_i32_def int_limits)

definition bag_wf :: "property_bag \<Rightarrow> bool" where
  "bag_wf b \<longleftrightarrow>
     (bag_digest b = None \<longleftrightarrow> bag_digest_alg b = None)
   \<and> (bag_enc_alg b = None \<longleftrightarrow> bag_iv b = None)
   \<and> pred_option (\<lambda>(t, m, p). 0 < t \<and> 0 < m \<and> 0 < p \<and> in_i32 t \<and> in_i32 m \<and> in_i32 p)
       (bag_argon2_args b)
   \<and> (bag_kdf b = Some IdPbkdf2 \<longrightarrow> bag_iteration_count b \<noteq> None)
   \<and> (bag_kdf b = Some IdPbkdf2 \<or> bag_kdf b = Some IdArgon2id \<longrightarrow>
       bag_salt b \<noteq> None \<and> bag_derived_key_size b \<noteq> None)
   \<and> pred_option in_i64 (bag_size b)
   \<and> pred_option in_i32 (bag_iteration_count b)
   \<and> pred_option in_i32 (bag_derived_key_size b)"

text \<open>Only the first bag carries key material, and never an empty list of it.\<close>

definition key_info_ok :: "property_bag list \<Rightarrow> bool" where
  "key_info_ok bags \<longleftrightarrow>
    (\<forall>b \<in> set (tl bags). bag_key_info b = None) \<and> (\<forall>b \<in> set bags. bag_key_info b \<noteq> Some [])"

text \<open>A live file entry stands at the second level, so the bag it closes is the one it opened.\<close>

fun frames_ok :: "stack_frame list \<Rightarrow> bool" where
  "frames_ok [] \<longleftrightarrow> True"
| "frames_ok (f # fs) \<longleftrightarrow>
    (sf_name f = element_file_entry \<and> sf_valid f \<longrightarrow> length fs = 1) \<and> frames_ok fs"

definition open_entry :: "stack_frame list \<Rightarrow> bool" where
  "open_entry fs \<longleftrightarrow> (\<exists>f \<in> set fs. sf_name f = element_file_entry \<and> sf_valid f)"

definition bag_inv :: "import_state \<Rightarrow> bool" where
  "bag_inv st \<longleftrightarrow>
     bag_wf (im_bag st) \<and> (\<forall>b \<in> set (im_bags st). bag_wf b \<and> bag_media_type b \<noteq> None)
   \<and> bag_key_info (im_bag st) = None \<and> key_info_ok (im_bags st)
   \<and> in_i32 (im_derived_key_size st)"

definition entry_inv :: "import_state \<Rightarrow> bool" where
  "entry_inv st \<longleftrightarrow>
     frames_ok (im_stack st) \<and> (open_entry (im_stack st) \<longrightarrow> bag_media_type (im_bag st) \<noteq> None)"

lemma bag_wf_empty [simp]: "bag_wf empty_bag"
  by (simp add: bag_wf_def empty_bag_def)

lemma bag_inv_unchanged:
  assumes "bag_inv st"
  shows "bag_inv (do_encrypted_key st)" "bag_inv (do_encryption_method a x st)"
    "bag_inv (clear_characters st)" "bag_inv (invalidate_current st)"
    "bag_inv (st\<lparr>im_package_version := v\<rparr>)" "bag_inv (characters s st)"
    "bag_inv (st\<lparr>im_stack := fs\<rparr>)" "bag_inv (st\<lparr>im_beyond_cap := k\<rparr>)"
    "bag_inv (finish_cdata l n st)" "bag_inv (finish_encrypted_key st)"
  using assms
  by (simp_all add: bag_inv_def handler_defs invalidate_current_def characters_def
      finish_cdata_def finish_encrypted_key_def split: list.split option.split)

lemma bag_inv_do_file_entry: "bag_inv st \<Longrightarrow> bag_inv (do_file_entry a st)"
  by (simp add: bag_inv_def do_file_entry_def bag_wf_def empty_bag_def split: option.split)

lemma bag_inv_do_encryption_data: "bag_inv st \<Longrightarrow> bag_inv (do_encryption_data a st)"
  by (cases "im_ignore_encrypt_data st";
      cases "checksum_alg_from_type (attr_or_empty a attr_checksum_type)";
      cases "bag_digest_alg (im_bag st)")
     (simp_all add: bag_inv_def do_encryption_data_def bag_wf_def)

lemma cipher_implied_range:
  "cipher_from_algorithm_name n = Some r \<Longrightarrow> \<forall>c len. r = (c, Some len) \<longrightarrow> in_i32 (int len)"
proof (intro allI impI)
  fix c len
  assume "cipher_from_algorithm_name n = Some r" "r = (c, Some len)"
  then show "in_i32 (int len)" using cipher_key_len [of n c "Some len"] by (cases c) auto
qed

lemma bag_inv_do_algorithm: "bag_inv st \<Longrightarrow> bag_inv (do_algorithm a st)"
  by (cases "im_ignore_encrypt_data st";
      cases "cipher_from_algorithm_name (attr_or_empty a attr_algorithm_name)")
     (simp_all add: bag_inv_def do_algorithm_def bag_wf_def cipher_implied_range
        split: option.split prod.split)

lemma bag_inv_do_start_key: "bag_inv st \<Longrightarrow> bag_inv (do_start_key_alg a st)"
  by (simp add: bag_inv_def do_start_key_alg_def bag_wf_def split: option.split)

lemma key_size_of_range [simp]: "in_i32 k \<Longrightarrow> in_i32 (key_size_of a k)"
  by (simp add: key_size_of_def split: option.split)

lemma kdf_parameters_simps [simp]:
  "bag_kdf (im_bag (kdf_parameters a k st)) = bag_kdf (im_bag st)"
  "bag_digest (im_bag (kdf_parameters a k st)) = bag_digest (im_bag st)"
  "bag_digest_alg (im_bag (kdf_parameters a k st)) = bag_digest_alg (im_bag st)"
  "bag_enc_alg (im_bag (kdf_parameters a k st)) = bag_enc_alg (im_bag st)"
  "bag_iv (im_bag (kdf_parameters a k st)) = bag_iv (im_bag st)"
  "bag_size (im_bag (kdf_parameters a k st)) = bag_size (im_bag st)"
  "bag_key_info (im_bag (kdf_parameters a k st)) = bag_key_info (im_bag st)"
  "bag_media_type (im_bag (kdf_parameters a k st)) = bag_media_type (im_bag st)"
  "im_bags (kdf_parameters a k st) = im_bags st"
  "im_derived_key_size (kdf_parameters a k st) = im_derived_key_size st"
  "k = IdPbkdf2 \<Longrightarrow> bag_iteration_count (im_bag (kdf_parameters a k st))
     = Some (parse_i32 (attr_or_empty a attr_iteration_count))"
  "k \<noteq> IdPbkdf2 \<Longrightarrow> k \<noteq> IdPgpRsaOaepMgf1p \<Longrightarrow>
     bag_iteration_count (im_bag (kdf_parameters a k st)) = bag_iteration_count (im_bag st)"
  by (cases k; simp add: kdf_parameters_def Let_def)+

lemma kdf_parameters_argon2:
  assumes "pred_option (\<lambda>(t, m, p). 0 < t \<and> 0 < m \<and> 0 < p \<and> in_i32 t \<and> in_i32 m \<and> in_i32 p)
    (bag_argon2_args (im_bag st))"
  shows "pred_option (\<lambda>(t, m, p). 0 < t \<and> 0 < m \<and> 0 < p \<and> in_i32 t \<and> in_i32 m \<and> in_i32 p)
    (bag_argon2_args (im_bag (kdf_parameters a k st)))"
  using assms by (simp add: kdf_parameters_def Let_def)

lemma bag_inv_do_key_derivation:
  assumes "bag_inv st"
  shows "bag_inv (do_key_derivation a st)"
proof (cases "password_kdf_from_name (attr_or_empty a attr_key_derivation_name)")
  case None
  with assms show ?thesis by (simp add: bag_inv_def do_key_derivation_def bag_wf_def)
next
  case (Some k)
  with password_kdf_not_pgp have k: "k = IdPbkdf2 \<or> k = IdArgon2id"
    by (cases k) auto
  define st' where "st' = kdf_parameters a k (st\<lparr>im_bag := (im_bag st)\<lparr>bag_kdf := Some k\<rparr>\<rparr>)"
  have "pred_option (\<lambda>(t, m, p). 0 < t \<and> 0 < m \<and> 0 < p \<and> in_i32 t \<and> in_i32 m \<and> in_i32 p)
    (bag_argon2_args (im_bag st'))"
    unfolding st'_def by (rule kdf_parameters_argon2) (use assms in \<open>simp add: bag_inv_def bag_wf_def\<close>)
  moreover have "bag_kdf (im_bag st') = Some k" by (simp add: st'_def)
  moreover have "pred_option in_i32 (bag_iteration_count (im_bag st'))"
    "k = IdPbkdf2 \<longrightarrow> bag_iteration_count (im_bag st') \<noteq> None"
    using k assms by (auto simp: st'_def bag_inv_def bag_wf_def)
  ultimately show ?thesis using k assms Some
    by (simp add: bag_inv_def do_key_derivation_def bag_wf_def Let_def flip: st'_def)
       (simp add: st'_def)
qed

lemma bag_inv_start_level: "bag_inv st \<Longrightarrow> bag_inv (start_level l n a st)"
  by (rule start_level_rule)
     (simp_all add: bag_inv_unchanged bag_inv_do_file_entry bag_inv_do_encryption_data
       bag_inv_do_algorithm bag_inv_do_start_key bag_inv_do_key_derivation)

lemma bag_inv_push:
  assumes "bag_inv st" "push_name_and_namespaces st n as = (st1, c, a)"
  shows "bag_inv st1"
  using push_stack [OF assms(2)] assms(1) by (auto simp: bag_inv_unchanged)

lemma bag_inv_start_element: "bag_inv st \<Longrightarrow> bag_inv (start_element n as st)"
  by (auto simp: start_element_def Let_def bag_inv_unchanged bag_inv_push bag_inv_start_level
      split: prod.split)

section \<open>An open file entry owns the pending bag\<close>

lemma file_entry_names [simp]:
  "element_file_entry \<noteq> element_manifest"
  "element_file_entry \<noteq> element_encryption_data"
  "element_file_entry \<noteq> element_loext_encrypted_key"
  "element_file_entry \<noteq> element_manifest_encryption_method"
  "element_file_entry \<noteq> element_manifest_keyinfo"
  "element_file_entry \<noteq> element_manifest_cipher_data"
  "element_file_entry \<noteq> element_algorithm"
  "element_file_entry \<noteq> element_key_derivation"
  "element_file_entry \<noteq> element_start_key_generation"
  "element_file_entry \<noteq> element_loext_encryption_method"
  "element_file_entry \<noteq> element_loext_keyinfo_dsig"
  "element_file_entry \<noteq> element_loext_cipher_data"
  "element_file_entry \<noteq> element_manifest_pgp_data"
  "element_file_entry \<noteq> element_manifest_cipher_value"
  "element_file_entry \<noteq> element_loext_pgp_data"
  "element_file_entry \<noteq> element_loext_cipher_value"
  "element_file_entry \<noteq> element_manifest_pgp_key_id"
  "element_file_entry \<noteq> element_manifest_pgp_key_packet"
  "element_file_entry \<noteq> element_loext_pgp_key_id"
  "element_file_entry \<noteq> element_loext_pgp_key_packet"
  "element_file_entry \<noteq> element_manifest_encrypted_key"
  by (simp_all add: uri_strings)

lemma start_level_file_entry:
  assumes "l \<noteq> 2"
  shows "\<exists>s. start_level l element_file_entry a st = invalidate_current s
    \<and> im_stack s = im_stack st \<and> im_bag s = im_bag st"
proof -
  have "\<exists>s. start_level_1 element_file_entry a st = invalidate_current s
    \<and> im_stack s = im_stack st \<and> im_bag s = im_bag st"
    by (rule exI [of _ "case map_of a attr_version of
          Some v \<Rightarrow> if v \<noteq> [] then st\<lparr>im_package_version := Some v\<rparr> else st | None \<Rightarrow> st"])
       (simp add: start_level_1_def split: option.split)
  then show ?thesis using assms
    by (auto simp: start_level_def start_level_3_def start_level_4_def start_level_5_def
        start_level_6_def)
qed

lemma start_level_2_file_entry:
  "start_level 2 element_file_entry a st = do_file_entry a st"
  by (simp add: start_level_def start_level_2_def)

lemma media_type_handlers [simp]:
  "bag_media_type (im_bag (do_encrypted_key st)) = bag_media_type (im_bag st)"
  "bag_media_type (im_bag (do_encryption_method a x st)) = bag_media_type (im_bag st)"
  "bag_media_type (im_bag (do_algorithm a st)) = bag_media_type (im_bag st)"
  "bag_media_type (im_bag (do_start_key_alg a st)) = bag_media_type (im_bag st)"
  "bag_media_type (im_bag (do_key_derivation a st)) = bag_media_type (im_bag st)"
  "bag_media_type (im_bag (clear_characters st)) = bag_media_type (im_bag st)"
  "bag_media_type (im_bag (invalidate_current st)) = bag_media_type (im_bag st)"
  "bag_media_type (im_bag (finish_cdata l n st)) = bag_media_type (im_bag st)"
  "bag_media_type (im_bag (finish_encrypted_key st)) = bag_media_type (im_bag st)"
  by (simp_all add: do_encrypted_key_def do_encryption_method_def do_algorithm_def
      do_start_key_alg_def do_key_derivation_def clear_characters_def invalidate_current_def
      finish_cdata_def finish_encrypted_key_def do_encrypted_cipher_value_def
      do_encrypted_key_id_def do_encrypted_key_packet_def Let_def split: option.split list.split)

lemma media_type_encryption_data [simp]:
  "bag_media_type (im_bag (do_encryption_data a st)) = bag_media_type (im_bag st)"
  by (simp add: do_encryption_data_def Let_def split: option.split)

lemma start_level_other:
  assumes "n \<noteq> element_file_entry"
  shows "bag_media_type (im_bag (start_level l n a st)) = bag_media_type (im_bag st)
    \<and> im_stack (start_level l n a st) \<in> {im_stack st, im_stack (invalidate_current st)}"
  by (rule start_level_rule)
     (use assms in \<open>simp_all add: invalidate_current_def split: list.split\<close>)

lemma entry_inv_start_element:
  assumes "entry_inv st"
  shows "entry_inv (start_element n as st)"
proof (cases "im_beyond_cap st > 0 \<or> length (im_stack st) \<ge> max_depth")
  case True
  with assms show ?thesis by (auto simp: start_element_def entry_inv_def)
next
  case False
  obtain st1 c a where push: "push_name_and_namespaces st n as = (st1, c, a)"
    by (cases "push_name_and_namespaces st n as")
  from push_stack [OF push] obtain f where
    st1: "st1 = st\<lparr>im_stack := f # im_stack st\<rparr>" and f: "sf_name f = c" "sf_valid f"
    by auto
  let ?l = "length (im_stack st1)"
  have inval: "entry_inv (invalidate_current s)"
    if "im_stack s = im_stack st1" "im_bag s = im_bag st1" for s
    using that assms st1 by (auto simp: entry_inv_def invalidate_current_def open_entry_def)
  have "entry_inv (start_level ?l c a st1)"
  proof (cases "c = element_file_entry")
    case True
    show ?thesis
    proof (cases "?l = 2")
      case True
      with \<open>c = _\<close> have "start_level ?l c a st1 = do_file_entry a st1"
        by (metis start_level_2_file_entry)
      moreover have "bag_media_type (im_bag (do_file_entry a st1)) \<noteq> None"
        by (simp add: do_file_entry_def)
      ultimately show ?thesis using True assms st1 by (simp add: entry_inv_def)
    next
      case False
      from start_level_file_entry [OF this, of a st1] \<open>c = _\<close> inval show ?thesis by metis
    qed
  next
    case False
    from start_level_other [OF False, of ?l a st1] False assms st1 f show ?thesis
      by (auto simp: entry_inv_def open_entry_def invalidate_current_def)
  qed
  with False push inval show ?thesis by (auto simp: start_element_def Let_def)
qed

lemma frames_ok_entry_top:
  "frames_ok (f # fs) \<Longrightarrow> sf_name f = element_file_entry \<Longrightarrow> sf_valid f \<Longrightarrow> \<not> open_entry fs"
  by (cases fs) (auto simp: open_entry_def)

lemma bag_inv_finish_file_entry:
  assumes "bag_inv st" "bag_media_type (im_bag st) \<noteq> None"
  shows "bag_inv (finish_file_entry st)"
proof -
  define bag where "bag = (let bag = im_bag st;
       bag = (if im_bags st = [] \<and> im_package_version st \<noteq> None \<and> bag_version bag = None
              then bag\<lparr>bag_version := im_package_version st\<rparr> else bag)
     in if \<not> im_ignore_encrypt_data st \<and> im_keys st \<noteq> [] \<and> im_bags st = []
        then bag\<lparr>bag_key_info := Some (im_keys st)\<rparr> else bag)"
  have "bag_wf bag" "bag_media_type bag \<noteq> None" "bag_key_info bag \<noteq> Some []"
    "im_bags st \<noteq> [] \<Longrightarrow> bag_key_info bag = None"
    using assms by (auto simp: bag_def bag_inv_def bag_wf_def Let_def)
  moreover have "finish_file_entry st =
      st\<lparr>im_ignore_encrypt_data := False, im_bags := im_bags st @ [bag], im_bag := empty_bag\<rparr>"
    by (simp add: finish_file_entry_def bag_def Let_def)
  moreover have "bag_key_info empty_bag = None" by (simp add: empty_bag_def)
  ultimately show ?thesis using assms(1)
    by (cases "im_bags st") (auto simp: bag_inv_def key_info_ok_def)
qed

lemma end_element_inv:
  assumes "bag_inv st" "entry_inv st"
  shows "bag_inv (end_element n st) \<and> entry_inv (end_element n st)"
proof (cases "im_beyond_cap st > 0 \<or> im_stack st = []")
  case True
  with assms show ?thesis
    by (auto simp: end_element_def bag_inv_unchanged entry_inv_def split: list.split)
next
  case False
  then obtain f fs where stack: "im_stack st = f # fs" and cap: "im_beyond_cap st = 0"
    by (cases "im_stack st") auto
  have media: "bag_media_type (im_bag st) \<noteq> None" if "sf_name f = element_file_entry" "sf_valid f"
    using assms(2) that stack by (auto simp: entry_inv_def open_entry_def)
  have rest: "entry_inv (s\<lparr>im_stack := tl (im_stack s)\<rparr>)"
    if "im_stack s = f # fs" "bag_media_type (im_bag s) = bag_media_type (im_bag st)" for s
    using assms(2) that stack by (auto simp: entry_inv_def open_entry_def)
  have popped: "entry_inv (s\<lparr>im_stack := tl (im_stack s)\<rparr>)"
    if "im_stack s = f # fs" "sf_name f = element_file_entry" "sf_valid f" for s
    using assms(2) that stack frames_ok_entry_top [of f fs] by (auto simp: entry_inv_def)
  show ?thesis
    using assms(1) stack cap media rest popped
    by (auto simp: end_element_def Let_def bag_inv_unchanged bag_inv_finish_file_entry)
       (use assms(2) in blast)+
qed

definition import_inv :: "import_state \<Rightarrow> bool" where
  "import_inv st \<longleftrightarrow> depth_inv st \<and> bag_inv st \<and> entry_inv st"

lemma import_inv_new: "import_inv import_new"
proof -
  have "bag_key_info empty_bag = None" by (simp add: empty_bag_def)
  then have "bag_inv import_new" "entry_inv import_new"
    by (simp_all add: bag_inv_def entry_inv_def import_new_def key_info_ok_def open_entry_def)
  then show ?thesis by (simp add: import_inv_def depth_inv_new)
qed

lemma import_event_inv:
  assumes "import_event ev st = Some st'" "import_inv st"
  shows "import_inv st'"
proof -
  have "entry_inv (characters s st)" for s
    using assms(2) by (simp add: import_inv_def entry_inv_def characters_def)
  moreover have "depth_inv (characters s st)" for s
    using assms(2) by (simp add: import_inv_def depth_inv_def characters_def)
  ultimately show ?thesis
    using assms start_element_depth end_element_depth end_element_inv
    by (cases ev) (auto simp: import_inv_def bag_inv_unchanged bag_inv_start_element
        entry_inv_start_element)
qed

lemma import_events_inv:
  "import_events evs st = Some st' \<Longrightarrow> import_inv st \<Longrightarrow> import_inv st'"
  by (induction evs arbitrary: st) (auto split: option.splits dest: import_event_inv)

lemma parse_manifest_bags:
  assumes "parse_manifest evs = bags"
  shows "(\<forall>b \<in> set bags. bag_wf b \<and> bag_media_type b \<noteq> None) \<and> key_info_ok bags"
proof (cases "import_events evs import_new")
  case None
  with assms show ?thesis by (auto simp: parse_manifest_def key_info_ok_def)
next
  case (Some st)
  from import_events_inv [OF this import_inv_new] have "bag_inv st" by (simp add: import_inv_def)
  with Some assms show ?thesis
    by (auto simp: parse_manifest_def bag_inv_def key_info_ok_def split: if_splits)
qed

lemma import_events_no_error: "import_events evs st = Some st' \<Longrightarrow> EvError \<notin> set evs"
  by (induction evs arbitrary: st) (auto split: option.splits)

lemma parse_manifest_balanced:
  assumes "parse_manifest evs \<noteq> []"
  shows "starts evs \<le> ends evs \<and> EvError \<notin> set evs"
proof -
  from assms obtain st where st: "import_events evs import_new = Some st" "im_stack st = []"
    by (auto simp: parse_manifest_def split: option.splits if_splits)
  from import_events_depth [OF st(1) depth_inv_new] st(2) have "starts evs \<le> ends evs"
    by (auto simp: open_elements_def import_new_def depth_inv_def max_depth_def)
  moreover have "EvError \<notin> set evs"
    using st(1) by (rule import_events_no_error)
  ultimately show ?thesis ..
qed

section \<open>Properties\<close>

text \<open>
  C4. Every bag of a manifest, whatever the document, is well-formed (paired fields, positive Argon2 costs,
  integers in their ranges), has a media type, and only the first carries key material.
\<close>

theorem manifest_bags_well_formed:
  "(\<forall>b \<in> set (parse_manifest evs). bag_wf b \<and> bag_media_type b \<noteq> None)
   \<and> (\<forall>b \<in> set (tl (parse_manifest evs)). bag_key_info b = None)"
  using parse_manifest_bags [OF refl, of evs] by (simp add: key_info_ok_def)

lemmas import_evaluate = start_element_def push_name_and_namespaces_def convert_name_with_ns_def
  convert_name_def max_depth_def parent_valid_def Let_def is_manifest_namespace_def uri_strings

definition plain_events :: "xml_event list" where
  "plain_events =
    [EvStart ''manifest:manifest'' [Some (''xmlns:manifest'', manifest_ns_oasis)],
     EvStart ''manifest:file-entry'' [Some (''manifest:full-path'', ''a'')],
     EvEnd ''manifest:file-entry'', EvEnd ''manifest:manifest'']"

lemma ascii_text:
  assumes "\<forall>c \<in> set s. (of_char c :: nat) < 128"
  shows "from_utf8_lossy s = s" "utf8_valid s"
  using assms by (simp_all add: from_utf8_lossy_valid utf8_ascii_valid)

lemma plain_events_bags:
  "parse_manifest plain_events = [empty_bag\<lparr>bag_full_path := ''a'', bag_media_type := Some []\<rparr>]"
proof -
  define ns where "ns = [(''manifest'', manifest_ns_oasis)]"
  define f1 where "f1 = \<lparr>sf_name = ''manifest:manifest'', sf_namespaces = ns, sf_valid = True\<rparr>"
  define f2 where "f2 = \<lparr>sf_name = ''manifest:file-entry'', sf_namespaces = [], sf_valid = True\<rparr>"
  define bag where "bag = empty_bag\<lparr>bag_full_path := ''a'', bag_media_type := Some []\<rparr>"
  have s1: "start_element ''manifest:manifest'' [(''xmlns:manifest'', manifest_ns_oasis)] import_new
      = import_new\<lparr>im_stack := [f1]\<rparr>"
    by (simp add: import_evaluate start_level_def start_level_1_def import_new_def f1_def ns_def)
  have s2: "start_element ''manifest:file-entry'' [(''manifest:full-path'', ''a'')]
      (import_new\<lparr>im_stack := [f1]\<rparr>) = import_new\<lparr>im_stack := [f2, f1], im_bag := bag\<rparr>"
    by (simp add: import_evaluate start_level_def start_level_2_def import_new_def f1_def f2_def ns_def bag_def
        do_file_entry_def attr_or_empty_def empty_bag_def)
  have s3: "end_element ''manifest:file-entry'' (import_new\<lparr>im_stack := [f2, f1], im_bag := bag\<rparr>)
      = import_new\<lparr>im_stack := [f1], im_bags := [bag]\<rparr>"
    by (simp add: import_evaluate end_element_def import_new_def f1_def f2_def ns_def bag_def finish_file_entry_def
        finish_cdata_def)
  have s4: "end_element ''manifest:manifest'' (import_new\<lparr>im_stack := [f1], im_bags := [bag]\<rparr>)
      = import_new\<lparr>im_stack := [], im_bags := [bag]\<rparr>"
    by (simp add: import_evaluate end_element_def import_new_def f1_def f2_def ns_def finish_cdata_def)
  have ns: "utf8_valid manifest_ns_oasis" "normalize_attr_value manifest_ns_oasis = manifest_ns_oasis"
    by (simp_all add: manifest_ns_oasis_def ascii_text)
  have st: "im_stack (import_new\<lparr>im_stack := [], im_bags := [bag]\<rparr>) = []"
    "im_bags (import_new\<lparr>im_stack := [], im_bags := [bag]\<rparr>) = [bag]" by simp_all
  show ?thesis
    by (simp add: plain_events_def parse_manifest_def ascii_text ns s1 s2 s3 s4 del: import_state.simps)
       (simp add: st bag_def)
qed

theorem manifest_bags_witness:
  "\<exists>b. parse_manifest plain_events = [b] \<and> bag_wf b \<and> bag_media_type b \<noteq> None"
  using manifest_bags_well_formed [of plain_events] by (auto simp: plain_events_bags)

text \<open>
  C5. A document that breaks off yields no row at all: if the reader reported an error, or more elements
  were opened than closed, at any depth, the list of bags is empty.
\<close>

theorem broken_manifest_has_no_rows:
  assumes "EvError \<in> set evs \<or> ends evs < starts evs"
  shows "parse_manifest evs = []"
  using parse_manifest_balanced [of evs] assms by (cases "parse_manifest evs = []") auto

theorem broken_manifest_witness:
  "parse_manifest [EvStart ''manifest:manifest'' [], EvStart ''a'' [], EvEnd ''a''] = []"
  using broken_manifest_has_no_rows
    [of "[EvStart ''manifest:manifest'' [], EvStart ''a'' [], EvEnd ''a'']"] by simp

end
