(* ===== verification/Zip_Tree.thy ===== *)
theory Zip_Tree
  imports Odf_Types "HOL-Library.AList"
begin

text \<open>
  The folder tree of \<^verbatim>\<open>src/zip_tree.rs\<close>: LibreOffice's hierarchical view of the archive with its
  path cache \<^verbatim>\<open>recent\<close>.  A \<^verbatim>\<open>BTreeMap\<close> of children and the \<^verbatim>\<open>recent\<close> hash map are association lists
  updated with \<^const>\<open>AList.update\<close>; nothing in the code depends on their order.  A folder path from
  the root is the list of its components.  The lemmas show that the cache always points at folders
  that exist, that a resolved path names a node of the kind reported, that resolving never changes
  the tree, and that every member inserted with a regular name resolves to itself.
\<close>

section \<open>Nodes\<close>

record folder_meta =
  fm_media_type :: "string option"
  fm_version :: "string option"

definition default_meta :: folder_meta where
  "default_meta = \<lparr>fm_media_type = None, fm_version = None\<rparr>"

datatype tree_node =
    Folder folder_node
  | Stream bool "string option"
and folder_node = FolderNode (fn_meta: folder_meta) (fn_children: "(string \<times> tree_node) list")

definition default_folder :: folder_node where
  "default_folder = FolderNode default_meta []"

datatype resolved_kind = KFolder | KStream

record resolved =
  res_kind :: resolved_kind
  res_tree_path :: string

record folder_tree =
  ft_root :: folder_node
  ft_recent :: "(string \<times> string list) list"

datatype stream_as_folder = StreamAsFolder

definition child :: "folder_node \<Rightarrow> string \<Rightarrow> tree_node option" where
  "child f name = map_of (fn_children f) name"

definition set_child :: "folder_node \<Rightarrow> string \<Rightarrow> tree_node \<Rightarrow> folder_node" where
  "set_child f name node = FolderNode (fn_meta f) (AList.update name node (fn_children f))"

lemma child_set_child [simp]:
  "child (set_child f n v) m = (if m = n then Some v else child f m)"
  by (simp add: child_def set_child_def update_conv)

lemma child_default [simp]: "child default_folder n = None"
  by (simp add: child_def default_folder_def)

section \<open>Slashes\<close>

text \<open>\<^verbatim>\<open>str::find('/')\<close>, \<^verbatim>\<open>str::rfind('/')\<close> and \<^verbatim>\<open>str::split('/')\<close>.\<close>

definition not_slash :: "char \<Rightarrow> bool" where
  "not_slash c \<longleftrightarrow> c \<noteq> CHR ''/''"

definition find_slash :: "string \<Rightarrow> nat option" where
  "find_slash s =
    (let k = length (takeWhile not_slash s) in if k = length s then None else Some k)"

definition rfind_slash :: "string \<Rightarrow> nat option" where
  "rfind_slash s =
    (let k = length (takeWhile not_slash (rev s)) in
     if k = length s then None else Some (length s - 1 - k))"

fun split_slash :: "string \<Rightarrow> string list" where
  "split_slash [] = [[]]"
| "split_slash (c # cs) =
    (if c = CHR ''/'' then [] # split_slash cs
     else (case split_slash cs of [] \<Rightarrow> [[c]] | s # ss \<Rightarrow> (c # s) # ss))"

text \<open>\<^verbatim>\<open>parts.join("/")\<close>\<close>

fun join_slash :: "string list \<Rightarrow> string" where
  "join_slash [] = []"
| "join_slash [p] = p"
| "join_slash (p # q # ps) = p @ CHR ''/'' # join_slash (q # ps)"

lemma find_slash_Some:
  assumes "find_slash s = Some k"
  shows "k < length s" "take k s = takeWhile not_slash s"
    "drop k s = CHR ''/'' # drop (Suc k) s" "find_slash (take k s) = None"
proof -
  from assms have k: "k = length (takeWhile not_slash s)" "k \<noteq> length s"
    by (auto simp: find_slash_def Let_def split: if_splits)
  with length_takeWhile_le [of not_slash s] show less: "k < length s" by linarith
  show tk: "take k s = takeWhile not_slash s" 
    unfolding k(1) by (rule takeWhile_eq_take [symmetric])
  have "\<not> not_slash (s ! k)" using less k(1) by (simp add: nth_length_takeWhile)
  then show "drop k s = CHR ''/'' # drop (Suc k) s"
    using less by (metis Cons_nth_drop_Suc not_slash_def)
  show "find_slash (take k s) = None" unfolding tk by (simp add: find_slash_def takeWhile_idem)
qed

section \<open>Looking up and updating\<close>

definition get_name :: "string list \<Rightarrow> string" where
  "get_name folder = (if folder = [] then [] else last folder)"

definition folder_tree_path :: "string list \<Rightarrow> string" where
  "folder_tree_path parts = (if parts = [] then ''/'' else join_slash parts @ ''/'')"

definition stream_tree_path :: "string list \<Rightarrow> string \<Rightarrow> string" where
  "stream_tree_path folder name =
    (if folder = [] then name else join_slash folder @ CHR ''/'' # name)"

fun node_at :: "folder_node \<Rightarrow> string list \<Rightarrow> folder_node option" where
  "node_at node [] = Some node"
| "node_at node (part # parts) =
    (case child node part of Some (Folder f) \<Rightarrow> node_at f parts | _ \<Rightarrow> None)"

definition child_kind :: "folder_node \<Rightarrow> string list \<Rightarrow> string \<Rightarrow> resolved_kind option" where
  "child_kind root folder name =
    (case node_at root folder of
       None \<Rightarrow> None
     | Some node \<Rightarrow>
        (case child node name of
           Some (Folder _) \<Rightarrow> Some KFolder
         | Some (Stream _ _) \<Rightarrow> Some KStream
         | None \<Rightarrow> None))"

text \<open>\<^verbatim>\<open>folder_at_mut\<close> and \<^verbatim>\<open>stream_at_mut\<close> followed by the write through the reference they return.\<close>

fun update_folder :: "folder_node \<Rightarrow> string list \<Rightarrow> (folder_node \<Rightarrow> folder_node) \<Rightarrow> folder_node" where
  "update_folder node [] g = g node"
| "update_folder node (part # parts) g =
    (case child node part of
       Some (Folder f) \<Rightarrow> set_child node part (Folder (update_folder f parts g))
     | _ \<Rightarrow> node)"

definition path_parts :: "string \<Rightarrow> string list" where
  "path_parts tree_path = filter (\<lambda>s. s \<noteq> []) (split_slash tree_path)"

definition set_folder_meta ::
    "folder_tree \<Rightarrow> string \<Rightarrow> string option \<Rightarrow> string option \<Rightarrow> folder_tree" where
  "set_folder_meta t tree_path media_type version =
    t\<lparr>ft_root := update_folder (ft_root t) (path_parts tree_path)
       (\<lambda>f. FolderNode \<lparr>fm_media_type = media_type, fm_version = version\<rparr> (fn_children f))\<rparr>"

definition mark_from_manifest :: "folder_tree \<Rightarrow> string \<Rightarrow> string option \<Rightarrow> folder_tree" where
  "mark_from_manifest t tree_path media_type =
    (let parts = path_parts tree_path in
     if parts = [] then t
     else t\<lparr>ft_root := update_folder (ft_root t) (butlast parts)
       (\<lambda>f. case child f (last parts) of
              Some (Stream _ _) \<Rightarrow> set_child f (last parts) (Stream True media_type)
            | _ \<Rightarrow> f)\<rparr>)"

definition root_has_entry :: "folder_tree \<Rightarrow> string \<Rightarrow> bool" where
  "root_has_entry t name \<longleftrightarrow> child (ft_root t) name \<noteq> None"

definition root_has_stream :: "folder_tree \<Rightarrow> string \<Rightarrow> bool" where
  "root_has_stream t name \<longleftrightarrow>
    (case child (ft_root t) name of Some (Stream _ _) \<Rightarrow> True | _ \<Rightarrow> False)"

definition root_entry_media_type :: "folder_tree \<Rightarrow> string \<Rightarrow> string option" where
  "root_entry_media_type t name =
    (case child (ft_root t) name of
       Some (Stream _ media_type) \<Rightarrow> media_type
     | Some (Folder f) \<Rightarrow> fm_media_type (fn_meta f)
     | None \<Rightarrow> None)"

definition root_meta :: "folder_tree \<Rightarrow> folder_meta" where
  "root_meta t = fn_meta (ft_root t)"

section \<open>Building the tree\<close>

fun insert_parts :: "folder_node \<Rightarrow> string list \<Rightarrow> string option \<Rightarrow> stream_as_folder + folder_node" where
  "insert_parts f [] stream =
    (case stream of
       None \<Rightarrow> Ok f
     | Some name \<Rightarrow>
        if name = [] then Ok f
        else (case child f name of
                Some (Folder _) \<Rightarrow> Err StreamAsFolder
              | Some (Stream _ _) \<Rightarrow> Ok f
              | None \<Rightarrow> Ok (set_child f name (Stream False None))))"
| "insert_parts f (part # parts) stream =
    (case child f part of
       Some (Stream _ _) \<Rightarrow> Err StreamAsFolder
     | Some (Folder g) \<Rightarrow>
        and_then (insert_parts g parts stream) (\<lambda>g'. Ok (set_child f part (Folder g')))
     | None \<Rightarrow>
        and_then (insert_parts default_folder parts stream)
          (\<lambda>g'. Ok (set_child f part (Folder g'))))"

definition trim_end_slash :: "string \<Rightarrow> string" where
  "trim_end_slash s = rev (dropWhile (\<lambda>c. c = CHR ''/'') (rev s))"

definition insert_path :: "folder_node \<Rightarrow> string \<Rightarrow> stream_as_folder + folder_node" where
  "insert_path root name =
    (let is_dir = (name \<noteq> [] \<and> last name = CHR ''/'');
         (folder_part, stream) =
           (if is_dir then (trim_end_slash name, None)
            else case rfind_slash name of
                   Some i \<Rightarrow> (take i name, Some (drop (i + 1) name))
                 | None \<Rightarrow> ([], Some name))
     in insert_parts root (takeWhile (\<lambda>p. p \<noteq> []) (split_slash folder_part)) stream)"

text \<open>\<^verbatim>\<open>walk_containing_folder\<close>; the index \<^verbatim>\<open>n_old\<close> is the suffix still to be walked.\<close>

function walk_containing_folder :: "string \<Rightarrow> string list" where
  "walk_containing_folder rest =
    (case find_slash rest of
       None \<Rightarrow> []
     | Some rel \<Rightarrow> if rel = 0 then []
                   else take rel rest # walk_containing_folder (drop (rel + 1) rest))"
  by pat_completeness auto
termination
  by (relation "measure length") (auto dest: find_slash_Some(1))

declare walk_containing_folder.simps [simp del]

definition seed_recent :: "string \<Rightarrow> (string \<times> string list) list \<Rightarrow> (string \<times> string list) list" where
  "seed_recent name recent =
    (case rfind_slash name of
       None \<Rightarrow> recent
     | Some i \<Rightarrow>
        (let dir = take i name in
         if dir \<noteq> [] \<and> map_of recent dir = None
         then AList.update dir (walk_containing_folder name) recent else recent))"

fun from_names :: "string list \<Rightarrow> folder_tree \<Rightarrow> stream_as_folder + folder_tree" where
  "from_names [] t = Ok t"
| "from_names (name # names) t =
    and_then (insert_path (ft_root t) name)
      (\<lambda>root. from_names names \<lparr>ft_root = root, ft_recent = seed_recent name (ft_recent t)\<rparr>)"

definition from_zip_names :: "string list \<Rightarrow> stream_as_folder + folder_tree" where
  "from_zip_names names = from_names names \<lparr>ft_root = default_folder, ft_recent = []\<rparr>"

section \<open>Resolving a path\<close>

text \<open>
  The loop of \<^verbatim>\<open>walk_resolve\<close>: it stops with the folder reached, the folder before it and the rest
  of the path, or fails on a stream used as a folder, or finds nothing.
\<close>

datatype walk_result =
    WalkStream
  | WalkMissing
  | WalkStop "string list" "string list option" string

function walk :: "folder_node \<Rightarrow> string \<Rightarrow> string list \<Rightarrow> string list option \<Rightarrow> walk_result" where
  "walk root rest current previous =
    (case find_slash rest of
       None \<Rightarrow> WalkStop current previous rest
     | Some i \<Rightarrow>
        if i = 0 then WalkStop current previous rest
        else (case child_kind root current (take i rest) of
                Some KFolder \<Rightarrow>
                  walk root (drop (i + 1) rest) (current @ [take i rest]) (Some current)
              | Some KStream \<Rightarrow> WalkStream
              | None \<Rightarrow> WalkMissing))"
  by pat_completeness auto
termination
  by (relation "measure (\<lambda>(_, rest, _, _). length rest)") (auto dest: find_slash_Some(1))

declare walk.simps [simp del]

definition found :: "resolved_kind \<Rightarrow> string list \<Rightarrow> string \<Rightarrow> resolved" where
  "found kind folder name =
    \<lparr>res_kind = kind,
     res_tree_path = (case kind of KStream \<Rightarrow> stream_tree_path folder name
                                 | KFolder \<Rightarrow> folder_tree_path (folder @ [name]))\<rparr>"

definition found_folder :: "string list \<Rightarrow> resolved" where
  "found_folder parts = \<lparr>res_kind = KFolder, res_tree_path = folder_tree_path parts\<rparr>"

type_synonym resolution = "folder_tree \<times> (stream_as_folder + resolved option)"

definition remember :: "folder_tree \<Rightarrow> string \<Rightarrow> string list \<Rightarrow> folder_tree" where
  "remember t key folder = t\<lparr>ft_recent := AList.update key folder (ft_recent t)\<rparr>"

definition forget :: "folder_tree \<Rightarrow> string \<Rightarrow> folder_tree" where
  "forget t key = t\<lparr>ft_recent := AList.delete key (ft_recent t)\<rparr>"

definition walk_resolve :: "folder_tree \<Rightarrow> string \<Rightarrow> bool \<Rightarrow> nat option \<Rightarrow> resolution" where
  "walk_resolve t path b_folder stream_index =
    (case walk (ft_root t) path [] None of
       WalkStream \<Rightarrow> (t, Err StreamAsFolder)
     | WalkMissing \<Rightarrow> (t, Ok None)
     | WalkStop current previous rest \<Rightarrow>
        if b_folder then
          ((case (stream_index, previous) of
              (Some i, Some prev) \<Rightarrow> remember t (take i path) prev | _ \<Rightarrow> t),
           Ok (Some (found_folder current)))
        else (case child_kind (ft_root t) current rest of
                Some kind \<Rightarrow>
                  ((case stream_index of Some i \<Rightarrow> remember t (take i path) current | None \<Rightarrow> t),
                   Ok (Some (found kind current rest)))
              | None \<Rightarrow> (t, Ok None)))"

definition resolve :: "folder_tree \<Rightarrow> string \<Rightarrow> resolution" where
  "resolve t path =
    (if path = ''/'' then (t, Ok (Some \<lparr>res_kind = KFolder, res_tree_path = ''/''\<rparr>))
     else if path = [] then (t, Ok None)
     else
       (let stream_index = rfind_slash path;
            b_folder = (stream_index = Some (length path - 1))
        in case stream_index of
             Some i \<Rightarrow>
              (case map_of (ft_recent t) (take i path) of
                 Some cached \<Rightarrow>
                   if b_folder then
                     (let dir = take i path;
                          temp = (case rfind_slash dir of None \<Rightarrow> dir | Some d \<Rightarrow> drop (d + 1) dir)
                      in if temp = get_name cached then (t, Ok (Some (found_folder cached)))
                         else walk_resolve (forget t dir) path b_folder stream_index)
                   else
                     (case child_kind (ft_root t) cached (drop (i + 1) path) of
                        Some kind \<Rightarrow> (t, Ok (Some (found kind cached (drop (i + 1) path))))
                      | None \<Rightarrow> walk_resolve (forget t (take i path)) path b_folder stream_index)
               | None \<Rightarrow> walk_resolve t path b_folder stream_index)
           | None \<Rightarrow>
              (t, Ok (case child (ft_root t) path of
                        Some (Folder _) \<Rightarrow> Some (found_folder [path])
                      | Some (Stream _ _) \<Rightarrow> Some \<lparr>res_kind = KStream, res_tree_path = path\<rparr>
                      | None \<Rightarrow> None))))"

section \<open>Unexpected streams\<close>

text \<open>\<^verbatim>\<open>short.contains("signatures")\<close>\<close>

fun contains :: "string \<Rightarrow> string \<Rightarrow> bool" where
  "contains [] pat \<longleftrightarrow> pat = []"
| "contains (c # cs) pat \<longleftrightarrow> take (length pat) (c # cs) = pat \<or> contains cs pat"

definition meta_inf :: string where "meta_inf = ''META-INF/''"

definition stream_unexpected :: "string \<Rightarrow> string \<Rightarrow> bool \<Rightarrow> bool \<Rightarrow> bool" where
  "stream_unexpected path short from_manifest is_wholesome \<longleftrightarrow>
    (if path = meta_inf then short \<noteq> ''manifest.xml'' \<and> \<not> contains short ''signatures''
     else is_wholesome \<and> short \<noteq> ''mimetype'' \<and> short \<noteq> encrypted_package
       \<or> \<not> from_manifest \<and> (path \<noteq> [] \<or> short \<noteq> ''mimetype''))"

fun look_unexpected :: "folder_node \<Rightarrow> string \<Rightarrow> bool \<Rightarrow> bool"
and look_children :: "(string \<times> tree_node) list \<Rightarrow> string \<Rightarrow> bool \<Rightarrow> bool" where
  "look_unexpected (FolderNode m children) path is_wholesome = look_children children path is_wholesome"
| "look_children [] path is_wholesome = False"
| "look_children ((short, Folder f) # rest) path is_wholesome =
    (if path = meta_inf then True
     else if is_wholesome \<and> short \<noteq> ''META-INF'' then True
     else if look_unexpected f (path @ short @ ''/'') is_wholesome then True
     else look_children rest path is_wholesome)"
| "look_children ((short, Stream from_manifest mt) # rest) path is_wholesome =
    (if stream_unexpected path short from_manifest is_wholesome then True
     else look_children rest path is_wholesome)"

definition has_unexpected_odf12_streams :: "folder_tree \<Rightarrow> bool \<Rightarrow> bool" where
  "has_unexpected_odf12_streams t is_wholesome = look_unexpected (ft_root t) [] is_wholesome"

section \<open>Looking up: basic facts\<close>

fun kind_of :: "tree_node \<Rightarrow> resolved_kind" where
  "kind_of (Folder _) = KFolder"
| "kind_of (Stream _ _) = KStream"

lemma child_kind_Nil [simp]: "child_kind f [] n = map_option kind_of (child f n)"
  by (simp add: child_kind_def split: option.split tree_node.split)

lemma child_kind_Cons [simp]:
  "child_kind f (p # ps) n =
    (case child f p of Some (Folder g) \<Rightarrow> child_kind g ps n | _ \<Rightarrow> None)"
  by (simp add: child_kind_def split: option.split tree_node.split)

lemma kind_of_eq:
  "kind_of n = KFolder \<longleftrightarrow> (\<exists>f. n = Folder f)" "kind_of n = KStream \<longleftrightarrow> (\<exists>b m. n = Stream b m)"
  by (cases n; simp)+

lemma node_at_snoc:
  "node_at root (ps @ [p]) \<noteq> None \<longleftrightarrow> child_kind root ps p = Some KFolder"
  by (induction root ps rule: node_at.induct)
     (auto split: option.splits tree_node.splits simp: kind_of_eq)

text \<open>Everything the first tree has, the second has with the same kind.\<close>

definition extends :: "folder_node \<Rightarrow> folder_node \<Rightarrow> bool" where
  "extends f g \<longleftrightarrow> (\<forall>ps n k. child_kind f ps n = Some k \<longrightarrow> child_kind g ps n = Some k)"

lemma extends_refl [simp]: "extends f f"
  by (simp add: extends_def)

lemma extends_trans: "extends f g \<Longrightarrow> extends g h \<Longrightarrow> extends f h"
  by (simp add: extends_def)

lemma extends_node_at:
  assumes "extends f g" "node_at f ps \<noteq> None"
  shows "node_at g ps \<noteq> None"
proof (cases ps rule: rev_cases)
  case (snoc qs q)
  with assms show ?thesis unfolding snoc node_at_snoc by (simp add: extends_def)
qed simp

lemma extends_set_child:
  assumes "\<And>n. child f p = Some n \<Longrightarrow> kind_of n = kind_of m"
    and "\<And>g h. child f p = Some (Folder g) \<Longrightarrow> m = Folder h \<Longrightarrow> extends g h"
  shows "extends f (set_child f p m)"
  unfolding extends_def
proof (intro allI impI)
  fix ps n k
  assume "child_kind f ps n = Some k"
  then show "child_kind (set_child f p m) ps n = Some k"
  proof (cases ps)
    case Nil
    with \<open>child_kind f ps n = Some k\<close> assms(1) show ?thesis by auto
  next
    case (Cons q qs)
    with \<open>child_kind f ps n = Some k\<close> obtain g where g: "child f q = Some (Folder g)"
      "child_kind g qs n = Some k" by (auto split: option.splits tree_node.splits)
    show ?thesis
    proof (cases "q = p")
      case True
      with g assms(1) [of "Folder g"] obtain h where "m = Folder h"
        by (cases m) auto
      with assms(2) [of g h] g True Cons show ?thesis by (simp add: extends_def)
    qed (use g Cons in simp)
  qed
qed

lemma extends_default: "child_kind default_folder ps n = None"
  by (cases ps) simp_all

section \<open>Inserting\<close>

lemma insert_parts_extends:
  "insert_parts f ps s = Inr g \<Longrightarrow> extends f g"
proof (induction f ps s arbitrary: g rule: insert_parts.induct)
  case (1 f s)
  then show ?case
    by (auto split: option.splits if_splits tree_node.splits intro!: extends_set_child)
next
  case (2 f p ps s)
  show ?case
  proof (cases "child f p")
    case None
    with 2 show ?thesis by (auto intro!: extends_set_child)
  next
    case (Some n)
    with 2 show ?thesis by (cases n) (auto intro!: extends_set_child)
  qed
qed

lemma insert_parts_result:
  "insert_parts f ps s = Inr g \<Longrightarrow>
    node_at g ps \<noteq> None \<and> (\<forall>name. s = Some name \<longrightarrow> name \<noteq> [] \<longrightarrow> child_kind g ps name = Some KStream)"
proof (induction f ps s arbitrary: g rule: insert_parts.induct)
  case (1 f s)
  then show ?case by (auto split: option.splits if_splits tree_node.splits)
next
  case (2 f p ps s)
  show ?case
  proof (cases "child f p")
    case None
    with 2 show ?thesis by auto
  next
    case (Some n)
    with 2 show ?thesis by (cases n) auto
  qed
qed

section \<open>Splitting at slashes\<close>

lemma split_slash_ne [simp]: "split_slash s \<noteq> []"
  by (induction s) (auto split: list.splits)

lemma split_slash_slash: "split_slash (s @ CHR ''/'' # r) = split_slash s @ split_slash r"
  by (induction s) (auto split: list.splits)

lemma split_slash_plain: "CHR ''/'' \<notin> set s \<Longrightarrow> split_slash s = [s]"
  by (induction s) auto

lemma split_slash_join: "join_slash (split_slash s) = s"
proof (induction s)
  case (Cons c cs)
  then show ?case
    by (cases "split_slash cs"; cases "tl (split_slash cs)") auto
qed simp

lemma split_slash_parts: "p \<in> set (split_slash s) \<Longrightarrow> CHR ''/'' \<notin> set p"
  by (induction s arbitrary: p) (auto split: list.splits if_splits)

lemma rfind_slash_None: "rfind_slash s = None \<longleftrightarrow> CHR ''/'' \<notin> set s"
proof -
  have "length (takeWhile not_slash (rev s)) = length (rev s) \<longleftrightarrow> takeWhile not_slash (rev s) = rev s"
    by (metis takeWhile_eq_take take_all_iff order_refl)
  then show ?thesis
    by (auto simp: rfind_slash_def Let_def takeWhile_eq_all_conv not_slash_def)
qed

lemma rfind_slash_Some:
  assumes "rfind_slash s = Some i"
  shows "s = take i s @ CHR ''/'' # drop (Suc i) s" "CHR ''/'' \<notin> set (drop (Suc i) s)" "i < length s"
proof -
  define w where "w = takeWhile not_slash (rev s)"
  define d where "d = dropWhile not_slash (rev s)"
  have wd: "rev s = w @ d" by (simp add: w_def d_def)
  from assms have "length w \<noteq> length s" "i = length s - 1 - length w"
    by (auto simp: rfind_slash_def Let_def w_def split: if_splits)
  with wd have "d \<noteq> []" by (metis append_Nil2 length_rev)
  then obtain e where d: "d = CHR ''/'' # e"
    using hd_dropWhile [of not_slash "rev s"] by (cases d) (auto simp: d_def not_slash_def)
  have s: "s = rev e @ CHR ''/'' # rev w" using wd d by (metis rev_append rev.simps(2) append.assoc
      append_Cons append_Nil rev_rev_ident)
  have "i = length e" using \<open>i = _\<close> s by simp
  moreover have "CHR ''/'' \<notin> set w"
    by (auto simp: w_def not_slash_def dest: set_takeWhileD)
  ultimately show "s = take i s @ CHR ''/'' # drop (Suc i) s" "CHR ''/'' \<notin> set (drop (Suc i) s)"
    "i < length s"
    using s by simp_all
qed

section \<open>The cache after building\<close>

definition dir_parts :: "string \<Rightarrow> string list" where
  "dir_parts s = takeWhile (\<lambda>p. p \<noteq> []) (split_slash s)"

lemma find_slash_None: "find_slash s = None \<longleftrightarrow> CHR ''/'' \<notin> set s"
proof -
  have "length (takeWhile not_slash s) = length s \<longleftrightarrow> takeWhile not_slash s = s"
    by (metis takeWhile_eq_take take_all_iff order_refl)
  then show ?thesis by (auto simp: find_slash_def Let_def takeWhile_eq_all_conv not_slash_def)
qed

lemma walk_containing_folder_eq:
  "walk_containing_folder name = takeWhile (\<lambda>p. p \<noteq> []) (butlast (split_slash name))"
proof (induction name rule: walk_containing_folder.induct)
  case (1 name)
  show ?case
  proof (cases "find_slash name")
    case None
    then have "CHR ''/'' \<notin> set name" by (simp add: find_slash_None)
    with None show ?thesis by (subst walk_containing_folder.simps) (simp add: split_slash_plain)
  next
    case (Some i)
    note f = find_slash_Some [OF Some]
    have "name = take i name @ CHR ''/'' # drop (i + 1) name"
      using f(3) append_take_drop_id [of i name] by simp
    then have "split_slash name = split_slash (take i name) @ split_slash (drop (i + 1) name)"
      by (metis split_slash_slash)
    then have s: "split_slash name = take i name # split_slash (drop (i + 1) name)"
      using f(4) by (simp add: find_slash_None split_slash_plain)
    show ?thesis
    proof (cases "i = 0")
      case True
      with Some s show ?thesis by (subst walk_containing_folder.simps) simp
    next
      case False
      then have "take i name \<noteq> []" using f(1) by auto
      with 1 [OF Some False] Some False s show ?thesis
        by (subst walk_containing_folder.simps) simp
    qed
  qed
qed

lemma walk_containing_folder_dir:
  assumes "rfind_slash name = Some i"
  shows "walk_containing_folder name = dir_parts (take i name)"
proof -
  note r = rfind_slash_Some [OF assms]
  from r(1) have "split_slash name = split_slash (take i name) @ split_slash (drop (Suc i) name)"
    by (metis split_slash_slash)
  with r(2) have "butlast (split_slash name) = split_slash (take i name)"
    by (simp add: split_slash_plain)
  then show ?thesis by (simp add: walk_containing_folder_eq dir_parts_def)
qed

lemma dir_parts_slash: "dir_parts (s @ [CHR ''/'']) = dir_parts s"
proof -
  have "split_slash (s @ [CHR ''/'']) = split_slash s @ [[]]"
    using split_slash_slash [of s "[]"] by simp
  then show ?thesis by (simp add: dir_parts_def takeWhile_tail)
qed

lemma dir_parts_trim: "dir_parts (trim_end_slash s) = dir_parts s"
proof (induction s rule: rev_induct)
  case (snoc c s)
  then show ?case
    by (cases "c = CHR ''/''") (simp_all add: trim_end_slash_def dir_parts_slash)
qed (simp add: trim_end_slash_def)

text \<open>Where a name goes: the folder it stands in and, for a member, the stream's own name.\<close>

definition member_folder :: "string \<Rightarrow> string list" where
  "member_folder name =
    (case rfind_slash name of Some i \<Rightarrow> dir_parts (take i name) | None \<Rightarrow> [])"

definition member_stream :: "string \<Rightarrow> string" where
  "member_stream name = (case rfind_slash name of Some i \<Rightarrow> drop (i + 1) name | None \<Rightarrow> name)"

lemma rfind_slash_last: "rfind_slash (s @ [CHR ''/'']) = Some (length s)"
  by (simp add: rfind_slash_def not_slash_def)

lemma insert_path_eq:
  "insert_path root name =
    insert_parts root (member_folder name)
      (if member_stream name = [] \<and> name \<noteq> [] then None else Some (member_stream name))"
proof (cases "name \<noteq> [] \<and> last name = CHR ''/''")
  case True
  then obtain s where "name = s @ [CHR ''/'']" by (metis append_butlast_last_id)
  then show ?thesis
    using dir_parts_trim [of name]
    by (simp add: insert_path_def member_folder_def member_stream_def rfind_slash_last
        dir_parts_slash flip: dir_parts_def)
next
  case False
  show ?thesis
  proof (cases "rfind_slash name")
    case None
    with False show ?thesis
      by (auto simp: insert_path_def member_folder_def member_stream_def)
  next
    case (Some i)
    from rfind_slash_Some [OF this] False have "drop (Suc i) name \<noteq> []"
      by (metis append_is_Nil_conv last_snoc list.distinct(1))
    with Some False show ?thesis
      by (auto simp: insert_path_def member_folder_def member_stream_def dir_parts_def)
  qed
qed

lemma insert_path_result:
  assumes "insert_path root name = Inr root'"
  shows "extends root root'" "node_at root' (member_folder name) \<noteq> None"
    "member_stream name \<noteq> [] \<Longrightarrow> child_kind root' (member_folder name) (member_stream name) = Some KStream"
  using insert_parts_extends insert_parts_result assms unfolding insert_path_eq
  by (fastforce split: if_splits)+

definition recent_ok :: "folder_tree \<Rightarrow> bool" where
  "recent_ok t \<longleftrightarrow>
    (\<forall>key v. map_of (ft_recent t) key = Some v \<longrightarrow> node_at (ft_root t) v \<noteq> None)"

definition recent_fresh :: "folder_tree \<Rightarrow> bool" where
  "recent_fresh t \<longleftrightarrow> (\<forall>key v. map_of (ft_recent t) key = Some v \<longrightarrow> v = dir_parts key)"

text \<open>What building has put in for each name so far.\<close>

definition inserted :: "folder_tree \<Rightarrow> string \<Rightarrow> bool" where
  "inserted t name \<longleftrightarrow>
     (member_stream name \<noteq> [] \<longrightarrow>
       child_kind (ft_root t) (member_folder name) (member_stream name) = Some KStream)
   \<and> (\<forall>i. rfind_slash name = Some i \<longrightarrow> take i name \<noteq> [] \<longrightarrow>
       map_of (ft_recent t) (take i name) \<noteq> None)"

lemma from_names_result:
  assumes "from_names names t = Inr t'" "recent_ok t" "recent_fresh t"
  shows "recent_ok t' \<and> recent_fresh t' \<and> (\<forall>name. name \<in> set names \<or> inserted t name \<longrightarrow> inserted t' name)"
  using assms
proof (induction names t rule: from_names.induct)
  case (2 name names t)
  from 2(2) obtain root where root: "insert_path (ft_root t) name = Inr root"
    and rest: "from_names names \<lparr>ft_root = root, ft_recent = seed_recent name (ft_recent t)\<rparr> = Inr t'"
    by auto
  let ?t = "\<lparr>ft_root = root, ft_recent = seed_recent name (ft_recent t)\<rparr>"
  note ins = insert_path_result [OF root]
  have folder: "walk_containing_folder name = member_folder name" if "rfind_slash name = Some i" for i
    using that walk_containing_folder_dir by (simp add: member_folder_def)
  have "recent_ok ?t"
    using 2(3) ins extends_node_at [OF ins(1)] folder
    by (auto simp: recent_ok_def seed_recent_def update_conv Let_def split: option.splits if_splits)
  moreover have "recent_fresh ?t"
    using 2(4) walk_containing_folder_dir
    by (auto simp: recent_fresh_def seed_recent_def update_conv Let_def split: option.splits if_splits)
  moreover have "inserted ?t name"
    using ins by (auto simp: inserted_def seed_recent_def update_conv Let_def)
  moreover have "inserted ?t n" if "inserted t n" for n
    using that ins(1)
    by (auto simp: inserted_def extends_def seed_recent_def update_conv Let_def split: option.splits)
  ultimately show ?case using 2(1) [of root, OF rest] by auto
qed simp

section \<open>Resolving\<close>

lemma walk_result:
  assumes "walk root rest cur prev = WalkStop c p r"
    and "node_at root cur \<noteq> None" "\<And>v. prev = Some v \<Longrightarrow> node_at root v \<noteq> None"
  shows "node_at root c \<noteq> None \<and> (\<forall>v. p = Some v \<longrightarrow> node_at root v \<noteq> None)"
  using assms
proof (induction root rest cur prev rule: walk.induct)
  case (1 root rest cur prev)
  show ?case
  proof (cases "find_slash rest")
    case None
    with 1(2-) show ?thesis by (auto simp: walk.simps [of root rest])
  next
    case (Some i)
    show ?thesis
    proof (cases "i \<noteq> 0 \<and> child_kind root cur (take i rest) = Some KFolder")
      case True
      then have "node_at root (cur @ [take i rest]) \<noteq> None" by (simp only: node_at_snoc)
      with 1(1) [OF Some] 1(2-) True Some show ?thesis
        by (auto simp: walk.simps [of root rest])
    next
      case False
      with 1(2-) Some show ?thesis
        by (auto simp: walk.simps [of root rest] split: if_splits option.splits resolved_kind.splits)
    qed
  qed
qed

text \<open>The node a result names: a folder that exists, or a stream that does.\<close>

definition names_node :: "folder_node \<Rightarrow> resolved \<Rightarrow> bool" where
  "names_node root r \<longleftrightarrow>
    (case res_kind r of
       KFolder \<Rightarrow> \<exists>ps. node_at root ps \<noteq> None \<and> res_tree_path r = folder_tree_path ps
     | KStream \<Rightarrow> \<exists>ps n. child_kind root ps n = Some KStream \<and> res_tree_path r = stream_tree_path ps n)"

lemma names_node_found: "child_kind root ps n = Some k \<Longrightarrow> names_node root (found k ps n)"
  using node_at_snoc [of root ps n]
  by (cases k) (auto simp: names_node_def found_def simp del: not_None_eq intro!: exI)

lemma names_node_found_folder: "node_at root ps \<noteq> None \<Longrightarrow> names_node root (found_folder ps)"
  by (auto simp: names_node_def found_folder_def simp del: not_None_eq intro!: exI)

text \<open>A resolution is sound: the tree is unchanged, the cache stays good, the result exists.\<close>

definition sound :: "folder_tree \<Rightarrow> resolution \<Rightarrow> bool" where
  "sound t res \<longleftrightarrow> ft_root (fst res) = ft_root t \<and> recent_ok (fst res)
     \<and> (\<forall>r. snd res = Inr (Some r) \<longrightarrow> names_node (ft_root t) r)"

lemma recent_ok_remember:
  "recent_ok t \<Longrightarrow> node_at (ft_root t) v \<noteq> None \<Longrightarrow> recent_ok (remember t key v)"
  by (auto simp: recent_ok_def remember_def update_conv)

lemma recent_ok_forget: "recent_ok t \<Longrightarrow> recent_ok (forget t key)"
  by (auto simp: recent_ok_def forget_def delete_conv split: if_splits)

lemma root_simps [simp]:
  "ft_root (remember t key v) = ft_root t" "ft_root (forget t key) = ft_root t"
  by (simp_all add: remember_def forget_def)

lemma walk_resolve_sound:
  assumes "recent_ok t"
  shows "sound t (walk_resolve t path b i)"
proof (cases "walk (ft_root t) path [] None")
  case (WalkStop c p r)
  note w = walk_result [OF this]
  then have c: "node_at (ft_root t) c \<noteq> None" and p: "\<And>v. p = Some v \<Longrightarrow> node_at (ft_root t) v \<noteq> None"
    by simp_all
  show ?thesis
    using WalkStop assms c p recent_ok_remember names_node_found names_node_found_folder
    by (auto simp: walk_resolve_def sound_def split: option.splits)
qed (use assms in \<open>auto simp: walk_resolve_def sound_def\<close>)

lemma sound_forget: "sound (forget t key) res \<Longrightarrow> sound t res"
  by (simp add: sound_def)

lemma resolve_sound:
  assumes "recent_ok t"
  shows "sound t (resolve t path)"
proof -
  have slash: "names_node (ft_root t) \<lparr>res_kind = KFolder, res_tree_path = ''/''\<rparr>"
    by (auto simp: names_node_def folder_tree_path_def intro!: exI [of _ "[]"])
  have walks: "sound t (walk_resolve t path b i)"
    "\<And>k. sound t (walk_resolve (forget t k) path b i)" for b i
    using walk_resolve_sound assms recent_ok_forget sound_forget by blast+
  have plain: "sound t (t, Ok (case child (ft_root t) path of
       Some (Folder _) \<Rightarrow> Some (found_folder [path])
     | Some (Stream _ _) \<Rightarrow> Some \<lparr>res_kind = KStream, res_tree_path = path\<rparr>
     | None \<Rightarrow> None))"
    using assms names_node_found [of "ft_root t" "[]" path]
    by (auto simp: sound_def found_folder_def found_def stream_tree_path_def
        split: option.splits tree_node.splits)
  have cached: "node_at (ft_root t) v \<noteq> None" if "map_of (ft_recent t) k = Some v" for k v
    using assms that by (simp add: recent_ok_def)
  show ?thesis
    using assms slash walks plain cached names_node_found names_node_found_folder
    by (auto simp: resolve_def Let_def split: option.split) (auto simp: sound_def)
qed

text \<open>A member inserted under a regular name resolves to itself in a fresh tree.\<close>

definition regular_name :: "string \<Rightarrow> bool" where
  "regular_name name \<longleftrightarrow> (\<forall>seg \<in> set (split_slash name). seg \<noteq> [])"

lemma split_snoc:
  assumes "rfind_slash name = Some i"
  shows "split_slash name = split_slash (take i name) @ [drop (Suc i) name]"
  using rfind_slash_Some [OF assms] by (metis split_slash_slash split_slash_plain)

lemma join_slash_snoc: "ps \<noteq> [] \<Longrightarrow> join_slash (ps @ [p]) = join_slash ps @ CHR ''/'' # p"
  by (induction ps rule: join_slash.induct) auto

lemma fresh_member_resolves:
  assumes "recent_fresh t" "inserted t name" "regular_name name"
  shows "resolve t name = (t, Ok (Some \<lparr>res_kind = KStream, res_tree_path = name\<rparr>))"
proof (cases "rfind_slash name")
  case None
  then have "name \<noteq> []" "name \<noteq> ''/''"
    using assms(3) by (auto simp: regular_name_def rfind_slash_None)
  with None assms(2) have "map_option kind_of (child (ft_root t) name) = Some KStream"
    by (simp add: inserted_def member_folder_def member_stream_def)
  with None \<open>name \<noteq> []\<close> \<open>name \<noteq> ''/''\<close> show ?thesis
    by (auto simp: resolve_def kind_of_eq)
next
  case (Some i)
  note r = rfind_slash_Some [OF Some] and s = split_snoc [OF Some]
  let ?dir = "take i name" and ?file = "drop (Suc i) name"
  have fne: "?file \<noteq> []" and segs: "\<forall>p \<in> set (split_slash ?dir). p \<noteq> []"
    using assms(3) s by (auto simp: regular_name_def)
  from segs have dir: "dir_parts ?dir = split_slash ?dir"
    by (simp add: dir_parts_def takeWhile_eq_all_conv)
  have dne: "?dir \<noteq> []" using segs by (cases ?dir) auto
  have "i \<noteq> length name - 1" using fne by auto
  moreover have "name \<noteq> ''/''" using fne r(3) by auto
  moreover from assms(2) Some dne obtain v where v: "map_of (ft_recent t) ?dir = Some v"
    by (auto simp: inserted_def)
  have "v = dir_parts ?dir" using assms(1) v unfolding recent_fresh_def by blast
  then have "v = split_slash ?dir" unfolding dir .
  moreover have "child_kind (ft_root t) (split_slash ?dir) ?file = Some KStream"
    using assms(2) Some fne by (simp add: inserted_def member_folder_def member_stream_def dir)
  moreover have "stream_tree_path (split_slash ?dir) ?file = name"
    using r(1) by (simp add: stream_tree_path_def split_slash_join)
  ultimately show ?thesis using Some v r(3)
    by (auto simp: resolve_def Let_def found_def)
qed

section \<open>Writing through a path\<close>

lemma update_folder_child_kind:
  assumes "\<And>f ps n. child_kind (g f) ps n = child_kind f ps n"
  shows "child_kind (update_folder root qs g) ps n = child_kind root ps n"
proof (induction qs arbitrary: root ps)
  case (Cons q qs)
  show ?case
    by (cases ps) (use Cons in \<open>auto split: option.split tree_node.split\<close>)
qed (simp add: assms)

text \<open>Meta-data and marks change no path: the skeleton of the tree is what building made it.\<close>

definition same_skeleton :: "folder_tree \<Rightarrow> folder_tree \<Rightarrow> bool" where
  "same_skeleton t u \<longleftrightarrow> (\<forall>ps n. child_kind (ft_root t) ps n = child_kind (ft_root u) ps n)"

lemma same_skeleton_node_at:
  assumes "same_skeleton t u"
  shows "node_at (ft_root t) ps \<noteq> None \<longleftrightarrow> node_at (ft_root u) ps \<noteq> None"
proof (cases ps rule: rev_cases)
  case (snoc qs q)
  with assms show ?thesis unfolding snoc node_at_snoc by (simp add: same_skeleton_def)
qed simp

lemma same_skeleton_recent_ok:
  "same_skeleton t u \<Longrightarrow> ft_recent u = ft_recent t \<Longrightarrow> recent_ok t \<Longrightarrow> recent_ok u"
  using same_skeleton_node_at by (fastforce simp: recent_ok_def)

lemma child_new_meta [simp]: "child (FolderNode m (fn_children f)) n = child f n"
  by (simp add: child_def)

lemma child_kind_new_meta [simp]: "child_kind (FolderNode m (fn_children f)) ps n = child_kind f ps n"
  by (cases ps) simp_all

lemma child_kind_set_stream:
  "child f p = Some (Stream b m) \<Longrightarrow> child_kind (set_child f p (Stream b' m')) ps n = child_kind f ps n"
  by (cases ps) auto

lemma set_folder_meta_skeleton: "same_skeleton (set_folder_meta t path mt v) t"
  by (simp add: same_skeleton_def set_folder_meta_def update_folder_child_kind)

lemma mark_skeleton: "same_skeleton (mark_from_manifest t path mt) t"
proof -
  have "child_kind (case child f p of
      Some (Stream _ _) \<Rightarrow> set_child f p (Stream True mt) | _ \<Rightarrow> f) ps n = child_kind f ps n" for f p ps n
    by (auto split: option.split tree_node.split simp: child_kind_set_stream)
  then show ?thesis
    by (simp add: same_skeleton_def mark_from_manifest_def Let_def update_folder_child_kind)
qed

lemma recent_simps [simp]:
  "ft_recent (set_folder_meta t path mt v) = ft_recent t"
  "ft_recent (mark_from_manifest t path mt) = ft_recent t"
  by (simp_all add: set_folder_meta_def mark_from_manifest_def Let_def)

subsection \<open>A resolved stream path is read back as the stream it names\<close>

definition names_ok :: "folder_node \<Rightarrow> bool" where
  "names_ok root \<longleftrightarrow> (\<forall>ps n. child_kind root ps n \<noteq> None \<longrightarrow> n \<noteq> [] \<and> CHR ''/'' \<notin> set n)"

lemma names_ok_parts:
  assumes "names_ok root" "node_at root ps \<noteq> None"
  shows "\<forall>p \<in> set ps. p \<noteq> [] \<and> CHR ''/'' \<notin> set p"
  using assms(2)
proof (induction ps rule: rev_induct)
  case (snoc p ps)
  then have k: "child_kind root ps p = Some KFolder" by (simp only: node_at_snoc)
  then have "node_at root ps \<noteq> None" by (auto simp: child_kind_def split: option.splits)
  with snoc.IH k assms(1) show ?case by (auto simp: names_ok_def)
qed simp

lemma path_parts_join:
  "\<forall>p \<in> set ps. p \<noteq> [] \<and> CHR ''/'' \<notin> set p \<Longrightarrow> path_parts (join_slash ps) = ps"
  by (induction ps rule: join_slash.induct)
     (simp_all add: path_parts_def split_slash_plain split_slash_slash)

lemma path_parts_stream:
  assumes "names_ok root" "child_kind root ps n = Some KStream"
  shows "path_parts (stream_tree_path ps n) = ps @ [n]"
proof -
  have "node_at root ps \<noteq> None" using assms(2) by (auto simp: child_kind_def split: option.splits)
  from names_ok_parts [OF assms(1) this] assms
  have "\<forall>p \<in> set (ps @ [n]). p \<noteq> [] \<and> CHR ''/'' \<notin> set p" by (auto simp: names_ok_def)
  from path_parts_join [OF this] show ?thesis
    by (cases "ps = []") (simp_all add: stream_tree_path_def join_slash_snoc)
qed

text \<open>The mark and media type a stream carries.\<close>

definition stream_at :: "folder_node \<Rightarrow> string list \<Rightarrow> string \<Rightarrow> (bool \<times> string option) option" where
  "stream_at root ps n =
    (case node_at root ps of
       Some f \<Rightarrow> (case child f n of Some (Stream b m) \<Rightarrow> Some (b, m) | _ \<Rightarrow> None)
     | None \<Rightarrow> None)"

lemma stream_at_Nil [simp]:
  "stream_at f [] n = (case child f n of Some (Stream b m) \<Rightarrow> Some (b, m) | _ \<Rightarrow> None)"
  by (simp add: stream_at_def)

lemma stream_at_Cons [simp]:
  "stream_at f (p # ps) n = (case child f p of Some (Folder g) \<Rightarrow> stream_at g ps n | _ \<Rightarrow> None)"
  by (simp add: stream_at_def split: option.split tree_node.split)

lemma stream_at_kind: "stream_at root ps n \<noteq> None \<longleftrightarrow> child_kind root ps n = Some KStream"
  by (auto simp: stream_at_def child_kind_def split: option.split tree_node.split)

lemma update_folder_stream_at:
  assumes "\<And>f m. child (g f) m =
      (if m = n then (case child f n of Some (Stream _ _) \<Rightarrow> Some (Stream True mt) | c \<Rightarrow> c) else child f m)"
  shows "stream_at (update_folder root qs g) ps m =
    (if ps = qs \<and> m = n then map_option (\<lambda>_. (True, mt)) (stream_at root ps m) else stream_at root ps m)"
proof (induction qs arbitrary: root ps)
  case Nil
  show ?case
  proof (cases ps)
    case (Cons p ps')
    then show ?thesis
      by (cases "child root p") (auto simp: assms split: option.split tree_node.split)
  qed (auto simp: assms split: option.split tree_node.split)
next
  case (Cons q qs)
  show ?case
    by (cases ps) (use Cons in \<open>auto split: option.split tree_node.split\<close>)
qed

lemma mark_stream_at:
  assumes "names_ok (ft_root t)" "child_kind (ft_root t) ps n = Some KStream"
  shows "stream_at (ft_root (mark_from_manifest t (stream_tree_path ps n) mt)) qs m =
    (if qs = ps \<and> m = n then Some (True, mt) else stream_at (ft_root t) qs m)"
proof -
  let ?g = "\<lambda>f. case child f n of Some (Stream _ _) \<Rightarrow> set_child f n (Stream True mt) | _ \<Rightarrow> f"
  have "child (?g f) k =
      (if k = n then (case child f n of Some (Stream _ _) \<Rightarrow> Some (Stream True mt) | c \<Rightarrow> c) else child f k)"
    for f k by (auto split: option.split tree_node.split)
  note u = update_folder_stream_at [of ?g, OF this]
  have "stream_at (ft_root t) ps n \<noteq> None" using assms(2) stream_at_kind by blast
  moreover have "ft_root (mark_from_manifest t (stream_tree_path ps n) mt)
      = update_folder (ft_root t) ps ?g"
    unfolding mark_from_manifest_def path_parts_stream [OF assms] Let_def last_snoc butlast_snoc
    by simp
  ultimately show ?thesis by (auto simp: u)
qed

lemma names_okD: "names_ok f \<Longrightarrow> child_kind f ps n = Some k \<Longrightarrow> n \<noteq> [] \<and> CHR ''/'' \<notin> set n"
  by (auto simp: names_ok_def)

lemma names_ok_set_child:
  assumes "names_ok f" "p \<noteq> [] \<and> CHR ''/'' \<notin> set p" "\<And>g. m = Folder g \<Longrightarrow> names_ok g"
  shows "names_ok (set_child f p m)"
  unfolding names_ok_def
proof (intro allI impI)
  fix qs k assume "child_kind (set_child f p m) qs k \<noteq> None"
  then obtain r where r: "child_kind (set_child f p m) qs k = Some r" by blast
  show "k \<noteq> [] \<and> CHR ''/'' \<notin> set k"
  proof (cases qs)
    case Nil
    show ?thesis
    proof (cases "k = p")
      case False
      with r Nil have "child_kind f [] k = Some r" by simp
      with assms(1) show ?thesis by (rule names_okD)
    qed (use assms(2) in simp)
  next
    case (Cons q qs')
    show ?thesis
    proof (cases "q = p")
      case True
      with r Cons obtain g where "m = Folder g" "child_kind g qs' k = Some r"
        by (cases m) auto
      with assms(3) names_okD show ?thesis by blast
    next
      case False
      with r Cons have "child_kind f qs k = Some r" by simp
      with assms(1) show ?thesis by (rule names_okD)
    qed
  qed
qed

lemma names_ok_child: "names_ok f \<Longrightarrow> child f p = Some (Folder g) \<Longrightarrow> names_ok g"
  unfolding names_ok_def by (metis child_kind_Cons option.simps(5) tree_node.simps(5))

lemma names_ok_default: "names_ok default_folder"
  by (simp add: names_ok_def extends_default)

lemma insert_parts_names:
  assumes "insert_parts f ps s = Inr g" "names_ok f"
    and "\<forall>p \<in> set ps. p \<noteq> [] \<and> CHR ''/'' \<notin> set p"
    and "\<forall>n. s = Some n \<longrightarrow> CHR ''/'' \<notin> set n"
  shows "names_ok g"
  using assms
proof (induction f ps s arbitrary: g rule: insert_parts.induct)
  case (1 f s)
  then show ?case
    by (auto split: option.splits if_splits tree_node.splits intro!: names_ok_set_child)
next
  case (2 f p ps s)
  show ?case
  proof (cases "child f p")
    case None
    with 2 names_ok_default show ?thesis by (auto intro!: names_ok_set_child)
  next
    case (Some n)
    show ?thesis
    proof (cases n)
      case (Folder h)
      with Some 2 names_ok_child [of f p h] show ?thesis by (auto intro!: names_ok_set_child)
    qed (use Some 2 in simp)
  qed
qed

lemma member_folder_parts: "\<forall>p \<in> set (member_folder name). p \<noteq> [] \<and> CHR ''/'' \<notin> set p"
  by (auto simp: member_folder_def dir_parts_def split: option.splits
      dest: set_takeWhileD split_slash_parts)

lemma member_stream_plain: "CHR ''/'' \<notin> set (member_stream name)"
  using rfind_slash_Some [of name] rfind_slash_None [of name]
  by (auto simp: member_stream_def split: option.splits)

lemma from_names_names_ok:
  "from_names names t = Inr t' \<Longrightarrow> names_ok (ft_root t) \<Longrightarrow> names_ok (ft_root t')"
proof (induction names t rule: from_names.induct)
  case (2 name names t)
  then obtain root where root: "insert_path (ft_root t) name = Inr root"
    and rest: "from_names names \<lparr>ft_root = root, ft_recent = seed_recent name (ft_recent t)\<rparr> = Inr t'"
    by auto
  from root have "names_ok root"
    unfolding insert_path_eq
    by (rule insert_parts_names) (use 2(3) member_folder_parts member_stream_plain in auto)
  with 2(1) [of root, OF rest] show ?case by simp
qed simp

lemma from_zip_names_result:
  assumes "from_zip_names names = Inr t"
  shows "recent_ok t" "recent_fresh t" "names_ok (ft_root t)" "\<And>n. n \<in> set names \<Longrightarrow> inserted t n"
proof -
  let ?t = "\<lparr>ft_root = default_folder, ft_recent = []\<rparr>"
  have "recent_ok ?t" "recent_fresh ?t" "names_ok (ft_root ?t)"
    by (simp_all add: recent_ok_def recent_fresh_def names_ok_def extends_default)
  with from_names_result [of names ?t t] from_names_names_ok [of names ?t t] assms
  show "recent_ok t" "recent_fresh t" "names_ok (ft_root t)" "\<And>n. n \<in> set names \<Longrightarrow> inserted t n"
    by (auto simp: from_zip_names_def)
qed

section \<open>What counts as unexpected\<close>

text \<open>
  The specification quantifies over every child of every folder, wherever it stands, with the path
  the code builds for it: the search is exhaustive and its early returns lose nothing.
\<close>

inductive folder_below :: "folder_node \<Rightarrow> string \<Rightarrow> folder_node \<Rightarrow> string \<Rightarrow> bool" where
  here: "folder_below f path f path"
| down: "folder_below f path g own \<Longrightarrow> (short, Folder h) \<in> set (fn_children g) \<Longrightarrow>
    folder_below f path h (own @ short @ ''/'')"

inductive_cases folder_belowE: "folder_below f path g own"

definition child_unexpected :: "string \<Rightarrow> string \<times> tree_node \<Rightarrow> bool \<Rightarrow> bool" where
  "child_unexpected path c is_wholesome \<longleftrightarrow>
    (case snd c of
       Folder _ \<Rightarrow> path = meta_inf \<or> is_wholesome \<and> fst c \<noteq> ''META-INF''
     | Stream from_manifest _ \<Rightarrow> stream_unexpected path (fst c) from_manifest is_wholesome)"

lemma folder_below_down:
  "folder_below h own' g own \<Longrightarrow> own' = path @ short @ ''/'' \<Longrightarrow>
    (short, Folder h) \<in> set (fn_children f) \<Longrightarrow> folder_below f path g own"
proof (induction rule: folder_below.induct)
  case (here f' p)
  then show ?case using folder_below.down [OF folder_below.here] by blast
next
  case (down f' p g own s h')
  then show ?case using folder_below.down by blast
qed

lemma look_children_iff:
  "look_children cs path w \<longleftrightarrow>
     (\<exists>c \<in> set cs. child_unexpected path c w
        \<or> (\<exists>h. snd c = Folder h \<and> look_unexpected h (path @ fst c @ ''/'') w))"
proof (induction cs)
  case (Cons c cs)
  obtain short node where c: "c = (short, node)" by (cases c)
  show ?case by (cases node) (auto simp: Cons c child_unexpected_def)
qed simp

lemma look_unexpected_iff:
  "look_unexpected f path w \<longleftrightarrow> look_children (fn_children f) path w"
  by (cases f) simp

lemma look_unexpected_up:
  "folder_below f path g own \<Longrightarrow> look_unexpected g own w \<Longrightarrow> look_unexpected f path w"
proof (induction rule: folder_below.induct)
  case (down f path g own short h)
  have "look_unexpected g own w"
    unfolding look_unexpected_iff [of g] look_children_iff
    by (rule bexI [OF _ down.hyps(2)]) (use down.prems in simp)
  then show ?case by (rule down.IH)
qed

definition offender :: "folder_node \<Rightarrow> string \<Rightarrow> bool \<Rightarrow> bool" where
  "offender f path w \<longleftrightarrow>
    (\<exists>g own c. folder_below f path g own \<and> c \<in> set (fn_children g) \<and> child_unexpected own c w)"

lemma look_unexpected_found:
  "look_unexpected f path w \<Longrightarrow> offender f path w"
  "look_children cs path w \<Longrightarrow>
     \<exists>c \<in> set cs. child_unexpected path c w \<or> (\<exists>h. snd c = Folder h \<and> offender h (path @ fst c @ ''/'') w)"
proof (induction f path w and cs path w rule: look_unexpected_look_children.induct)
  case (1 m children path w)
  let ?f = "FolderNode m children"
  from 1 obtain c where c: "c \<in> set (fn_children ?f)" and
    "child_unexpected path c w \<or> (\<exists>h. snd c = Folder h \<and> offender h (path @ fst c @ ''/'') w)"
    by auto
  then consider "child_unexpected path c w"
    | h where "c = (fst c, Folder h)" "offender h (path @ fst c @ ''/'') w"
    by (metis prod.collapse)
  then show ?case
  proof cases
    case 1
    with c show ?thesis unfolding offender_def using folder_below.here by blast
  next
    case (2 h)
    with c have "(fst c, Folder h) \<in> set (fn_children ?f)" by simp
    with 2(2) folder_below_down [of h _ _ _ path "fst c" ?f] show ?thesis
      unfolding offender_def by blast
  qed
qed (auto simp: child_unexpected_def split: if_splits)

lemma look_unexpected_spec: "look_unexpected f path w \<longleftrightarrow> offender f path w"
proof
  assume "offender f path w"
  then obtain g own c where g: "folder_below f path g own"
    and c: "c \<in> set (fn_children g)" "child_unexpected own c w"
    by (auto simp: offender_def)
  from c have "look_unexpected g own w"
    unfolding look_unexpected_iff [of g] look_children_iff by blast
  with g show "look_unexpected f path w" by (rule look_unexpected_up)
qed (rule look_unexpected_found)

section \<open>Reachable trees\<close>

text \<open>A tree built from an archive and then used as the classifier uses it, in any order.\<close>

inductive tree_reachable :: "string list \<Rightarrow> folder_tree \<Rightarrow> bool" for names where
  built: "from_zip_names names = Inr t \<Longrightarrow> tree_reachable names t"
| resolved: "tree_reachable names t \<Longrightarrow> tree_reachable names (fst (resolve t path))"
| meta: "tree_reachable names t \<Longrightarrow> tree_reachable names (set_folder_meta t path mt v)"
| marked: "tree_reachable names t \<Longrightarrow> tree_reachable names (mark_from_manifest t path mt)"

lemma names_ok_skeleton: "same_skeleton t u \<Longrightarrow> names_ok (ft_root u) \<Longrightarrow> names_ok (ft_root t)"
  by (simp add: same_skeleton_def names_ok_def)

lemma tree_reachable_inv: "tree_reachable names t \<Longrightarrow> recent_ok t \<and> names_ok (ft_root t)"
proof (induction rule: tree_reachable.induct)
  case (built t)
  with from_zip_names_result show ?case by blast
next
  case (resolved t path)
  with resolve_sound [of t path] show ?case by (simp add: sound_def)
next
  case (meta t path mt v)
  have s: "same_skeleton (set_folder_meta t path mt v) t" by (rule set_folder_meta_skeleton)
  then have "same_skeleton t (set_folder_meta t path mt v)" by (simp add: same_skeleton_def)
  from same_skeleton_recent_ok [OF this] names_ok_skeleton [OF s] meta show ?case by simp
next
  case (marked t path mt)
  have s: "same_skeleton (mark_from_manifest t path mt) t" by (rule mark_skeleton)
  then have "same_skeleton t (mark_from_manifest t path mt)" by (simp add: same_skeleton_def)
  from same_skeleton_recent_ok [OF this] names_ok_skeleton [OF s] marked show ?case by simp
qed

section \<open>Properties\<close>

text \<open>
  C2. However a tree built from an archive has been used, a path that resolves names a node that
  exists, of the kind reported, and resolving changes nothing but the cache.
\<close>

theorem resolve_reachable:
  assumes "tree_reachable names t" "resolve t path = (t', Inr (Some r))"
  shows "ft_root t' = ft_root t \<and> names_node (ft_root t) r"
  using resolve_sound [of t path] tree_reachable_inv [OF assms(1)] assms(2) by (simp add: sound_def)

definition sample_tree :: folder_tree where
  "sample_tree = \<lparr>ft_root = FolderNode default_meta
      [(''content.xml'', Stream False None),
       (''Pictures'', Folder (FolderNode default_meta [(''1.png'', Stream False None)]))],
     ft_recent = [(''Pictures'', [''Pictures''])]\<rparr>"

lemma sample_tree_built: "from_zip_names [''content.xml'', ''Pictures/1.png''] = Inr sample_tree"
  by (code_simp)

lemma sample_resolves:
  "resolve sample_tree ''Pictures/1.png''
    = (sample_tree, Inr (Some \<lparr>res_kind = KStream, res_tree_path = ''Pictures/1.png''\<rparr>))"
  by (code_simp)

theorem resolve_reachable_witness:
  "names_node (ft_root sample_tree) \<lparr>res_kind = KStream, res_tree_path = ''Pictures/1.png''\<rparr>"
  using resolve_reachable [OF built [OF sample_tree_built] sample_resolves] by simp

text \<open>
  C3. In the tree just built, every member stored under a regular name (no empty segment) resolves to
  its own stream, whatever other members the archive has, and the cache is left as it was.
\<close>

theorem member_resolves_to_itself:
  assumes "from_zip_names names = Inr t" "name \<in> set names" "regular_name name"
  shows "resolve t name = (t, Inr (Some \<lparr>res_kind = KStream, res_tree_path = name\<rparr>))"
  using assms from_zip_names_result [OF assms(1)] by (intro fresh_member_resolves) auto

theorem member_resolves_witness:
  "resolve sample_tree ''content.xml''
    = (sample_tree, Inr (Some \<lparr>res_kind = KStream, res_tree_path = ''content.xml''\<rparr>))"
  by (rule member_resolves_to_itself [OF sample_tree_built]) (simp_all add: regular_name_def)

text \<open>
  Marking the stream a row resolved to marks exactly that stream, with the row's media type, and no
  other stream of the tree; the folder and stream structure stays as it was.
\<close>

theorem mark_marks_one_stream:
  assumes "tree_reachable names t" "child_kind (ft_root t) ps n = Some KStream"
  shows "stream_at (ft_root (mark_from_manifest t (stream_tree_path ps n) mt)) qs m
      = (if qs = ps \<and> m = n then Some (True, mt) else stream_at (ft_root t) qs m)
    \<and> same_skeleton (mark_from_manifest t (stream_tree_path ps n) mt) t"
  using mark_stream_at [OF _ assms(2)] tree_reachable_inv [OF assms(1)] mark_skeleton by simp

theorem mark_witness:
  "stream_at (ft_root (mark_from_manifest sample_tree ''Pictures/1.png'' (Some ''image/png'')))
     [''Pictures''] ''1.png'' = Some (True, Some ''image/png'')"
proof -
  have "child_kind (ft_root sample_tree) [''Pictures''] ''1.png'' = Some KStream"
    by (simp add: sample_tree_def child_def)
  from mark_marks_one_stream [OF built [OF sample_tree_built] this,
      where mt = "Some ''image/png''" and qs = "[''Pictures'']" and m = "''1.png''"]
  show ?thesis by (simp add: stream_tree_path_def del: stream_at_Cons)
qed

text \<open>
  C8. The search for unexpected streams answers true exactly when some folder of the tree, at the path
  the search gives it, has a child the ODF 1.2 rules do not allow there.
\<close>

theorem unexpected_streams_exact:
  "has_unexpected_odf12_streams t is_wholesome \<longleftrightarrow>
    (\<exists>g own c. folder_below (ft_root t) [] g own \<and> c \<in> set (fn_children g)
       \<and> child_unexpected own c is_wholesome)"
  by (simp add: has_unexpected_odf12_streams_def look_unexpected_spec offender_def)

text \<open>
  The cache reproduces LibreOffice's quirk: resolving a folder by the walk stores the folder above
  it, so a later row below the same folder can land on a stream its path does not name.
\<close>

theorem folder_row_poisons_cache:
  "case from_zip_names [''a/b/c/x'', ''a/y''] of
     Inr t \<Rightarrow> resolve t ''a/b/y'' = (t, Inr None)
       \<and> (let t1 = fst (resolve t ''a/b/'') in
            snd (resolve t1 ''a/b/y'') = Inr (Some \<lparr>res_kind = KStream, res_tree_path = ''a/y''\<rparr>))
   | Inl _ \<Rightarrow> False"
  by code_simp

end
