(* ===== verification/Odf_Limits.thy ===== *)
theory Odf_Limits
  imports Odf_Types
begin

text \<open>
  The bounds of \<^verbatim>\<open>src/limits.rs\<close> and the refusal vocabulary of \<^verbatim>\<open>src/bad_parameter.rs\<close>.
\<close>

section \<open>Bounds\<close>

definition manifest_read_cap :: nat where "manifest_read_cap = 8 * 1024 * 1024"
definition mimetype_ceiling :: nat where "mimetype_ceiling = 1024"
definition diagnostic_elision :: nat where "diagnostic_elision = 96"
definition pbkdf2_min_iter :: int where "pbkdf2_min_iter = 1"
definition pbkdf2_max_iter :: int where "pbkdf2_max_iter = 10000000"
definition argon2_min_t_cost :: nat where "argon2_min_t_cost = 1"
definition argon2_max_t_cost_read :: nat where "argon2_max_t_cost_read = 10"
definition argon2_max_t_cost_write :: nat where "argon2_max_t_cost_write = 2 ^ 31 - 1"
definition argon2_max_p_cost_read :: nat where "argon2_max_p_cost_read = 16"
definition argon2_min_m_cost_kib :: nat where "argon2_min_m_cost_kib = 1"
definition argon2_max_m_cost_kib_write :: nat where "argon2_max_m_cost_kib_write = 2 ^ 31 - 1"
definition argon2_max_m_cost_kib_read :: nat where "argon2_max_m_cost_kib_read = 2 ^ 20"
definition argon2_min_p_cost :: nat where "argon2_min_p_cost = 1"
definition derived_key_min_len :: int where "derived_key_min_len = 1"
definition derived_key_max_len :: int where "derived_key_max_len = 64"
definition max_encrypted_entries :: nat where "max_encrypted_entries = 4096"
definition checksum_window :: nat where "checksum_window = 1024"
definition payload_ceiling :: nat where "payload_ceiling = 2 ^ 30"
definition inflate_ceiling :: nat where "inflate_ceiling = payload_ceiling"
definition deflate_ceiling :: nat where "deflate_ceiling = payload_ceiling"
definition max_output_bytes :: nat where "max_output_bytes = 16 * 2 ^ 30"
definition aes_gcm_iv_len :: nat where "aes_gcm_iv_len = 12"
definition aes_gcm_tag_len :: nat where "aes_gcm_tag_len = 16"
definition aes_cbc_iv_len :: nat where "aes_cbc_iv_len = 16"
definition aes_block_len :: nat where "aes_block_len = 16"
definition blowfish_iv_len :: nat where "blowfish_iv_len = 8"

lemmas limit_defs = manifest_read_cap_def mimetype_ceiling_def diagnostic_elision_def
  pbkdf2_min_iter_def pbkdf2_max_iter_def argon2_min_t_cost_def argon2_max_t_cost_read_def
  argon2_max_t_cost_write_def argon2_max_p_cost_read_def argon2_min_m_cost_kib_def
  argon2_max_m_cost_kib_write_def argon2_max_m_cost_kib_read_def argon2_min_p_cost_def
  derived_key_min_len_def derived_key_max_len_def max_encrypted_entries_def checksum_window_def
  payload_ceiling_def inflate_ceiling_def deflate_ceiling_def max_output_bytes_def
  aes_gcm_iv_len_def aes_gcm_tag_len_def aes_cbc_iv_len_def aes_block_len_def blowfish_iv_len_def

section \<open>Refusals\<close>

datatype argon2_axis = AxisT | AxisMKib | AxisP

datatype manifest_field =
    IterationCount
  | Argon2Field argon2_axis
  | KeySize
  | SizeField
  | IvLen
  | SaltLen
  | EncryptedEntries

fun manifest_field_text :: "manifest_field \<Rightarrow> string" where
  "manifest_field_text IterationCount = ''manifest:iteration-count''"
| "manifest_field_text (Argon2Field AxisT) = ''loext:argon2-iterations''"
| "manifest_field_text (Argon2Field AxisMKib) = ''loext:argon2-memory (KiB)''"
| "manifest_field_text (Argon2Field AxisP) = ''loext:argon2-lanes''"
| "manifest_field_text KeySize = ''manifest:key-size''"
| "manifest_field_text SizeField = ''manifest:size''"
| "manifest_field_text IvLen = ''manifest:initialisation-vector length''"
| "manifest_field_text SaltLen = ''manifest:salt length''"
| "manifest_field_text EncryptedEntries = ''encrypted row count''"

datatype primitive = PrimArgon2 | PrimAesGcm | PrimAesCbc | PrimBlowfish

fun primitive_text :: "primitive \<Rightarrow> string" where
  "primitive_text PrimArgon2 = ''argon2''"
| "primitive_text PrimAesGcm = ''AES-GCM''"
| "primitive_text PrimAesCbc = ''AES-CBC''"
| "primitive_text PrimBlowfish = ''Blowfish''"

datatype member_fault =
    ShorterThanIvAndTag
  | IvMismatch
  | NotBlockMultiple
  | LongerThanHeader

fun member_fault_text :: "member_fault \<Rightarrow> string" where
  "member_fault_text ShorterThanIvAndTag = ''an AES-GCM member is shorter than its IV and tag''"
| "member_fault_text IvMismatch = ''an AES-GCM member does not begin with its manifest IV''"
| "member_fault_text NotBlockMultiple = ''an AES-CBC member is not a whole number of blocks''"
| "member_fault_text LongerThanHeader = ''a member is longer than its zip header says''"

text \<open>The integers of a refusal: \<^verbatim>\<open>got\<close>, then the inclusive \<^verbatim>\<open>min\<close> and \<^verbatim>\<open>max\<close>.\<close>

datatype bad_parameter =
    OutOfRange manifest_field int int int
  | CipherRejects manifest_field primitive int int int
  | KeySizeForCipher int cipher
  | MemberBad member_fault
  | NoMember nat

text \<open>\<^verbatim>\<open>wide\<close>: an unsigned count as an \<^verbatim>\<open>i64\<close>, saturating.\<close>

definition wide :: "nat \<Rightarrow> int" where
  "wide n = (if int n \<le> i64_max then int n else i64_max)"

lemma wide_range: "0 \<le> wide n \<and> wide n \<le> i64_max"
  by (simp add: wide_def int_limits)

section \<open>The caller's limits\<close>

text \<open>\<^verbatim>\<open>DecryptLimits\<close> of \<^verbatim>\<open>src/decrypt.rs\<close>, with its defaults and its setters.\<close>

record decrypt_limits =
  argon2_max_t :: nat
  argon2_max_m_kib :: nat
  argon2_max_p :: nat
  pbkdf2_max_iterations :: nat
  max_output :: nat

definition default_limits :: decrypt_limits where
  "default_limits = \<lparr>argon2_max_t = argon2_max_t_cost_read,
     argon2_max_m_kib = argon2_max_m_cost_kib_read, argon2_max_p = argon2_max_p_cost_read,
     pbkdf2_max_iterations = nat pbkdf2_max_iter, max_output = max_output_bytes\<rparr>"

definition permissive_limits :: decrypt_limits where
  "permissive_limits = \<lparr>argon2_max_t = 2 ^ 31 - 1, argon2_max_m_kib = 2 ^ 31 - 1,
     argon2_max_p = 2 ^ 31 - 1, pbkdf2_max_iterations = 2 ^ 31 - 1, max_output = u64_max\<rparr>"

definition with_argon2_max_t :: "nat \<Rightarrow> decrypt_limits \<Rightarrow> decrypt_limits" where
  "with_argon2_max_t t l = l\<lparr>argon2_max_t := t\<rparr>"

definition with_argon2_max_m_kib :: "nat \<Rightarrow> decrypt_limits \<Rightarrow> decrypt_limits" where
  "with_argon2_max_m_kib m l = l\<lparr>argon2_max_m_kib := m\<rparr>"

definition with_argon2_max_p :: "nat \<Rightarrow> decrypt_limits \<Rightarrow> decrypt_limits" where
  "with_argon2_max_p p l = l\<lparr>argon2_max_p := p\<rparr>"

definition with_pbkdf2_max_iter :: "nat \<Rightarrow> decrypt_limits \<Rightarrow> decrypt_limits" where
  "with_pbkdf2_max_iter n l = l\<lparr>pbkdf2_max_iterations := n\<rparr>"

definition with_max_output_bytes :: "nat \<Rightarrow> decrypt_limits \<Rightarrow> decrypt_limits" where
  "with_max_output_bytes n l = l\<lparr>max_output := n\<rparr>"

text \<open>A refusal's own numbers show that the value is refused.\<close>

fun refusal_true :: "bad_parameter \<Rightarrow> bool" where
  "refusal_true (OutOfRange f got lo hi) \<longleftrightarrow> \<not> (lo \<le> got \<and> got \<le> hi)"
| "refusal_true (CipherRejects f by got lo hi) \<longleftrightarrow> \<not> (lo \<le> got \<and> got \<le> hi)"
| "refusal_true _ \<longleftrightarrow> True"

end
