(* ===== verification/Classify.thy ===== *)
theory Classify
  imports Manifest_Import Zip_Tree Odf_Limits
begin

text \<open>
  Stage B and the zip shape, \<^verbatim>\<open>src/classify.rs\<close>.  The \<^verbatim>\<open>zip\<close> crate is a parameter: an opened archive is
  the list of what \<^verbatim>\<open>by_index\<close> returns for each central directory entry, an error (its message) or
  the entry's metadata with the bytes a reader of it delivers.  The XML reader is the parameter
  \<^verbatim>\<open>xml_events\<close>.  The lemmas show what a classification promises: the latch row and the wholesome row
  exist exactly when the flags say so, every accepted row carries the fields its algorithms need, and
  member names are what LibreOffice's own check admits.
\<close>

section \<open>The archive\<close>

text \<open>
  One entry: the raw name, the fields of its metadata the code reads, the bytes its reader
  delivers, the error that ends them if one does, and what a single \<^verbatim>\<open>read\<close> returns.
\<close>

record zip_entry =
  ze_raw_name :: string
  ze_uncompressed_size :: nat
  ze_system :: nat
  ze_external_attributes :: u32
  ze_stored :: bool
  ze_data_descriptor :: bool
  ze_data :: string
  ze_fault :: "string option"
  ze_first_read :: "string + nat"

type_synonym archive = "(string + zip_entry) list"

record zip_member =
  zm_name :: string
  zm_index :: nat
  zm_stored :: bool
  zm_data_descriptor :: bool

definition by_index :: "archive \<Rightarrow> nat \<Rightarrow> detect_error + zip_entry" where
  "by_index archive i = map_err ZipErr (archive ! i)"

section \<open>Member names\<close>

definition zip_entry_name :: "string \<Rightarrow> string" where
  "zip_entry_name raw = from_utf8_lossy raw"

definition ascii_lower :: "char \<Rightarrow> char" where
  "ascii_lower c = (if 65 \<le> (of_char c :: nat) \<and> (of_char c :: nat) \<le> 90
                    then char_of (of_char c + 32 :: nat) else c)"

text \<open>
  The loop of \<^verbatim>\<open>is_valid_zip_entry_file_name\<close> over code points: \<^verbatim>\<open>dots\<close> counts the dots of a segment
  made of dots alone and is -1 in any other segment.
\<close>

definition forbidden_char :: "nat \<Rightarrow> bool" where
  "forbidden_char u \<longleftrightarrow> u \<in> {92, 63, 60, 62, 34, 124, 58}"

fun valid_name_loop :: "nat list \<Rightarrow> bool \<Rightarrow> int \<Rightarrow> bool" where
  "valid_name_loop [] first dots = (dots \<noteq> 1 \<and> dots \<noteq> 2)"
| "valid_name_loop (u # us) first dots =
    (if u = 46 then valid_name_loop us False (if dots \<noteq> -1 then dots + 1 else dots)
     else if forbidden_char u then False
     else if u = 47 then
       (if dots = 1 \<or> dots = 2 \<or> first then False else valid_name_loop us False 0)
     else if u < 32 \<or> 55296 \<le> u \<and> u \<le> 57343 then False
     else valid_name_loop us False (-1))"

definition is_valid_zip_entry_file_name :: "string \<Rightarrow> bool" where
  "is_valid_zip_entry_file_name name = valid_name_loop (utf8_chars name) True 0"

fun collapse_slashes_from :: "string \<Rightarrow> bool \<Rightarrow> string" where
  "collapse_slashes_from [] prev_slash = []"
| "collapse_slashes_from (c # cs) prev_slash =
    (if c = CHR ''/'' then
       (if prev_slash then collapse_slashes_from cs True else c # collapse_slashes_from cs True)
     else c # collapse_slashes_from cs False)"

definition collapse_slashes :: "string \<Rightarrow> string" where
  "collapse_slashes name = collapse_slashes_from name False"

definition member_matches_path :: "string \<Rightarrow> string \<Rightarrow> bool" where
  "member_matches_path zip_name want \<longleftrightarrow> zip_name = want \<or> collapse_slashes zip_name = want"

text \<open>
  The loop of \<^verbatim>\<open>collect_members\<close> over the entries from index \<^verbatim>\<open>i\<close>, with the two sets of names seen.
\<close>

definition dos_directory :: "zip_entry \<Rightarrow> bool" where
  "dos_directory e \<longleftrightarrow>
    ze_uncompressed_size e = 0 \<and> ze_system e = 0 \<and> ze_external_attributes e AND 0x10 \<noteq> 0"

fun collect_from :: "nat \<Rightarrow> archive \<Rightarrow> string list \<Rightarrow> string list \<Rightarrow> detect_error + zip_member list" where
  "collect_from i [] seen seen_lower = Ok []"
| "collect_from i (Inl message # rest) seen seen_lower = Err (ZipErr message)"
| "collect_from i (Inr e # rest) seen seen_lower =
    (if dos_directory e then collect_from (i + 1) rest seen seen_lower
     else
       (let name = zip_entry_name (ze_raw_name e); lower = map ascii_lower name in
        if \<not> is_valid_zip_entry_file_name name then Err (ZipErr ''Zip entry has an invalid name.'')
        else if name \<in> set seen then Err (ZipErr ''Duplicate CEN entry'')
        else if lower \<in> set seen_lower then Err (ZipErr ''Duplicate CEN entry (case insensitive)'')
        else
          and_then (collect_from (i + 1) rest (name # seen) (lower # seen_lower))
            (\<lambda>members. Ok (\<lparr>zm_name = name, zm_index = i, zm_stored = ze_stored e,
                            zm_data_descriptor = ze_data_descriptor e\<rparr> # members))))"

definition collect_members :: "archive \<Rightarrow> detect_error + zip_member list" where
  "collect_members archive = collect_from 0 archive [] []"

section \<open>Reading members\<close>

text \<open>\<^verbatim>\<open>take(n).read_to_end\<close>: a fault past the first \<^verbatim>\<open>n\<close> bytes is never reached.\<close>

definition read_taken :: "zip_entry \<Rightarrow> nat \<Rightarrow> detect_error + string" where
  "read_taken e n =
    (if length (ze_data e) \<ge> n then Ok (take n (ze_data e))
     else case ze_fault e of Some msg \<Rightarrow> Err (ZipErr msg) | None \<Rightarrow> Ok (ze_data e))"

definition read_named_member ::
    "archive \<Rightarrow> zip_member list \<Rightarrow> string \<Rightarrow> detect_error + string option" where
  "read_named_member archive members want =
    (case find (\<lambda>m. member_matches_path (zm_name m) want) members of
       None \<Rightarrow> Ok None
     | Some member \<Rightarrow>
        and_then (by_index archive (zm_index member)) (\<lambda>e.
        and_then (read_taken e (manifest_read_cap + 1)) (\<lambda>buf.
        if length buf > manifest_read_cap then Err (ZipErr ''zip entry too large'')
        else Ok (Some buf))))"

definition read_mimetype ::
    "archive \<Rightarrow> zip_member list \<Rightarrow> folder_tree \<Rightarrow> detect_error + string option" where
  "read_mimetype archive members tree =
    (if \<not> root_has_entry tree ''mimetype'' then Ok None
     else if \<not> root_has_stream tree ''mimetype'' then Ok (Some [])
     else case find (\<lambda>m. zm_name m = ''mimetype'') members of
       None \<Rightarrow> Ok (Some [])
     | Some member \<Rightarrow>
        and_then (by_index archive (zm_index member)) (\<lambda>e.
        case ze_first_read e of
          Inl msg \<Rightarrow> Err (ZipErr msg)
        | Inr n \<Rightarrow> Ok (Some (from_utf8_lossy (take (min n mimetype_ceiling) (ze_data e))))))"

section \<open>Accepting a row\<close>

definition nonempty :: "string option \<Rightarrow> bool" where
  "nonempty value = (case value of Some s \<Rightarrow> s \<noteq> [] | None \<Rightarrow> False)"

text \<open>Rust's order on strings: bytewise lexicographic.\<close>

fun byte_le :: "string \<Rightarrow> string \<Rightarrow> bool" where
  "byte_le [] bs \<longleftrightarrow> True"
| "byte_le (a # as) [] \<longleftrightarrow> False"
| "byte_le (a # as) (b # bs) \<longleftrightarrow>
    (of_char a :: nat) < of_char b \<or> a = b \<and> byte_le as bs"

definition version_ge_12 :: "string option \<Rightarrow> bool" where
  "version_ge_12 version = (case version of Some v \<Rightarrow> byte_le ''1.2'' v | None \<Rightarrow> False)"

definition checksum_present_or_unneeded :: "property_bag \<Rightarrow> cipher \<Rightarrow> bool" where
  "checksum_present_or_unneeded bag c \<longleftrightarrow>
    c = AesGcmW3c \<or> bag_digest bag \<noteq> None \<and> bag_digest_alg bag \<noteq> None"

definition checksum_of :: "property_bag \<Rightarrow> checksum" where
  "checksum_of bag =
    (case (bag_digest_alg bag, bag_digest bag) of
       (Some AlgSha1_1K, Some d) \<Rightarrow> Sha1_1K d
     | (Some AlgSha256_1K, Some d) \<Rightarrow> Sha256_1K d
     | _ \<Rightarrow> NoChecksum)"

definition pgp_entry :: "property_bag \<Rightarrow> string \<Rightarrow> entry_encryption option" where
  "pgp_entry bag path =
    (if bag_kdf bag \<noteq> Some IdPgpRsaOaepMgf1p then None
     else case (bag_enc_alg bag, bag_size bag, bag_iv bag) of
       (Some c, Some sz, Some iv) \<Rightarrow>
         if \<not> checksum_present_or_unneeded bag c then None
         else Some \<lparr>ee_path = path, ee_cipher = c, ee_kdf = PgpRsaOaepMgf1p, ee_start_key = Sha256,
                    ee_checksum = checksum_of bag, ee_size = sz, ee_iv = iv,
                    ee_derived_key_len = default_derived_key_size c\<rparr>
     | _ \<Rightarrow> None)"

definition password_kdf :: "property_bag \<Rightarrow> bytes \<Rightarrow> kdf option" where
  "password_kdf bag salt =
    (case bag_kdf bag of
       Some IdPbkdf2 \<Rightarrow>
         Some (Pbkdf2 (case bag_iteration_count bag of Some n \<Rightarrow> n | None \<Rightarrow> 0) salt)
     | Some IdArgon2id \<Rightarrow> map_option (\<lambda>(t, m, p). Argon2id t m p salt) (bag_argon2_args bag)
     | _ \<Rightarrow> None)"

definition password_entry :: "property_bag \<Rightarrow> string \<Rightarrow> entry_encryption option" where
  "password_entry bag path =
    (case (bag_enc_alg bag, bag_size bag, bag_iv bag, bag_salt bag) of
       (Some c, Some sz, Some iv, Some salt) \<Rightarrow>
        (case password_kdf bag salt of
           None \<Rightarrow> None
         | Some k \<Rightarrow>
            if \<not> checksum_present_or_unneeded bag c then None
            else Some \<lparr>ee_path = path, ee_cipher = c, ee_kdf = k,
                       ee_start_key = (case bag_start_key_alg bag of Some a \<Rightarrow> a | None \<Rightarrow> Sha1),
                       ee_checksum = checksum_of bag, ee_size = sz, ee_iv = iv,
                       ee_derived_key_len =
                         (case bag_derived_key_size bag of Some n \<Rightarrow> n | None \<Rightarrow> 16)\<rparr>)
     | _ \<Rightarrow> None)"

definition accept_row :: "property_bag \<Rightarrow> bool \<Rightarrow> string \<Rightarrow> entry_encryption option" where
  "accept_row bag key_info path =
    (if key_info then
       (case pgp_entry bag path of Some row \<Rightarrow> Some row | None \<Rightarrow> password_entry bag path)
     else password_entry bag path)"

definition short_name :: "string \<Rightarrow> string" where
  "short_name path = (let s = last (split_slash path) in if s \<noteq> [] then s else path)"

section \<open>Stage B\<close>

text \<open>The mutable locals of \<^verbatim>\<open>stage_b\<close> and the tree it marks.\<close>

record stage_state =
  sb_tree :: folder_tree
  sb_key_info :: bool
  sb_pgp_keys :: "encrypted_key list"
  sb_first_version :: "string option"
  sb_package_encrypted :: bool
  sb_non_encrypted :: bool
  sb_common :: "entry_encryption option"
  sb_entries :: "entry_encryption list"
  sb_package_complete :: bool

definition stage_init :: "folder_tree \<Rightarrow> stage_state" where
  "stage_init t = \<lparr>sb_tree = t, sb_key_info = False, sb_pgp_keys = [], sb_first_version = None,
     sb_package_encrypted = False, sb_non_encrypted = False, sb_common = None, sb_entries = [],
     sb_package_complete = False\<rparr>"

text \<open>The head of the row loop: the first version and the key material.\<close>

definition note_bag :: "property_bag \<Rightarrow> stage_state \<Rightarrow> stage_state" where
  "note_bag bag st =
    (let st1 = (if sb_first_version st = None \<and> nonempty (bag_version bag)
                then st\<lparr>sb_first_version := bag_version bag\<rparr> else st)
     in case bag_key_info bag of
          None \<Rightarrow> st1
        | Some keys \<Rightarrow>
           st1\<lparr>sb_key_info := True,
               sb_pgp_keys := (if sb_pgp_keys st1 = [] then keys else sb_pgp_keys st1)\<rparr>)"

text \<open>A row that resolved to a stream: accepted as encrypted, or noted as plain.\<close>

definition latches :: "string \<Rightarrow> bool" where
  "latches path \<longleftrightarrow> short_name path = ''content.xml'' \<or> short_name path = encrypted_package"

definition stream_row :: "property_bag \<Rightarrow> string \<Rightarrow> stage_state \<Rightarrow> stage_state" where
  "stream_row bag tree_path st0 =
    (let st = st0\<lparr>sb_tree := mark_from_manifest (sb_tree st0) tree_path (bag_media_type bag)\<rparr> in
     case accept_row bag (sb_key_info st) tree_path of
       None \<Rightarrow> st\<lparr>sb_non_encrypted := True\<rparr>
     | Some entry \<Rightarrow>
        (let st1 = (if tree_path = encrypted_package then st\<lparr>sb_package_complete := True\<rparr> else st);
             st2 = (if \<not> sb_package_encrypted st1 \<and> latches (ee_path entry)
                    then st1\<lparr>sb_package_encrypted := True, sb_common := Some entry\<rparr> else st1)
         in st2\<lparr>sb_entries := sb_entries st2 @ [entry]\<rparr>))"

definition stage_row :: "property_bag \<Rightarrow> stage_state \<Rightarrow> detect_error + stage_state" where
  "stage_row bag st0 =
    (let st = note_bag bag st0 in
     if bag_full_path bag = [] then Ok st
     else case resolve (sb_tree st) (bag_full_path bag) of
       (_, Inl StreamAsFolder) \<Rightarrow> Err (Inconsistent ''stream used as folder in manifest path'')
     | (t, Inr None) \<Rightarrow> Ok (st\<lparr>sb_tree := t\<rparr>)
     | (t, Inr (Some r)) \<Rightarrow>
        (case res_kind r of
           KFolder \<Rightarrow>
             Ok (st\<lparr>sb_tree := set_folder_meta t (res_tree_path r) (bag_media_type bag) (bag_version bag)\<rparr>)
         | KStream \<Rightarrow> Ok (stream_row bag (res_tree_path r) (st\<lparr>sb_tree := t\<rparr>))))"

fun stage_rows :: "property_bag list \<Rightarrow> stage_state \<Rightarrow> detect_error + stage_state" where
  "stage_rows [] st = Ok st"
| "stage_rows (bag # bags) st = and_then (stage_row bag st) (stage_rows bags)"

text \<open>\<^verbatim>\<open>elide\<close>: the cut is the last character boundary at or below the ceiling.\<close>

definition is_boundary :: "string \<Rightarrow> nat \<Rightarrow> bool" where
  "is_boundary s i \<longleftrightarrow> \<not> is_cont (of_char (s ! i))"

definition elide :: "string \<Rightarrow> string" where
  "elide s =
    (if length s \<le> diagnostic_elision then s
     else
       (let starts = filter (is_boundary s) [0..<Suc diagnostic_elision];
            cut = (if starts = [] then 0 else last starts)
        in take cut s @ [CHR 0xE2, CHR 0x80, CHR 0xA6] @ '' [+'' @ dec_string (length s - cut)
             @ '' bytes elided]''))"

text \<open>The mimetype member against the manifest's media types, after the rows.\<close>

definition mimetype_conflict :: "string \<Rightarrow> string \<Rightarrow> detect_error" where
  "mimetype_conflict xml_mt mt =
    Inconsistent (''mimetype conflicts with manifest.xml, '' @ [CHR 34] @ elide xml_mt @ [CHR 34]
      @ '' vs. '' @ [CHR 34] @ elide mt @ [CHR 34])"

definition stage_mimetype ::
    "folder_tree \<Rightarrow> string option \<Rightarrow> bool \<Rightarrow> string option \<Rightarrow> detect_error + folder_tree" where
  "stage_mimetype tree first_version has_package mimetype =
    (let root = root_meta tree in
     case mimetype of
       None \<Rightarrow> Ok tree
     | Some mt \<Rightarrow>
        if \<not> nonempty (fm_media_type root) then
          (if take 16 mt = ''application/vnd.'' then
             Ok (set_folder_meta tree ''/'' (Some mt)
                  (if nonempty (fm_version root) then fm_version root else first_version))
           else Ok tree)
        else
          (let xml_mt = (case (if has_package then root_entry_media_type tree encrypted_package
                               else fm_media_type root) of Some s \<Rightarrow> s | None \<Rightarrow> [])
           in if xml_mt \<noteq> mt then Err (mimetype_conflict xml_mt mt) else Ok tree))"

definition stage_b ::
    "property_bag list \<Rightarrow> folder_tree \<Rightarrow> bool \<Rightarrow> string option \<Rightarrow> detect_error + classification" where
  "stage_b bags tree has_package mimetype =
    and_then (stage_rows bags (stage_init tree)) (\<lambda>st.
      let mode = (if has_package \<and> sb_package_complete st then Wholesome
                  else if sb_entries st \<noteq> [] then PerEntry else Plain)
      in and_then (stage_mimetype (sb_tree st) (sb_first_version st) has_package mimetype) (\<lambda>tree.
           let root = root_meta tree;
               unexpected = has_unexpected_odf12_streams tree has_package
           in Ok \<lparr>cl_mode = mode, cl_package_encrypted = sb_package_encrypted st,
                  cl_has_non_encrypted_entries = sb_non_encrypted st,
                  cl_odf_version = fm_version root, cl_zip_has_encrypted_package = has_package,
                  cl_media_type = fm_media_type root, cl_common = sb_common st,
                  cl_encrypted_entries = sb_entries st, cl_has_unexpected_streams = unexpected,
                  cl_odf12_fatal = (unexpected \<and> version_ge_12 (fm_version root)),
                  cl_pgp_keys = sb_pgp_keys st\<rparr>))"

section \<open>Classifying an archive\<close>

fun check_stored_data_descriptors ::
    "zip_member list \<Rightarrow> classification \<Rightarrow> detect_error + unit" where
  "check_stored_data_descriptors [] class = Ok ()"
| "check_stored_data_descriptors (m # ms) class =
    (let encrypted = map ee_path (cl_encrypted_entries class) in
     if zm_stored m \<and> zm_data_descriptor m \<and> zm_name m \<notin> set encrypted
        \<and> collapse_slashes (zm_name m) \<notin> set encrypted
     then Err (ZipErr ''entry STORED with data descriptor but not encrypted'')
     else check_stored_data_descriptors ms class)"

definition manifest_path :: string where "manifest_path = ''META-INF/manifest.xml''"

text \<open>\<^verbatim>\<open>classify_latched\<close>: \<^const>\<open>None\<close> is an archive the zip crate does not open.\<close>

definition classify_latched ::
    "(string \<Rightarrow> xml_event list) \<Rightarrow> archive option \<Rightarrow> detect_error + classification" where
  "classify_latched xml_events opened =
    (case opened of
       None \<Rightarrow> Err NotZip
     | Some archive \<Rightarrow>
        and_then (collect_members archive) (\<lambda>members.
        and_then (map_err (\<lambda>_. ZipErr ''Bad Zip File, stream as folder'')
                   (from_zip_names (map zm_name members))) (\<lambda>tree.
        let has_package = root_has_entry tree encrypted_package in
        and_then (read_named_member archive members manifest_path) (\<lambda>xml.
        case xml of
          None \<Rightarrow> Err MissingManifest
        | Some manifest_xml \<Rightarrow>
            (let bags = parse_manifest (xml_events manifest_xml) in
             and_then (read_mimetype archive members tree) (\<lambda>mimetype.
             and_then (stage_b bags tree has_package mimetype) (\<lambda>class.
             and_then (check_stored_data_descriptors members class) (\<lambda>_. Ok class))))))))"

text \<open>\<^verbatim>\<open>classify_reader\<close>: the reader's own latched failure wins over the zip layer's account of it.\<close>

definition classify_reader ::
    "string option \<Rightarrow> detect_error + classification \<Rightarrow> detect_error + classification" where
  "classify_reader latched result =
    (case latched of Some err \<Rightarrow> Err (DetectIo err) | None \<Rightarrow> result)"

section \<open>Member names: the specification\<close>

fun split_at :: "nat \<Rightarrow> nat list \<Rightarrow> nat list list" where
  "split_at d [] = [[]]"
| "split_at d (u # us) =
    (if u = d then [] # split_at d us
     else (case split_at d us of [] \<Rightarrow> [[u]] | s # ss \<Rightarrow> (u # s) # ss))"

definition name_char_ok :: "nat \<Rightarrow> bool" where
  "name_char_ok u \<longleftrightarrow> \<not> forbidden_char u \<and> 32 \<le> u \<and> \<not> (55296 \<le> u \<and> u \<le> 57343)"

definition segment_ok :: "nat list \<Rightarrow> bool" where
  "segment_ok seg \<longleftrightarrow> seg \<noteq> [46] \<and> seg \<noteq> [46, 46]"

definition valid_name_spec :: "nat list \<Rightarrow> bool" where
  "valid_name_spec us \<longleftrightarrow>
    (\<forall>u \<in> set us. name_char_ok u) \<and> (us = [] \<or> hd us \<noteq> 47)
    \<and> (\<forall>seg \<in> set (split_at 47 us). segment_ok seg)"

definition dots_of :: "nat list \<Rightarrow> int" where
  "dots_of pre = (if \<forall>u \<in> set pre. u = 46 then int (length pre) else -1)"

lemma split_at_ne [simp]: "split_at d us \<noteq> []"
  by (induction us) (auto split: list.splits)

lemma dots_of_segment:
  "dots_of pre = 1 \<or> dots_of pre = 2 \<longleftrightarrow> \<not> segment_ok pre"
proof -
  have "pre = [46]" if "\<forall>u \<in> set pre. u = 46" "length pre = 1"
    using that by (cases pre) auto
  moreover have "pre = [46, 46]" if "\<forall>u \<in> set pre. u = 46" "length pre = 2"
    using that by (cases pre; cases "tl pre") auto
  ultimately show ?thesis by (auto simp: dots_of_def segment_ok_def)
qed

lemma valid_name_loop_spec:
  "valid_name_loop us first (dots_of pre) \<longleftrightarrow>
    (\<forall>u \<in> set us. name_char_ok u) \<and> (first \<longrightarrow> us = [] \<or> hd us \<noteq> 47)
    \<and> segment_ok (pre @ hd (split_at 47 us)) \<and> (\<forall>seg \<in> set (tl (split_at 47 us)). segment_ok seg)"
proof (induction us arbitrary: first pre)
  case Nil
  show ?case using dots_of_segment [of pre] by auto
next
  case (Cons u us)
  obtain s ss where s: "split_at 47 us = s # ss" by (cases "split_at 47 us") auto
  consider "u = 46" | "u = 47" | "u \<noteq> 46" "u \<noteq> 47" by blast
  then show ?case
  proof cases
    case 1
    have "dots_of (pre @ [46]) = (if dots_of pre \<noteq> -1 then dots_of pre + 1 else dots_of pre)"
      by (auto simp: dots_of_def)
    with Cons.IH [of False "pre @ [46]"] 1 s show ?thesis
      by (simp add: name_char_ok_def forbidden_char_def)
  next
    case 2
    have "dots_of [] = 0" by (simp add: dots_of_def)
    with Cons.IH [of False "[]"] 2 s dots_of_segment [of pre] show ?thesis
      by (auto simp: name_char_ok_def forbidden_char_def)
  next
    case 3
    have "dots_of (pre @ [u]) = -1" using 3 by (auto simp: dots_of_def)
    with Cons.IH [of False "pre @ [u]"] 3 s show ?thesis
      by (auto simp: name_char_ok_def)
  qed
qed

lemma is_valid_name_spec:
  "is_valid_zip_entry_file_name name \<longleftrightarrow> valid_name_spec (utf8_chars name)"
proof -
  obtain s ss where "split_at 47 (utf8_chars name) = s # ss"
    by (cases "split_at 47 (utf8_chars name)") auto
  then show ?thesis
    using valid_name_loop_spec [of "utf8_chars name" True "[]"]
    by (simp add: is_valid_zip_entry_file_name_def valid_name_spec_def dots_of_def)
qed

section \<open>Collected members\<close>

text \<open>A collected member comes from the directory entry at its index, under a valid name.\<close>

definition member_from :: "archive \<Rightarrow> nat \<Rightarrow> zip_member \<Rightarrow> bool" where
  "member_from archive i m \<longleftrightarrow>
     is_valid_zip_entry_file_name (zm_name m) \<and> i \<le> zm_index m \<and> zm_index m < i + length archive
     \<and> (\<exists>e. archive ! (zm_index m - i) = Inr e \<and> \<not> dos_directory e
          \<and> zm_name m = zip_entry_name (ze_raw_name e))"

lemma member_from_Cons: "member_from rest (i + 1) m \<Longrightarrow> member_from (x # rest) i m"
proof -
  assume m: "member_from rest (i + 1) m"
  then have "zm_index m - i = Suc (zm_index m - (i + 1))" by (auto simp: member_from_def)
  then have "(x # rest) ! (zm_index m - i) = rest ! (zm_index m - (i + 1))" by simp
  with m show ?thesis by (auto simp: member_from_def)
qed

definition fresh_names :: "zip_member list \<Rightarrow> string list \<Rightarrow> string list \<Rightarrow> bool" where
  "fresh_names members seen seen_lower \<longleftrightarrow>
     distinct (map zm_name members) \<and> distinct (map (\<lambda>m. map ascii_lower (zm_name m)) members)
     \<and> (\<forall>m \<in> set members. zm_name m \<notin> set seen \<and> map ascii_lower (zm_name m) \<notin> set seen_lower)"

lemma collect_from_result:
  "collect_from i archive seen seen_lower = Inr members \<Longrightarrow>
     fresh_names members seen seen_lower \<and> (\<forall>m \<in> set members. member_from archive i m)"
proof (induction i archive seen seen_lower arbitrary: members rule: collect_from.induct)
  case (1 i seen seen_lower)
  then show ?case by (auto simp: fresh_names_def)
next
  case (3 i e rest seen seen_lower)
  show ?case
  proof (cases "dos_directory e")
    case True
    with 3(1) [OF True] 3(3) member_from_Cons show ?thesis by simp
  next
    case False
    let ?name = "zip_entry_name (ze_raw_name e)"
    from 3(3) False obtain ms where ms:
      "collect_from (i + 1) rest (?name # seen) (map ascii_lower ?name # seen_lower) = Inr ms"
      and members: "members = \<lparr>zm_name = ?name, zm_index = i, zm_stored = ze_stored e,
                   zm_data_descriptor = ze_data_descriptor e\<rparr> # ms"
      and ok: "is_valid_zip_entry_file_name ?name" "?name \<notin> set seen"
        "map ascii_lower ?name \<notin> set seen_lower"
      by (auto simp: Let_def split: if_splits)
    from 3(2) [OF False refl refl] ok ms
    have IH: "fresh_names ms (?name # seen) (map ascii_lower ?name # seen_lower)"
      "\<forall>m \<in> set ms. member_from rest (i + 1) m" by simp_all
    have "member_from (Inr e # rest) i m" if "m \<in> set members" for m
      using that IH(2) member_from_Cons ok(1) False by (auto simp: members member_from_def)
    moreover have "fresh_names members seen seen_lower"
      using IH(1) ok by (auto simp: members fresh_names_def)
    ultimately show ?thesis by blast
  qed
qed simp

section \<open>The rows: invariant\<close>

text \<open>What an accepted row promises about its own fields.\<close>

definition entry_ok :: "entry_encryption \<Rightarrow> bool" where
  "entry_ok e \<longleftrightarrow>
     (ee_cipher e \<noteq> AesGcmW3c \<longrightarrow> ee_checksum e \<noteq> NoChecksum)
   \<and> in_i64 (ee_size e) \<and> in_i32 (ee_derived_key_len e)
   \<and> (case ee_kdf e of
        Pbkdf2 n _ \<Rightarrow> in_i32 n
      | Argon2id t m p _ \<Rightarrow> 0 < t \<and> 0 < m \<and> 0 < p \<and> in_i32 t \<and> in_i32 m \<and> in_i32 p
      | PgpRsaOaepMgf1p \<Rightarrow> ee_start_key e = Sha256)"

lemma checksum_of_some:
  "bag_digest bag \<noteq> None \<Longrightarrow> bag_digest_alg bag \<noteq> None \<Longrightarrow> checksum_of bag \<noteq> NoChecksum"
  by (auto simp: checksum_of_def split: checksum_alg.splits)

lemma in_i32_default [simp]: "in_i32 (default_derived_key_size c)"
  by (cases c) simp_all

lemma pgp_entry_ok: "bag_wf bag \<Longrightarrow> pgp_entry bag path = Some e \<Longrightarrow> entry_ok e"
  using checksum_of_some [of bag]
  by (auto simp: pgp_entry_def bag_wf_def entry_ok_def checksum_present_or_unneeded_def
      split: if_splits option.splits)

lemma password_kdf_ok:
  assumes "bag_wf bag" "password_kdf bag salt = Some k"
  shows "case k of Pbkdf2 n _ \<Rightarrow> in_i32 n
    | Argon2id t m p _ \<Rightarrow> 0 < t \<and> 0 < m \<and> 0 < p \<and> in_i32 t \<and> in_i32 m \<and> in_i32 p
    | PgpRsaOaepMgf1p \<Rightarrow> False"
  using assms by (auto simp: password_kdf_def bag_wf_def split: option.splits kdf_id.splits)

lemma password_entry_ok: 
  assumes "bag_wf bag" "password_entry bag path = Some e" shows "entry_ok e"
proof -
  from assms(2) obtain c sz iv salt k where
    f: "bag_enc_alg bag = Some c" "bag_size bag = Some sz" "bag_iv bag = Some iv" "bag_salt bag = Some salt"
      "password_kdf bag salt = Some k" "checksum_present_or_unneeded bag c"
    and e: "ee_cipher e = c" "ee_size e = sz" "ee_kdf e = k" "ee_checksum e = checksum_of bag"
      "ee_derived_key_len e = (case bag_derived_key_size bag of Some n \<Rightarrow> n | None \<Rightarrow> 16)"
    by (auto simp: password_entry_def split: option.splits if_splits)
  from password_kdf_ok [OF assms(1) f(5)] f e assms(1) checksum_of_some [of bag]
  show ?thesis
    by (cases k) (auto simp: entry_ok_def bag_wf_def checksum_present_or_unneeded_def split: option.split)
qed

lemma accept_row_ok: "bag_wf bag \<Longrightarrow> accept_row bag ki path = Some e \<Longrightarrow> entry_ok e"
  by (auto simp: accept_row_def pgp_entry_ok password_entry_ok split: if_splits option.splits)

lemma accept_row_path: "accept_row bag ki path = Some e \<Longrightarrow> ee_path e = path"
  by (auto simp: accept_row_def pgp_entry_def password_entry_def split: if_splits option.splits)

lemma accept_row_pgp:
  "accept_row bag ki path = Some e \<Longrightarrow> ee_kdf e = PgpRsaOaepMgf1p \<Longrightarrow> ki"
  by (auto simp: accept_row_def password_entry_def password_kdf_def
      split: if_splits option.splits kdf_id.splits)

text \<open>A path that names a stream of the archive's tree.\<close>

definition names_stream :: "folder_tree \<Rightarrow> string \<Rightarrow> bool" where
  "names_stream t path \<longleftrightarrow>
    (\<exists>ps n. child_kind (ft_root t) ps n = Some KStream \<and> path = stream_tree_path ps n)"

definition latch_entry :: "entry_encryption list \<Rightarrow> entry_encryption option" where
  "latch_entry es = find (\<lambda>e. latches (ee_path e)) es"

definition stage_inv :: "string list \<Rightarrow> folder_tree \<Rightarrow> stage_state \<Rightarrow> bool" where
  "stage_inv names t0 st \<longleftrightarrow>
     tree_reachable names (sb_tree st) \<and> same_skeleton (sb_tree st) t0
   \<and> sb_common st = latch_entry (sb_entries st)
   \<and> (sb_package_encrypted st \<longleftrightarrow> sb_common st \<noteq> None)
   \<and> (sb_package_complete st \<longleftrightarrow> encrypted_package \<in> ee_path ` set (sb_entries st))
   \<and> (\<forall>e \<in> set (sb_entries st). entry_ok e \<and> names_stream t0 (ee_path e)
        \<and> (ee_kdf e = PgpRsaOaepMgf1p \<longrightarrow> sb_key_info st))
   \<and> (sb_pgp_keys st \<noteq> [] \<longrightarrow> sb_key_info st)"

lemma find_append:
  "find P (xs @ ys) = (case find P xs of Some x \<Rightarrow> Some x | None \<Rightarrow> find P ys)"
  by (induction xs) auto

lemma latch_entry_snoc:
  "latch_entry (es @ [e]) =
    (case latch_entry es of Some x \<Rightarrow> Some x | None \<Rightarrow> if latches (ee_path e) then Some e else None)"
  by (simp add: latch_entry_def find_append split: option.split)

lemma note_bag_simps [simp]:
  "sb_tree (note_bag bag st) = sb_tree st"
  "sb_entries (note_bag bag st) = sb_entries st"
  "sb_common (note_bag bag st) = sb_common st"
  "sb_package_encrypted (note_bag bag st) = sb_package_encrypted st"
  "sb_package_complete (note_bag bag st) = sb_package_complete st"
  "sb_key_info st \<Longrightarrow> sb_key_info (note_bag bag st)"
  by (simp_all add: note_bag_def Let_def split: option.split)

lemma stage_inv_note: "stage_inv names t0 st \<Longrightarrow> stage_inv names t0 (note_bag bag st)"
  by (auto simp: stage_inv_def) (auto simp: note_bag_def Let_def split: option.splits if_splits)

lemma same_skeleton_trans: "same_skeleton t u \<Longrightarrow> same_skeleton u v \<Longrightarrow> same_skeleton t v"
  by (simp add: same_skeleton_def)

lemma same_skeleton_names_stream:
  "same_skeleton t u \<Longrightarrow> names_stream t path \<longleftrightarrow> names_stream u path"
  by (simp add: same_skeleton_def names_stream_def)

lemma stage_inv_tree:
  "stage_inv names t0 st \<Longrightarrow> tree_reachable names t \<Longrightarrow> same_skeleton t (sb_tree st) \<Longrightarrow>
    stage_inv names t0 (st\<lparr>sb_tree := t\<rparr>)"
  using same_skeleton_trans by (auto simp: stage_inv_def)

lemma stage_inv_stream_row:
  assumes inv: "stage_inv names t0 st" and bag: "bag_wf bag" and path: "names_stream (sb_tree st) path"
  shows "stage_inv names t0 (stream_row bag path st)"
proof -
  define st1 where "st1 = st\<lparr>sb_tree := mark_from_manifest (sb_tree st) path (bag_media_type bag)\<rparr>"
  have inv1: "stage_inv names t0 st1"
    unfolding st1_def using inv
    by (intro stage_inv_tree tree_reachable.marked mark_skeleton) (auto simp: stage_inv_def)
  show ?thesis
  proof (cases "accept_row bag (sb_key_info st1) path")
    case None
    with inv1 show ?thesis
      by (auto simp: stream_row_def Let_def stage_inv_def simp flip: st1_def)
  next
    case (Some e)
    have e: "ee_path e = path" "entry_ok e" "ee_kdf e = PgpRsaOaepMgf1p \<longrightarrow> sb_key_info st1"
      using accept_row_path [OF Some] accept_row_ok [OF bag Some] accept_row_pgp [OF Some] by auto
    have "names_stream t0 path"
      using inv path same_skeleton_names_stream by (auto simp: stage_inv_def)
    with inv1 e Some show ?thesis
      by (auto simp: stream_row_def Let_def stage_inv_def latch_entry_snoc image_iff
          simp flip: st1_def split: option.splits)
  qed
qed

lemma resolve_skeleton:
  assumes "tree_reachable names t"
  shows "same_skeleton (fst (resolve t path)) t"
  using resolve_sound [of t path] tree_reachable_inv [OF assms]
  by (simp add: sound_def same_skeleton_def)

lemma resolve_names_stream:
  assumes "tree_reachable names t" "resolve t path = (t', Inr (Some r))" "res_kind r = KStream"
  shows "names_stream t' (res_tree_path r)"
  using resolve_sound [of t path] tree_reachable_inv [OF assms(1)] assms(2,3)
  by (auto simp: sound_def names_node_def names_stream_def)

lemma stage_row_inv:
  assumes "stage_row bag st = Inr st'" "stage_inv names t0 st" "bag_wf bag"
  shows "stage_inv names t0 st'"
proof -
  define s where "s = note_bag bag st"
  have s: "stage_inv names t0 s" unfolding s_def using assms(2) by (rule stage_inv_note)
  then have reach: "tree_reachable names (sb_tree s)" by (simp add: stage_inv_def)
  obtain t res where r: "resolve (sb_tree s) (bag_full_path bag) = (t, res)"
    by (cases "resolve (sb_tree s) (bag_full_path bag)")
  have t: "tree_reachable names t" "same_skeleton t (sb_tree s)"
    using tree_reachable.resolved [OF reach] resolve_skeleton [OF reach] r by (metis fst_conv)+
  have st: "stage_inv names t0 (s\<lparr>sb_tree := t\<rparr>)" using s t by (rule stage_inv_tree)
  show ?thesis
  proof (cases res)
    case (Inl e)
    with assms(1) s r show ?thesis
      by (cases e) (auto simp: stage_row_def Let_def simp flip: s_def split: if_splits)
  next
    case (Inr ro)
    show ?thesis
    proof (cases ro)
      case None
      with assms(1) s st r Inr show ?thesis
        by (auto simp: stage_row_def Let_def simp flip: s_def split: if_splits)
    next
      case (Some rr)
      have folder: "stage_inv names t0 (s\<lparr>sb_tree := set_folder_meta t p m v\<rparr>)" for p m v
        using s t by (intro stage_inv_tree tree_reachable.meta)
          (auto intro: same_skeleton_trans set_folder_meta_skeleton)
      have stream: "stage_inv names t0 (stream_row bag (res_tree_path rr) (s\<lparr>sb_tree := t\<rparr>))"
        if "res_kind rr = KStream"
        using resolve_names_stream [OF reach] r Inr Some that
        by (intro stage_inv_stream_row [OF st assms(3)]) auto
      from assms(1) s r Inr Some folder stream show ?thesis
        by (auto simp: stage_row_def Let_def simp flip: s_def split: if_splits resolved_kind.splits)
    qed
  qed
qed

lemma stage_rows_inv:
  "stage_rows bags st = Inr st' \<Longrightarrow> stage_inv names t0 st \<Longrightarrow> \<forall>b \<in> set bags. bag_wf b \<Longrightarrow>
    stage_inv names t0 st'"
  by (induction bags arbitrary: st) (auto dest: stage_row_inv)

section \<open>What a classification promises\<close>

definition classification_ok :: "folder_tree \<Rightarrow> classification \<Rightarrow> bool" where
  "classification_ok t c \<longleftrightarrow>
     (cl_mode c = Wholesome \<longleftrightarrow>
        root_has_entry t encrypted_package \<and> encrypted_package \<in> ee_path ` set (cl_encrypted_entries c))
   \<and> (cl_mode c = Plain \<longleftrightarrow> cl_encrypted_entries c = [])
   \<and> cl_common c = latch_entry (cl_encrypted_entries c)
   \<and> (cl_package_encrypted c \<longleftrightarrow> cl_common c \<noteq> None)
   \<and> (\<forall>e \<in> set (cl_encrypted_entries c). entry_ok e \<and> names_stream t (ee_path e))"

lemma stage_b_ok:
  assumes "stage_b bags t (root_has_entry t encrypted_package) mt = Inr c"
    and "from_zip_names names = Inr t" "\<forall>b \<in> set bags. bag_wf b"
  shows "classification_ok t c"
proof -
  from assms(1) obtain st tree where st: "stage_rows bags (stage_init t) = Inr st"
    and c: "cl_mode c = (if root_has_entry t encrypted_package \<and> sb_package_complete st then Wholesome
              else if sb_entries st \<noteq> [] then PerEntry else Plain)"
      "cl_common c = sb_common st" "cl_encrypted_entries c = sb_entries st"
      "cl_package_encrypted c = sb_package_encrypted st"
    by (auto simp: stage_b_def Let_def)
  have "stage_inv names t (stage_init t)"
    using tree_reachable.built [OF assms(2)]
    by (simp add: stage_inv_def stage_init_def same_skeleton_def latch_entry_def)
  from stage_rows_inv [OF st this assms(3)] have "stage_inv names t st" .
  with c show ?thesis by (auto simp: classification_ok_def stage_inv_def)
qed

lemma classification_ok_wholesome_row:
  "classification_ok t c \<Longrightarrow> cl_mode c = Wholesome \<Longrightarrow>
    \<exists>e. wholesome_row c = Some e \<and> ee_path e = encrypted_package \<and> entry_ok e"
  using wholesome_row_None_iff [of c] wholesome_row_SomeD [of c]
  by (cases "wholesome_row c") (auto simp: classification_ok_def)

lemma classify_steps:
  assumes "classify_latched xml_events opened = Inr c"
  shows "\<exists>archive members t. opened = Some archive \<and> collect_members archive = Inr members
    \<and> from_zip_names (map zm_name members) = Inr t \<and> classification_ok t c
    \<and> check_stored_data_descriptors members c = Inr ()
    \<and> read_named_member archive members manifest_path \<noteq> Inr None"
proof -
  from assms obtain archive members t xml mt where
    o: "opened = Some archive" "collect_members archive = Inr members"
      "from_zip_names (map zm_name members) = Inr t"
      "read_named_member archive members manifest_path = Inr (Some xml)"
      "stage_b (parse_manifest (xml_events xml)) t (root_has_entry t encrypted_package) mt = Inr c"
      "check_stored_data_descriptors members c = Inr ()"
    by (auto simp: classify_latched_def Let_def split: option.splits)
  have "\<forall>b \<in> set (parse_manifest (xml_events xml)). bag_wf b"
    using parse_manifest_bags [OF refl] by blast
  from stage_b_ok [OF o(5,3) this] o show ?thesis by auto
qed

lemma stored_descriptors_checked:
  "check_stored_data_descriptors members c = Inr () \<longleftrightarrow>
    (\<forall>m \<in> set members. zm_stored m \<and> zm_data_descriptor m \<longrightarrow>
      zm_name m \<in> ee_path ` set (cl_encrypted_entries c)
      \<or> collapse_slashes (zm_name m) \<in> ee_path ` set (cl_encrypted_entries c))"
  by (induction members) (auto simp: Let_def)

section \<open>Properties\<close>

definition sample_entry :: "string \<Rightarrow> string \<Rightarrow> zip_entry" where
  "sample_entry name data = \<lparr>ze_raw_name = name, ze_uncompressed_size = length data, ze_system = 3,
     ze_external_attributes = 0, ze_stored = True, ze_data_descriptor = False, ze_data = data,
     ze_fault = None, ze_first_read = Inr (length data)\<rparr>"

definition sample_archive :: archive where
  "sample_archive = [Inr (sample_entry ''META-INF/manifest.xml'' ''x'')]"

definition ascii :: "string \<Rightarrow> bool" where
  "ascii s \<longleftrightarrow> (\<forall>c \<in> set s. (of_char c :: nat) < 128)"

lemma ascii_names:
  "ascii s \<Longrightarrow> from_utf8_lossy s = s" "ascii s \<Longrightarrow> utf8_chars s = map of_char s"
  "ascii s \<Longrightarrow> utf8_valid s"
  by (simp_all add: ascii_def utf8_chars_ascii_list from_utf8_lossy_valid utf8_ascii_valid)

lemma ascii_evaluate: "ascii [] = True" "ascii (c # cs) = ((of_char c :: nat) < 128 \<and> ascii cs)"
  by (simp_all add: ascii_def)

definition sample_member :: zip_member where
  "sample_member = \<lparr>zm_name = manifest_path, zm_index = 0, zm_stored = True, zm_data_descriptor = False\<rparr>"

lemma sample_members: "collect_members sample_archive = Inr [sample_member]"
  by (simp add: collect_members_def sample_archive_def sample_entry_def dos_directory_def
      zip_entry_name_def ascii_names ascii_evaluate is_valid_zip_entry_file_name_def
      forbidden_char_def sample_member_def manifest_path_def)

definition manifest_only_tree :: folder_tree where
  "manifest_only_tree = \<lparr>ft_root = FolderNode default_meta
     [(''META-INF'', Folder (FolderNode default_meta [(''manifest.xml'', Stream False None)]))],
     ft_recent = [(''META-INF'', [''META-INF''])]\<rparr>"

lemma sample_built: "from_zip_names [manifest_path] = Inr manifest_only_tree"
  by code_simp

lemma sample_classified:
  "\<exists>c. classify_latched (\<lambda>_. []) (Some sample_archive) = Inr c"
proof -
  have "read_named_member sample_archive [sample_member] manifest_path = Inr (Some ''x'')"
    by (simp add: read_named_member_def sample_member_def member_matches_path_def by_index_def
        sample_archive_def sample_entry_def read_taken_def manifest_read_cap_def)
  moreover have "read_mimetype sample_archive [sample_member] manifest_only_tree = Inr None"
    by (simp add: read_mimetype_def root_has_entry_def manifest_only_tree_def child_def)
  ultimately show ?thesis using sample_members sample_built
    by (simp add: classify_latched_def sample_member_def parse_manifest_def import_new_def
        stage_b_def stage_mimetype_def Let_def)
qed

text \<open>
  C1. A classification is consistent with itself: it is wholesome exactly when the row decryption acts on
  exists, plain exactly when no row was accepted, its common row is the first accepted row whose
  short name latches and the encrypted flag says whether there is one, and every accepted row has
  what its algorithms need (a checksum unless it is AES-GCM, positive Argon2 costs, fields in range).
\<close>

theorem classification_consistent:
  assumes "classify_latched xml_events (Some archive) = Inr c"
  shows "(cl_mode c = Wholesome \<longleftrightarrow> wholesome_row c \<noteq> None)
    \<and> (cl_mode c = Plain \<longleftrightarrow> cl_encrypted_entries c = [])
    \<and> cl_common c = find (\<lambda>e. latches (ee_path e)) (cl_encrypted_entries c)
    \<and> (cl_package_encrypted c \<longleftrightarrow> cl_common c \<noteq> None)
    \<and> (\<forall>e \<in> set (cl_encrypted_entries c). entry_ok e)"
proof -
  from classify_steps [OF assms] obtain t where t: "classification_ok t c" by blast
  moreover from t have "cl_mode c = Wholesome \<longleftrightarrow> wholesome_row c \<noteq> None"
    using classification_ok_wholesome_row [OF t] wholesome_row_None_iff [of c] by auto
  ultimately show ?thesis unfolding classification_ok_def latch_entry_def by blast
qed

theorem classification_consistent_witness:
  "\<exists>c. classify_latched (\<lambda>_. []) (Some sample_archive) = Inr c
    \<and> (cl_mode c = Plain \<longleftrightarrow> cl_encrypted_entries c = [])"
  using sample_classified classification_consistent [of "\<lambda>_. []" sample_archive] by blast

text \<open>
  C9. The members a package is judged by have pairwise distinct names, also when case is ignored, and each
  is the decoded name of the directory entry at its index, accepted by the name check.
\<close>

theorem members_distinct:
  assumes "collect_members archive = Inr members"
  shows "distinct (map zm_name members)
    \<and> distinct (map (\<lambda>m. map ascii_lower (zm_name m)) members)
    \<and> (\<forall>m \<in> set members. is_valid_zip_entry_file_name (zm_name m)
         \<and> (\<exists>e. archive ! zm_index m = Inr e \<and> zm_name m = zip_entry_name (ze_raw_name e)))"
  using collect_from_result [OF assms [unfolded collect_members_def]]
  by (auto simp: fresh_names_def member_from_def)

text \<open>Two files with a directory between them, whose entry is passed over.\<close>

definition sample_pair :: archive where
  "sample_pair = [Inr (sample_entry ''mimetype'' []),
     Inr ((sample_entry ''Pictures/'' [])\<lparr>ze_system := 0, ze_external_attributes := 0x10\<rparr>),
     Inr (sample_entry ''Pictures/a.png'' ''x'')]"

definition sample_pair_members :: "zip_member list" where
  "sample_pair_members =
     [\<lparr>zm_name = ''mimetype'', zm_index = 0, zm_stored = True, zm_data_descriptor = False\<rparr>,
      \<lparr>zm_name = ''Pictures/a.png'', zm_index = 2, zm_stored = True, zm_data_descriptor = False\<rparr>]"

lemma sample_pair_collected: "collect_members sample_pair = Inr sample_pair_members"
  by (simp add: collect_members_def sample_pair_def sample_entry_def dos_directory_def
      zip_entry_name_def ascii_names ascii_evaluate is_valid_zip_entry_file_name_def
      forbidden_char_def sample_pair_members_def ascii_lower_def)

theorem members_distinct_witness:
  "\<exists>members. collect_members sample_pair = Inr members
    \<and> map zm_name members = [''mimetype'', ''Pictures/a.png'']
    \<and> distinct (map (\<lambda>m. map ascii_lower (zm_name m)) members)
    \<and> list_all (\<lambda>m. is_valid_zip_entry_file_name (zm_name m)) members"
proof -
  have "map zm_name sample_pair_members = [''mimetype'', ''Pictures/a.png'']"
    by (simp add: sample_pair_members_def)
  then show ?thesis using sample_pair_collected members_distinct [OF sample_pair_collected]
    by (intro exI [of _ sample_pair_members] conjI) (simp_all add: list_all_iff)
qed

text \<open>
  The one-pass name check is the per-segment rule it stands for: no forbidden or control character,
  no leading slash, and no segment that is a single or double dot.
\<close>

theorem name_check_is_segment_rule:
  "is_valid_zip_entry_file_name name \<longleftrightarrow>
     (\<forall>u \<in> set (utf8_chars name). name_char_ok u)
     \<and> (utf8_chars name = [] \<or> hd (utf8_chars name) \<noteq> 47)
     \<and> (\<forall>seg \<in> set (split_at 47 (utf8_chars name)). seg \<noteq> [46] \<and> seg \<noteq> [46, 46])"
  using is_valid_name_spec [of name] by (simp add: valid_name_spec_def segment_ok_def)

theorem name_check_witness:
  "is_valid_zip_entry_file_name ''a/b'' \<longleftrightarrow>
     (\<forall>seg \<in> set (split_at 47 (utf8_chars ''a/b'')). seg \<noteq> [46] \<and> seg \<noteq> [46, 46])"
  using name_check_is_segment_rule [of "''a/b''"]
  by (simp add: name_char_ok_def forbidden_char_def)

end
