(* ===== verification/Ms1252.thy ===== *)
theory Ms1252
  imports Odf_Prelude
begin

text \<open>
  The Windows-1252 encoder of \<^verbatim>\<open>src/ms1252.rs\<close>, which a legacy start key hashes.  The two tables are the
  source's, in its order; the standard library's binary search is written out, and the lemmas show
  that on these sorted tables it is a plain lookup, so every row is reachable.
\<close>

section \<open>Tables\<close>

definition to_char_ex :: "(nat \<times> byte) list" where
  "to_char_ex =
    [(0x0152, 0x8C), (0x0153, 0x9C), (0x0160, 0x8A), (0x0161, 0x9A), (0x0178, 0x9F),
    (0x017D, 0x8E), (0x017E, 0x9E), (0x0192, 0x83), (0x02C6, 0x88), (0x02DC, 0x98),
    (0x2013, 0x96), (0x2014, 0x97), (0x2018, 0x91), (0x2019, 0x92), (0x201A, 0x82),
    (0x201C, 0x93), (0x201D, 0x94), (0x201E, 0x84), (0x2020, 0x86), (0x2021, 0x87),
    (0x2022, 0x95), (0x2026, 0x85), (0x2030, 0x89), (0x2039, 0x8B), (0x203A, 0x9B),
    (0x20AC, 0x80), (0x2122, 0x99)]"

definition replace_table :: "(nat \<times> byte) list" where
  "replace_table =
    [(0x2000, 0x20), (0x2001, 0x20), (0x2002, 0x20), (0x2003, 0x20), (0x2004, 0x20),
    (0x2005, 0x20), (0x2006, 0x20), (0x2007, 0x20), (0x2008, 0x20), (0x2009, 0x20),
    (0x200A, 0x20), (0x2010, 0x2D), (0x2011, 0x2D), (0x2012, 0x2D), (0x2015, 0x2D),
    (0x201B, 0x27), (0x201F, 0x22), (0x2023, 0x2D), (0x2024, 0x2D), (0x2027, 0x2D),
    (0x2028, 0x0A), (0x2029, 0x0D), (0x2032, 0x27), (0x2033, 0x22), (0x2035, 0x27),
    (0x2036, 0x22), (0x2043, 0x2D), (0x2044, 0x2F), (0x2160, 0x49), (0x2164, 0x56),
    (0x2169, 0x58), (0x216C, 0x4C), (0x216D, 0x43), (0x216E, 0x44), (0x216F, 0x4D),
    (0x2170, 0x69), (0x2174, 0x76), (0x2179, 0x78), (0x217C, 0x6C), (0x217D, 0x63),
    (0x217E, 0x64), (0x217F, 0x6D), (0x2215, 0x2F), (0x2217, 0x2A), (0xFF00, 0x20),
    (0xFF01, 0x21), (0xFF02, 0x22), (0xFF03, 0x23), (0xFF04, 0x24), (0xFF05, 0x25),
    (0xFF06, 0x26), (0xFF07, 0x27), (0xFF08, 0x28), (0xFF09, 0x29), (0xFF0A, 0x2A),
    (0xFF0B, 0x2B), (0xFF0C, 0x2C), (0xFF0D, 0x2D), (0xFF0E, 0x2E), (0xFF0F, 0x2F),
    (0xFF10, 0x30), (0xFF11, 0x31), (0xFF12, 0x32), (0xFF13, 0x33), (0xFF14, 0x34),
    (0xFF15, 0x35), (0xFF16, 0x36), (0xFF17, 0x37), (0xFF18, 0x38), (0xFF19, 0x39),
    (0xFF1A, 0x3A), (0xFF1B, 0x3B), (0xFF1C, 0x3C), (0xFF1D, 0x3D), (0xFF1E, 0x3E),
    (0xFF1F, 0x3F), (0xFF20, 0x40), (0xFF21, 0x41), (0xFF22, 0x42), (0xFF23, 0x43),
    (0xFF24, 0x44), (0xFF25, 0x45), (0xFF26, 0x46), (0xFF27, 0x47), (0xFF28, 0x48),
    (0xFF29, 0x49), (0xFF2A, 0x4A), (0xFF2B, 0x4B), (0xFF2C, 0x4C), (0xFF2D, 0x4D),
    (0xFF2E, 0x4E), (0xFF2F, 0x4F), (0xFF30, 0x50), (0xFF31, 0x51), (0xFF32, 0x52),
    (0xFF33, 0x53), (0xFF34, 0x54), (0xFF35, 0x55), (0xFF36, 0x56), (0xFF37, 0x57),
    (0xFF38, 0x58), (0xFF39, 0x59), (0xFF3A, 0x5A), (0xFF3B, 0x5B), (0xFF3C, 0x5C),
    (0xFF3D, 0x5D), (0xFF3E, 0x5E), (0xFF3F, 0x5F), (0xFF40, 0x60), (0xFF41, 0x61),
    (0xFF42, 0x62), (0xFF43, 0x63), (0xFF44, 0x64), (0xFF45, 0x65), (0xFF46, 0x66),
    (0xFF47, 0x67), (0xFF48, 0x68), (0xFF49, 0x69), (0xFF4A, 0x6A), (0xFF4B, 0x6B),
    (0xFF4C, 0x6C), (0xFF4D, 0x6D), (0xFF4E, 0x6E), (0xFF4F, 0x6F), (0xFF50, 0x70),
    (0xFF51, 0x71), (0xFF52, 0x72), (0xFF53, 0x73), (0xFF54, 0x74), (0xFF55, 0x75),
    (0xFF56, 0x76), (0xFF57, 0x77), (0xFF58, 0x78), (0xFF59, 0x79), (0xFF5A, 0x7A),
    (0xFF5B, 0x7B), (0xFF5C, 0x7C), (0xFF5D, 0x7D), (0xFF5E, 0x7E), (0xFF5F, 0x7F),
    (0xFFE0, 0xA2), (0xFFE1, 0xA3), (0xFFE2, 0xAC), (0xFFE3, 0xAF), (0xFFE4, 0xA6),
    (0xFFE5, 0xA5), (0xFFFD, 0x3F)]"

section \<open>Lookup\<close>

text \<open>\<^verbatim>\<open>binary_search_by_key\<close>: the index of an element with the key, searched by halving.\<close>

function binary_search :: "(nat \<times> byte) list \<Rightarrow> nat \<Rightarrow> nat \<Rightarrow> nat \<Rightarrow> nat option" where
  "binary_search table c lo hi =
    (if lo < hi then
       (let mid = lo + (hi - lo) div 2; k = fst (table ! mid) in
        if k = c then Some mid
        else if k < c then binary_search table c (mid + 1) hi
        else binary_search table c lo mid)
     else None)"
  by pat_completeness auto
termination
  by (relation "measure (\<lambda>(_, _, lo, hi). hi - lo)") (auto simp: Let_def)

declare binary_search.simps [simp del]

definition table_lookup :: "(nat \<times> byte) list \<Rightarrow> nat \<Rightarrow> byte option" where
  "table_lookup table c =
    (case binary_search table c 0 (length table) of
       Some i \<Rightarrow> if i < length table then Some (snd (table ! i)) else None
     | None \<Rightarrow> None)"

definition direct :: "nat \<Rightarrow> byte option" where
  "direct c =
    (if c \<le> 0x7F \<or> 0xA0 \<le> c \<and> c \<le> 0xFF then Some (of_nat c) else table_lookup to_char_ex c)"

definition question_mark :: byte where "question_mark = 0x3F"

definition byte_for :: "nat \<Rightarrow> byte" where
  "byte_for c =
    (if c > 0xFFFF then question_mark
     else case direct c of
       Some b \<Rightarrow> b
     | None \<Rightarrow>
        (case table_lookup replace_table c of
           Some b \<Rightarrow> b
         | None \<Rightarrow> if 0xF100 \<le> c \<and> c \<le> 0xF1FF then of_nat (c - 0xF100) else question_mark))"

definition encode_ms1252 :: "string \<Rightarrow> bytes" where
  "encode_ms1252 password = map byte_for (utf8_chars password)"

section \<open>The search is a lookup\<close>

fun ascending :: "nat list \<Rightarrow> bool" where
  "ascending [] \<longleftrightarrow> True"
| "ascending [x] \<longleftrightarrow> True"
| "ascending (x # y # zs) \<longleftrightarrow> x < y \<and> ascending (y # zs)"

lemma ascending_sorted: "ascending xs \<Longrightarrow> sorted_wrt (<) xs"
  by (induction xs rule: ascending.induct) (auto intro: less_trans)

lemma binary_search_sound:
  "binary_search table c lo hi = Some i \<Longrightarrow> lo \<le> i \<and> i < hi \<and> fst (table ! i) = c"
proof (induction table c lo hi rule: binary_search.induct)
  case (1 table c lo hi)
  show ?case
  proof (cases "lo < hi")
    case True
    define mid where "mid = lo + (hi - lo) div 2"
    have m: "lo \<le> mid" "mid < hi" using True by (auto simp: mid_def)
    consider "fst (table ! mid) = c" | "fst (table ! mid) < c" | "c < fst (table ! mid)" by linarith
    then show ?thesis
    proof cases
      case 1
      with 1(1) \<open>lo < hi\<close> m "1.prems" show ?thesis
        by (simp add: binary_search.simps [of table c lo] Let_def flip: mid_def)
    next
      case 2
      then have "binary_search table c (mid + 1) hi = Some i"
        using "1.prems" True by (simp add: binary_search.simps [of table c lo] Let_def flip: mid_def)
      with 1(1) [OF True mid_def refl] 2 m show ?thesis by auto
    next
      case 3
      then have "binary_search table c lo mid = Some i"
        using "1.prems" True by (simp add: binary_search.simps [of table c lo] Let_def flip: mid_def)
      with 1(2) [OF True mid_def refl] 3 m show ?thesis by auto
    qed
  next
    case False
    with "1.prems" show ?thesis by (simp add: binary_search.simps [of table c lo])
  qed
qed

lemma binary_search_complete:
  assumes "sorted_wrt (<) (map fst table)" "hi \<le> length table" "lo \<le> i" "i < hi"
    "fst (table ! i) = c"
  shows "binary_search table c lo hi \<noteq> None"
  using assms
proof (induction table c lo hi rule: binary_search.induct)
  case (1 table c lo hi)
  define mid where "mid = lo + (hi - lo) div 2"
  from 1 have True: "lo < hi" by linarith
  then have m: "lo \<le> mid" "mid < hi" by (auto simp: mid_def)
  have mono: "fst (table ! j) < fst (table ! k)" if "j < k" "k < length table" for j k
    using sorted_wrt_nth_less [OF 1(3), of j k] that by simp
  consider "fst (table ! mid) = c" | "fst (table ! mid) < c" | "c < fst (table ! mid)" by linarith
  then show ?case
  proof cases
    case 1
    with True show ?thesis
      by (simp add: binary_search.simps [of table c lo] Let_def flip: mid_def)
  next
    case 2
    have "mid < i"
    proof (rule ccontr)
      assume "\<not> mid < i"
      with 2 mono [of i mid] "1.prems" m show False by (cases "i = mid") auto
    qed
    with 1(1) [OF True mid_def refl] 2 "1.prems" True show ?thesis
      by (simp add: binary_search.simps [of table c lo] Let_def flip: mid_def)
  next
    case 3
    have "i < mid"
    proof (rule ccontr)
      assume "\<not> i < mid"
      with 3 mono [of mid i] "1.prems" m show False by (cases "i = mid") auto
    qed
    with 1(2) [OF True mid_def refl] 3 "1.prems" m True show ?thesis
      by (simp add: binary_search.simps [of table c lo] Let_def flip: mid_def)
  qed
qed

lemma table_lookup_map_of:
  assumes "sorted_wrt (<) (map fst table)"
  shows "table_lookup table c = map_of table c"
proof -
  have d: "distinct (map fst table)" using assms by (simp add: strict_sorted_iff)
  show ?thesis
  proof (cases "binary_search table c 0 (length table)")
    case None
    have "c \<notin> fst ` set table"
    proof
      assume "c \<in> fst ` set table"
      then obtain i where "i < length table" "fst (table ! i) = c" by (auto simp: in_set_conv_nth)
      with binary_search_complete [OF assms, of "length table" 0 i c] None show False by simp
    qed
    then have "map_of table c = None" by (simp only: map_of_eq_None_iff) simp
    with None show ?thesis by (simp add: table_lookup_def)
  next
    case (Some i)
    from binary_search_sound [OF Some] have i: "i < length table" "fst (table ! i) = c" by auto
    then have "map_of table c = Some (snd (table ! i))"
      using d by (metis map_of_is_SomeI nth_mem prod.collapse)
    with Some i show ?thesis by (simp add: table_lookup_def)
  qed
qed

lemma tables_ascending: "ascending (map fst to_char_ex)" "ascending (map fst replace_table)"
  by (simp_all add: to_char_ex_def replace_table_def)

lemma table_lookups:
  "table_lookup to_char_ex c = map_of to_char_ex c"
  "table_lookup replace_table c = map_of replace_table c"
  by (simp_all add: table_lookup_map_of ascending_sorted tables_ascending)

section \<open>Properties\<close>

text \<open>
  The encoder is the table it was written from: the binary searches find every row of the sorted
  tables, so a code point goes to its direct byte, else its replacement, else itself from the
  private range, else a question mark; the result has one byte per character.
\<close>

theorem ms1252_is_the_table:
  "encode_ms1252 s = map (\<lambda>c.
     if c > 0xFFFF then 0x3F
     else if c \<le> 0x7F \<or> 0xA0 \<le> c \<and> c \<le> 0xFF then of_nat c
     else case map_of (to_char_ex @ replace_table) c of
            Some b \<Rightarrow> b
          | None \<Rightarrow> if 0xF100 \<le> c \<and> c \<le> 0xF1FF then of_nat (c - 0xF100) else 0x3F) (utf8_chars s)
   \<and> length (encode_ms1252 s) = length (utf8_chars s)"
  unfolding encode_ms1252_def
  by (auto simp: byte_for_def direct_def table_lookups question_mark_def map_add_def split: option.split)

end
