(* ===== verification/Kdf.thy ===== *)
theory Kdf
  imports Odf_Limits Ms1252
begin

text \<open>
  Key derivation, \<^verbatim>\<open>src/kdf.rs\<close>.  The hash functions (\<^verbatim>\<open>sha1\<close>, \<^verbatim>\<open>sha2\<close>), the SHA-1 compression function
  and the \<^verbatim>\<open>argon2\<close> crate are parameters; so is the host, which may refuse memory or threads.  The
  padding of the StarOffice digest, the legacy ladder and the screen of the Argon2 parameters are
  the code's own and are modelled in full.  The lemmas show on which password lengths the StarOffice
  digest is SHA-1, and that the screen admits exactly the tuples the code acts on, with a refusal
  that names a bound the value really breaks.
\<close>

section \<open>Start keys\<close>

definition start_key :: "(bytes \<Rightarrow> bytes) \<Rightarrow> (bytes \<Rightarrow> bytes) \<Rightarrow> bytes \<Rightarrow> start_key_alg \<Rightarrow> bytes" where
  "start_key sha1 sha256 password alg =
    (case alg of Sha1 \<Rightarrow> sha1 password | Sha256 \<Rightarrow> sha256 password)"

text \<open>The bytes of a password string.\<close>

definition as_bytes :: "string \<Rightarrow> bytes" where
  "as_bytes s = map of_char s"

datatype legacy_rung = StarOfficeUtf8 | ForcedSha256 | StarOfficeMs1252

definition sha1_ladder :: "legacy_rung list" where
  "sha1_ladder = [StarOfficeUtf8, ForcedSha256, StarOfficeMs1252]"

definition sha1_init :: "u32 list" where
  "sha1_init = [0x67452301, 0xEFCDAB89, 0x98BADCFE, 0x10325476, 0xC3D2E1F0]"

definition sha1_block :: nat where "sha1_block = 64"

text \<open>Big-endian fields and \<^verbatim>\<open>as_chunks\<close>, which drops an incomplete chunk at the end.\<close>

definition be_bytes :: "nat \<Rightarrow> nat \<Rightarrow> bytes" where
  "be_bytes k n = rev (le_bytes k n)"

function chunks_exact :: "nat \<Rightarrow> 'a list \<Rightarrow> 'a list list" where
  "chunks_exact k xs =
    (if k = 0 \<or> length xs < k then [] else take k xs # chunks_exact k (drop k xs))"
  by pat_completeness auto
termination
  by (relation "measure (\<lambda>(k, xs). length xs)") auto

declare chunks_exact.simps [simp del]

text \<open>The tail block(s) of \<^verbatim>\<open>staroffice_sha1\<close>: terminator, zeros, bit length.\<close>

definition star_padding :: "nat \<Rightarrow> bytes \<Rightarrow> bytes" where
  "star_padding len tail =
    (let padded_len = (if length tail \<ge> 52 then 2 * sha1_block else sha1_block)
     in tail @ [0x80] @ replicate (padded_len - 9 - length tail) 0
          @ be_bytes 8 (len * 8 mod 2 ^ 64))"

definition staroffice_sha1 :: "(u32 list \<Rightarrow> bytes \<Rightarrow> u32 list) \<Rightarrow> bytes \<Rightarrow> bytes" where
  "staroffice_sha1 compress msg =
    (let full = length msg - length msg mod sha1_block;
         state = foldl compress sha1_init (chunks_exact sha1_block (take full msg));
         state = foldl compress state
           (chunks_exact sha1_block (star_padding (length msg) (drop full msg)))
     in concat (map (\<lambda>w. be_bytes 4 (unat w)) state))"

definition legacy_start_key ::
    "(u32 list \<Rightarrow> bytes \<Rightarrow> u32 list) \<Rightarrow> (bytes \<Rightarrow> bytes) \<Rightarrow> (bytes \<Rightarrow> bytes) \<Rightarrow> string
      \<Rightarrow> legacy_rung \<Rightarrow> bytes" where
  "legacy_start_key compress sha1 sha256 password rung =
    (case rung of
       StarOfficeUtf8 \<Rightarrow> staroffice_sha1 compress (as_bytes password)
     | ForcedSha256 \<Rightarrow> start_key sha1 sha256 (as_bytes password) Sha256
     | StarOfficeMs1252 \<Rightarrow> staroffice_sha1 compress (encode_ms1252 password))"

section \<open>StarOffice SHA-1 against SHA-1\<close>

text \<open>FIPS 180-4: the terminator, the fewest zeros that reach 56 modulo 64, the bit length.\<close>

definition fips_padding :: "nat \<Rightarrow> bytes \<Rightarrow> bytes" where
  "fips_padding len tail =
    tail @ [0x80] @ replicate ((119 - length tail mod 64) mod 64) 0 @ be_bytes 8 (len * 8 mod 2 ^ 64)"

definition sha1_reference :: "(u32 list \<Rightarrow> bytes \<Rightarrow> u32 list) \<Rightarrow> bytes \<Rightarrow> bytes" where
  "sha1_reference compress msg =
    concat (map (\<lambda>w. be_bytes 4 (unat w))
      (foldl compress sha1_init (chunks_exact 64 (fips_padding (length msg) msg))))"

lemma chunks_exact_append:
  assumes "k dvd length xs" "0 < k"
  shows "chunks_exact k (xs @ ys) = chunks_exact k xs @ chunks_exact k ys"
  using assms
proof (induction k xs rule: chunks_exact.induct)
  case (1 k xs)
  show ?case
  proof (cases "xs = []")
    case True
    then show ?thesis by (auto simp: chunks_exact.simps [of k "[]"])
  next
    case False
    with 1(2) have ge: "k \<le> length xs" by (simp add: dvd_imp_le)
    then have "k dvd length (drop k xs)" using 1(2) by simp
    with 1(1) 1(3) ge have "chunks_exact k (drop k xs @ ys) = chunks_exact k (drop k xs) @ chunks_exact k ys"
      by simp
    with ge 1(3) show ?thesis
      by (simp add: chunks_exact.simps [of k "xs @ ys"] chunks_exact.simps [of k xs])
  qed
qed

lemma length_be_bytes [simp]: "length (be_bytes k n) = k"
  by (simp add: be_bytes_def)

lemma fips_padding_tail:
  "length full mod 64 = 0 \<Longrightarrow> fips_padding n (full @ tail) = full @ fips_padding n tail"
  by (simp add: fips_padding_def mod_add_eq [symmetric])

lemma star_padding_fips:
  assumes "length tail < 64"
  shows "star_padding n tail = fips_padding n tail \<longleftrightarrow> \<not> (52 \<le> length tail \<and> length tail \<le> 55)"
proof -
  define l where "l = length tail"
  have zeros: "(119 - l mod 64) mod 64 = (if l \<le> 55 then 55 - l else 119 - l)"
    using assms by (auto simp: l_def mod_if)
  have star: "(if l \<ge> 52 then 2 * sha1_block else sha1_block) - 9 - l
      = (if l \<ge> 52 then 119 - l else 55 - l)"
    by (simp add: sha1_block_def)
  have eq: "star_padding n tail = fips_padding n tail \<longleftrightarrow>
      replicate (if l \<ge> 52 then 119 - l else 55 - l) (0::byte) @ be_bytes 8 (n * 8 mod 2 ^ 64)
      = replicate (if l \<le> 55 then 55 - l else 119 - l) 0 @ be_bytes 8 (n * 8 mod 2 ^ 64)"
    unfolding star_padding_def fips_padding_def Let_def l_def [symmetric] star zeros by simp
  show ?thesis
  proof (cases "52 \<le> l \<and> l \<le> 55")
    case True
    then have "length (replicate (119 - l) (0::byte)) \<noteq> length (replicate (55 - l) (0::byte))"
      unfolding length_replicate by linarith
    with True eq show ?thesis by (auto simp: l_def)
  next
    case False
    with eq show ?thesis by (auto simp: l_def)
  qed
qed

lemma staroffice_sha1_is_sha1:
  assumes "\<not> (52 \<le> length msg mod 64 \<and> length msg mod 64 \<le> 55)"
  shows "staroffice_sha1 compress msg = sha1_reference compress msg"
proof -
  define full where "full = length msg - length msg mod 64"
  have dvd: "64 dvd full" by (simp add: full_def minus_mod_eq_mult_div)
  have le: "full \<le> length msg" by (simp add: full_def)
  have tail: "length (drop full msg) = length msg mod 64" by (simp add: full_def)
  have fl: "length (take full msg) = full" using le by simp
  have pad: "star_padding (length msg) (drop full msg) = fips_padding (length msg) (drop full msg)"
    using star_padding_fips [of "drop full msg"] assms tail by simp
  have "fips_padding (length msg) msg = take full msg @ fips_padding (length msg) (drop full msg)"
    using fips_padding_tail [of "take full msg" "length msg" "drop full msg"] dvd fl by simp
  then have "chunks_exact 64 (fips_padding (length msg) msg)
      = chunks_exact 64 (take full msg) @ chunks_exact 64 (fips_padding (length msg) (drop full msg))"
    using chunks_exact_append [of 64 "take full msg"] dvd fl by simp
  then show ?thesis
    by (simp add: staroffice_sha1_def sha1_reference_def Let_def sha1_block_def pad flip: full_def)
qed

section \<open>Argon2id\<close>

text \<open>The \<^verbatim>\<open>argon2\<close> crate's own bounds, and its errors, which the code names by variant.\<close>

definition max_p_cost :: nat where "max_p_cost = 0xFFFFFF"
definition min_salt_len :: nat where "min_salt_len = 8"
definition max_salt_len :: nat where "max_salt_len = 0xFFFFFFFF"
definition block_size :: nat where "block_size = 1024"

datatype argon2_error =
    OutputTooShort | OutputTooLong | PwdTooLong | SecretTooLong | SaltTooShort | SaltTooLong
  | MemoryTooLittle | MemoryTooMuch | OtherArgon2Error

datatype kdf_error =
    KdfParams bad_parameter
  | KdfInternal string
  | KdfCannotAllocate nat
  | KdfCannotSpawn nat

definition argon2_internal :: "argon2_error \<Rightarrow> kdf_error" where
  "argon2_internal e = KdfInternal
    (if e = OutputTooShort \<or> e = OutputTooLong then ''argon2 refused the derived key length''
     else if e = PwdTooLong \<or> e = SecretTooLong then ''argon2 refused the start key's length''
     else if e = SaltTooShort \<or> e = SaltTooLong
       then ''argon2 refused a salt length the screen passed''
     else if e = MemoryTooLittle \<or> e = MemoryTooMuch
       then ''argon2 refused a memory cost the screen passed''
     else ''argon2 refused parameters the screen passed'')"

definition axis_out_of_range :: "argon2_axis \<Rightarrow> int \<Rightarrow> nat \<Rightarrow> nat \<Rightarrow> kdf_error" where
  "axis_out_of_range axis got lo hi = KdfParams (OutOfRange (Argon2Field axis) got (int lo) (int hi))"

definition argon2_rejects :: "manifest_field \<Rightarrow> int \<Rightarrow> int \<Rightarrow> int \<Rightarrow> kdf_error" where
  "argon2_rejects field got lo hi = KdfParams (CipherRejects field PrimArgon2 got lo hi)"

text \<open>
  The checks of \<^verbatim>\<open>derive_argon2id\<close> before any memory is asked for: the three conversions first, then
  each axis against its range, then argon2's own two requirements.
\<close>

definition argon2_screen ::
    "decrypt_limits \<Rightarrow> int \<Rightarrow> int \<Rightarrow> int \<Rightarrow> nat \<Rightarrow> kdf_error + nat \<times> nat \<times> nat" where
  "argon2_screen limits t0 m0 p0 salt_len =
    (let t_max = argon2_max_t limits; m_max = argon2_max_m_kib limits in
     case u32_try_from t0 of
       None \<Rightarrow> Err (axis_out_of_range AxisT t0 argon2_min_t_cost t_max)
     | Some t \<Rightarrow>
     (case u32_try_from m0 of
       None \<Rightarrow> Err (axis_out_of_range AxisMKib m0 argon2_min_m_cost_kib m_max)
     | Some m \<Rightarrow>
     (case u32_try_from p0 of
       None \<Rightarrow> Err (axis_out_of_range AxisP p0 argon2_min_p_cost (argon2_max_p limits))
     | Some p \<Rightarrow>
       if \<not> (argon2_min_t_cost \<le> t \<and> t \<le> t_max)
         then Err (axis_out_of_range AxisT (int t) argon2_min_t_cost t_max)
       else if \<not> (argon2_min_m_cost_kib \<le> m \<and> m \<le> m_max)
         then Err (axis_out_of_range AxisMKib (int m) argon2_min_m_cost_kib m_max)
       else
         (let p_max = min (argon2_max_p limits) max_p_cost in
          if \<not> (argon2_min_p_cost \<le> p \<and> p \<le> p_max) then
            Err (if p > max_p_cost \<and> max_p_cost \<le> argon2_max_p limits
                 then argon2_rejects (Argon2Field AxisP) (int p) (int argon2_min_p_cost) (int max_p_cost)
                 else axis_out_of_range AxisP (int p) argon2_min_p_cost (argon2_max_p limits))
          else if m < 8 * p
            then Err (argon2_rejects (Argon2Field AxisMKib) (int m) (8 * int p) (int m_max))
          else if \<not> (min_salt_len \<le> salt_len \<and> salt_len \<le> max_salt_len)
            then Err (argon2_rejects SaltLen (wide salt_len) (wide min_salt_len) (wide max_salt_len))
          else Ok (t, m, p)))))"

text \<open>
  The crate and the host: \<^verbatim>\<open>Params::new\<close> yields the block count, the hash fills an output of the
  length asked for; the host may refuse a reservation of bytes or a pool of threads.
\<close>

record argon2_lib =
  params_new :: "nat \<Rightarrow> nat \<Rightarrow> nat \<Rightarrow> nat \<Rightarrow> argon2_error + nat"
  hash_argon2 :: "bytes \<Rightarrow> bytes \<Rightarrow> nat \<Rightarrow> nat \<Rightarrow> nat \<Rightarrow> nat \<Rightarrow> argon2_error + bytes"

record host =
  host_reserves :: "nat \<Rightarrow> bool"
  host_spawns :: "nat \<Rightarrow> bool"
  host_cores :: nat

definition rich_host :: host where
  "rich_host = \<lparr>host_reserves = (\<lambda>_. True), host_spawns = (\<lambda>_. True), host_cores = 4\<rparr>"

definition lane_thread_stack :: nat where "lane_thread_stack = 2 * 1024 * 1024"

definition on_lane_threads :: "host \<Rightarrow> nat \<Rightarrow> 'a \<Rightarrow> kdf_error + 'a" where
  "on_lane_threads h lanes result =
    (let want = max 1 (min lanes (host_cores h)) in
     if host_spawns h want \<or> host_spawns h 1 then Ok result
     else Err (KdfCannotSpawn lane_thread_stack))"

definition derive_argon2id ::
    "argon2_lib \<Rightarrow> host \<Rightarrow> bytes \<Rightarrow> bytes \<Rightarrow> int \<Rightarrow> int \<Rightarrow> int \<Rightarrow> decrypt_limits \<Rightarrow> nat
      \<Rightarrow> kdf_error + bytes" where
  "derive_argon2id lib h key salt t0 m0 p0 limits out_len =
    and_then (argon2_screen limits t0 m0 p0 (length salt)) (\<lambda>(t, m, p).
    and_then (map_err argon2_internal (params_new lib m t p out_len)) (\<lambda>block_count.
    let requested = min (block_count * block_size) u64_max in
    if \<not> host_reserves h (block_count * block_size) then Err (KdfCannotAllocate requested)
    else and_then (on_lane_threads h p (hash_argon2 lib key salt t m p out_len))
           (map_err argon2_internal)))"

lemmas argon2_bounds = argon2_min_t_cost_def argon2_min_m_cost_kib_def argon2_min_p_cost_def
  max_p_cost_def min_salt_len_def max_salt_len_def

lemma argon2_screen_Ok:
  "argon2_screen limits t0 m0 p0 s = Inr (t, m, p) \<longleftrightarrow>
     t0 = int t \<and> m0 = int m \<and> p0 = int p \<and> t \<le> u32_max \<and> m \<le> u32_max \<and> p \<le> u32_max
   \<and> 1 \<le> t \<and> t \<le> argon2_max_t limits \<and> 1 \<le> m \<and> m \<le> argon2_max_m_kib limits
   \<and> 1 \<le> p \<and> p \<le> argon2_max_p limits \<and> p \<le> 0xFFFFFF \<and> 8 * p \<le> m \<and> 8 \<le> s \<and> s \<le> 0xFFFFFFFF"
  by (auto simp: argon2_screen_def Let_def argon2_bounds split: option.splits if_splits)

lemma refusal_axis:
  "axis_out_of_range axis got lo hi = KdfParams b \<Longrightarrow> \<not> (int lo \<le> got \<and> got \<le> int hi) \<Longrightarrow> refusal_true b"
  by (auto simp: axis_out_of_range_def)

lemma argon2_screen_true:
  "argon2_screen limits t0 m0 p0 s = Inl e \<Longrightarrow> t0 \<le> i32_max \<Longrightarrow> m0 \<le> i32_max \<Longrightarrow> p0 \<le> i32_max \<Longrightarrow>
    \<exists>b. e = KdfParams b \<and> refusal_true b"
  by (auto simp: argon2_screen_def Let_def argon2_bounds axis_out_of_range_def argon2_rejects_def
      int_limits wide_def split: option.splits if_splits)

definition is_params :: "kdf_error \<Rightarrow> bool" where
  "is_params e \<longleftrightarrow> (\<exists>b. e = KdfParams b)"

lemma is_params_simps [simp]:
  "is_params (axis_out_of_range axis got lo hi)" "is_params (argon2_rejects f got lo' hi')"
  by (simp_all add: is_params_def axis_out_of_range_def argon2_rejects_def)

lemma argon2_screen_params:
  assumes "argon2_screen limits t0 m0 p0 s = Inl e"
  shows "is_params e"
proof -
  define P where "P r \<longleftrightarrow> (\<forall>e. r = Inl e \<longrightarrow> is_params e)" for r :: "kdf_error + nat \<times> nat \<times> nat"
  have [simp]: "P (Inl e) = is_params e" "P (Inr r)" for e r by (simp_all add: P_def)
  have "P (argon2_screen limits t0 m0 p0 s)"
    unfolding argon2_screen_def Let_def
    by (cases "u32_try_from t0"; cases "u32_try_from m0"; cases "u32_try_from p0")
       (simp_all only: option.case split: if_split, simp_all)
  with assms show ?thesis by (simp add: P_def)
qed

text \<open>The cryptographic crates, as the derivation uses them.\<close>

record crypto =
  lib_sha1 :: "bytes \<Rightarrow> bytes"
  lib_sha256 :: "bytes \<Rightarrow> bytes"
  lib_sha1_compress :: "u32 list \<Rightarrow> bytes \<Rightarrow> u32 list"
  lib_pbkdf2 :: "bytes \<Rightarrow> bytes \<Rightarrow> nat \<Rightarrow> nat \<Rightarrow> bytes"
  lib_argon2 :: argon2_lib

section \<open>Properties\<close>

text \<open>
  C11. The StarOffice digest pads its last block as SHA-1 does exactly when the message length modulo 64 is
  not 52, 53, 54 or 55, and on every message outside that window it is SHA-1.
\<close>

theorem staroffice_is_sha1_outside_window:
  "(star_padding (length msg) (drop (length msg - length msg mod 64) msg)
      = fips_padding (length msg) (drop (length msg - length msg mod 64) msg)
    \<longleftrightarrow> length msg mod 64 \<notin> {52, 53, 54, 55})
   \<and> (length msg mod 64 \<notin> {52, 53, 54, 55} \<longrightarrow>
      staroffice_sha1 compress msg = sha1_reference compress msg)"
proof -
  have window: "52 \<le> l \<and> l \<le> 55 \<longleftrightarrow> l \<in> {52, 53, 54, 55}" for l :: nat by auto
  have "length (drop (length msg - length msg mod 64) msg) = length msg mod 64" by simp
  with star_padding_fips [of "drop (length msg - length msg mod 64) msg" "length msg"]
    staroffice_sha1_is_sha1 [of msg compress] window
  show ?thesis by simp
qed

theorem staroffice_window_witness:
  "staroffice_sha1 (\<lambda>s b. map (\<lambda>w. w + of_nat (le_value (take 4 b))) s) (replicate 3 0)
    = sha1_reference (\<lambda>s b. map (\<lambda>w. w + of_nat (le_value (take 4 b))) s) (replicate 3 0)"
  using staroffice_is_sha1_outside_window
    [of "replicate 3 0" "\<lambda>s b. map (\<lambda>w. w + of_nat (le_value (take 4 b))) s"] by simp

text \<open>
  C10. The Argon2 screen lets through exactly the tuples inside the caller's limits that argon2 can run,
  unchanged; a refusal names a bound that the refused value really breaks.
\<close>

theorem argon2_screen_exact:
  assumes "t0 \<le> i32_max" "m0 \<le> i32_max" "p0 \<le> i32_max"
  shows "(argon2_screen limits t0 m0 p0 s = Inr (nat t0, nat m0, nat p0) \<longleftrightarrow>
      1 \<le> t0 \<and> t0 \<le> int (argon2_max_t limits) \<and> 1 \<le> m0 \<and> m0 \<le> int (argon2_max_m_kib limits)
      \<and> 1 \<le> p0 \<and> p0 \<le> int (argon2_max_p limits) \<and> p0 \<le> 0xFFFFFF \<and> 8 * p0 \<le> m0
      \<and> 8 \<le> s \<and> s \<le> 0xFFFFFFFF)
    \<and> (\<forall>r. argon2_screen limits t0 m0 p0 s = Inr r \<longrightarrow> r = (nat t0, nat m0, nat p0))
    \<and> (\<forall>e. argon2_screen limits t0 m0 p0 s = Inl e \<longrightarrow> (\<exists>b. e = KdfParams b \<and> refusal_true b))"
proof (intro conjI allI impI)
  show "argon2_screen limits t0 m0 p0 s = Inr (nat t0, nat m0, nat p0) \<longleftrightarrow>
      1 \<le> t0 \<and> t0 \<le> int (argon2_max_t limits) \<and> 1 \<le> m0 \<and> m0 \<le> int (argon2_max_m_kib limits)
      \<and> 1 \<le> p0 \<and> p0 \<le> int (argon2_max_p limits) \<and> p0 \<le> 0xFFFFFF \<and> 8 * p0 \<le> m0
      \<and> 8 \<le> s \<and> s \<le> 0xFFFFFFFF"
    using assms unfolding argon2_screen_Ok by (auto simp: int_limits nat_le_iff le_nat_iff)
next
  fix r assume "argon2_screen limits t0 m0 p0 s = Inr r"
  then show "r = (nat t0, nat m0, nat p0)" by (cases r) (auto simp: argon2_screen_Ok)
next
  fix e assume "argon2_screen limits t0 m0 p0 s = Inl e"
  then show "\<exists>b. e = KdfParams b \<and> refusal_true b" using assms by (rule argon2_screen_true)
qed

theorem argon2_screen_witness:
  "argon2_screen default_limits 3 65536 4 16 = Inr (3, 65536, 4)"
proof -
  have "(3::int) \<le> i32_max" "(65536::int) \<le> i32_max" "(4::int) \<le> i32_max"
    by (simp_all add: int_limits)
  note e = argon2_screen_exact [OF this, of default_limits 16, THEN conjunct1]
  have "argon2_screen default_limits 3 65536 4 16 = Inr (nat 3, nat 65536, nat 4)"
    unfolding e by (simp add: default_limits_def limit_defs)
  then show ?thesis by simp
qed

text \<open>
  Under the default limits no manifest makes key derivation ask for more than 1 GiB of Argon2 memory,
  whatever the parameters: argon2's block count never exceeds the memory cost in KiB.
\<close>

theorem argon2_memory_bounded:
  assumes "\<forall>m t p n k. params_new lib m t p n = Inr k \<longrightarrow> k \<le> m"
    and "derive_argon2id lib h key salt t0 m0 p0 default_limits n = Inl (KdfCannotAllocate bytes)"
  shows "bytes \<le> 2 ^ 30"
proof -
  obtain t m p where s: "argon2_screen default_limits t0 m0 p0 (length salt) = Inr (t, m, p)"
    using assms(2) argon2_screen_params [of default_limits t0 m0 p0 "length salt"]
    by (cases "argon2_screen default_limits t0 m0 p0 (length salt)")
       (auto simp: derive_argon2id_def is_params_def)
  obtain k where k: "params_new lib m t p n = Inr k"
    using assms(2) s by (cases "params_new lib m t p n") (auto simp: derive_argon2id_def argon2_internal_def)
  have b: "bytes = min (k * block_size) u64_max"
    using assms(2) s k
    by (cases "hash_argon2 lib key salt t m p n")
       (auto simp: derive_argon2id_def argon2_internal_def on_lane_threads_def Let_def split: if_splits)
  from s have "m \<le> 2 ^ 20"
    by (simp add: argon2_screen_Ok default_limits_def argon2_max_m_cost_kib_read_def)
  moreover from assms(1) k have "k \<le> m" by blast
  ultimately have "k * block_size \<le> 2 ^ 20 * block_size" by (simp add: mult_le_mono1)
  with b show ?thesis by (simp add: block_size_def min_def split: if_splits)
qed

definition poor_host :: host where
  "poor_host = \<lparr>host_reserves = (\<lambda>n. n < 2 ^ 20), host_spawns = (\<lambda>_. True), host_cores = 1\<rparr>"

definition sample_argon2 :: argon2_lib where
  "sample_argon2 = \<lparr>params_new = (\<lambda>m t p n. Inr (m div (4 * p) * (4 * p))),
     hash_argon2 = (\<lambda>key salt t m p n. Inr (replicate n 0))\<rparr>"

definition sample_crypto :: crypto where
  "sample_crypto = \<lparr>lib_sha1 = (\<lambda>b. take 20 (b @ replicate 20 1)),
     lib_sha256 = (\<lambda>b. take 32 (b @ replicate 32 2)),
     lib_sha1_compress = (\<lambda>s b. map (\<lambda>w. w + of_nat (le_value (take 4 b))) s),
     lib_pbkdf2 = (\<lambda>key salt iters n. take n (key @ salt @ replicate n 3)),
     lib_argon2 = sample_argon2\<rparr>"

theorem argon2_memory_witness:
  "derive_argon2id sample_argon2 poor_host [] (replicate 16 0) 3 65536 4 default_limits 32
     = Inl (KdfCannotAllocate 67108864) \<and> (67108864 :: nat) \<le> 2 ^ 30"
proof -
  have screen: "argon2_screen default_limits 3 65536 4 16 = Inr (3, 65536, 4)"
    by (simp add: argon2_screen_Ok int_limits default_limits_def limit_defs)
  have run: "derive_argon2id sample_argon2 poor_host [] (replicate 16 0) 3 65536 4 default_limits 32
     = Inl (KdfCannotAllocate 67108864)"
    by (simp add: derive_argon2id_def screen sample_argon2_def poor_host_def Let_def
        block_size_def u64_max_def)
  have "\<forall>m t p n k. params_new sample_argon2 m t p n = Inr k \<longrightarrow> k \<le> m"
    by (auto simp: sample_argon2_def)
  from argon2_memory_bounded [OF this run] run show ?thesis by blast
qed

end
