(* ===== verification/Stream_Io.thy ===== *)
theory Stream_Io
  imports Kdf
begin

text \<open>
  Reading, as \<^verbatim>\<open>src/stream.rs\<close>, \<^verbatim>\<open>src/decrypt_stream.rs\<close> and \<^verbatim>\<open>src/io_latch.rs\<close> do it: the faults a reader of
  this crate smuggles through \<^verbatim>\<open>io::Error\<close>, fallible buffers, \<^verbatim>\<open>read_full\<close>, the constant-time
  comparison, and the latch that keeps the caller's first read error.

  A \<^verbatim>\<open>Read\<close> is a function from its state and a buffer length to a result and the next state, or
  \<^const>\<open>None\<close> when the call never returns.  The locale \<^verbatim>\<open>source\<close> is the contract of \<^verbatim>\<open>Read\<close> as the code
  relies on it: a reader has bytes to deliver and an end, which is either the end of the data or an
  error.  Every reader of the development is shown to meet it.
\<close>

section \<open>Faults and errors\<close>

datatype fault =
    FaultWrongPassword
  | FaultChanged
  | FaultBadParameters bad_parameter
  | FaultInternal string
  | FaultInflate string
  | FaultOutputLimit
  | FaultAlloc nat
  | FaultDeflate string

text \<open>
  \<^verbatim>\<open>io::Error\<close>: a fault of this crate carried by \<^verbatim>\<open>into_io\<close>, the kinds the code tests or makes, and
  any other error by its text.
\<close>

datatype io_error =
    Carried fault
  | Interrupted
  | UnexpectedEof
  | WriteZero string
  | InvalidInput string
  | InvalidData string
  | OtherIo string

definition into_io :: "fault \<Rightarrow> io_error" where
  "into_io f = Carried f"

definition fault_take :: "io_error \<Rightarrow> io_error + fault" where
  "fault_take e = (case e of Carried f \<Rightarrow> Ok f | _ \<Rightarrow> Err e)"

lemma fault_take_into_io [simp]: "fault_take (into_io f) = Ok f"
  by (simp add: fault_take_def into_io_def)

lemma fault_take_Err: "fault_take e = Err e' \<longleftrightarrow> e' = e \<and> (\<forall>f. e \<noteq> into_io f)"
  by (cases e) (auto simp: fault_take_def into_io_def)

lemma into_io_not_interrupted [simp]: "into_io f \<noteq> Interrupted" "Interrupted \<noteq> into_io f"
  by (simp_all add: into_io_def)

definition chunk :: nat where "chunk = 64 * 1024"
definition inflate_window :: nat where "inflate_window = 32 * 1024"

text \<open>A buffer of zeros, if the host has the memory.\<close>

definition chunk_buffer :: "host \<Rightarrow> nat \<Rightarrow> fault + bytes" where
  "chunk_buffer h n = (if host_reserves h n then Ok (replicate n 0) else Err (FaultAlloc n))"

section \<open>Comparison\<close>

definition ct_eq :: "bytes \<Rightarrow> bytes \<Rightarrow> bool" where
  "ct_eq got want =
    (if length got \<noteq> length want then False
     else foldl (\<lambda>diff (a, b). diff OR (a XOR b)) 0 (zip got want) = 0)"

lemma or_eq_zero: "a OR b = (0 :: byte) \<longleftrightarrow> a = 0 \<and> b = 0"
  by (auto simp: bit_eq_iff bit_simps)

lemma xor_eq_zero: "a XOR b = (0 :: byte) \<longleftrightarrow> a = b"
  by (auto simp: bit_eq_iff bit_simps)

lemma foldl_diff_zero:
  "foldl (\<lambda>diff (a, b). diff OR (a XOR b)) d ps = (0 :: byte) \<longleftrightarrow> d = 0 \<and> (\<forall>(a, b) \<in> set ps. a = b)"
proof (induction ps arbitrary: d)
  case (Cons p ps)
  show ?case
    unfolding foldl_Cons Cons by (cases p) (auto simp: or_eq_zero xor_eq_zero)
qed simp

lemma ct_eq_iff: "ct_eq got want \<longleftrightarrow> got = want"
proof (cases "length got = length want")
  case True
  then have "(\<forall>(a, b) \<in> set (zip got want). a = b) \<longleftrightarrow> got = want"
    by (induction got want rule: list_induct2) auto
  with True show ?thesis by (simp add: ct_eq_def foldl_diff_zero)
qed (auto simp: ct_eq_def)

section \<open>Readers\<close>

type_synonym 's reader = "'s \<Rightarrow> nat \<Rightarrow> ((io_error + bytes) \<times> 's) option"

text \<open>
  \<^verbatim>\<open>read_full\<close>, which \<^verbatim>\<open>stream.rs\<close> and \<^verbatim>\<open>decrypt_stream.rs\<close> both define: fill a buffer of \<^verbatim>\<open>want\<close> bytes,
  stopping at the end of the data, retrying when interrupted.
\<close>

partial_function (option) read_full_from ::
    "'s reader \<Rightarrow> 's \<Rightarrow> nat \<Rightarrow> bytes \<Rightarrow> ((io_error + bytes) \<times> 's) option" where
  "read_full_from rd s want got =
    (if want = 0 then Some (Ok got, s)
     else (case rd s want of
        None \<Rightarrow> None
      | Some (r, s') \<Rightarrow> (case r of
          Inr d \<Rightarrow> if d = [] then Some (Ok got, s')
                  else read_full_from rd s' (want - length d) (got @ d)
        | Inl e \<Rightarrow> if e = Interrupted then read_full_from rd s' want got
                  else Some (Err e, s'))))"

definition read_full :: "'s reader \<Rightarrow> 's \<Rightarrow> nat \<Rightarrow> ((io_error + bytes) \<times> 's) option" where
  "read_full rd s want = read_full_from rd s want []"

declare read_full_from.simps [code]

text \<open>
  The contract.  \<^verbatim>\<open>content s\<close> is what the reader will deliver before it ends, \<^verbatim>\<open>fate s\<close> the error that
  then comes, if one does; \<^verbatim>\<open>patience s\<close> bounds the interruptions still to come.
\<close>

locale source =
  fixes rd :: "'s reader"
    and good :: "'s \<Rightarrow> bool"
    and content :: "'s \<Rightarrow> bytes"
    and fate :: "'s \<Rightarrow> io_error option"
    and patience :: "'s \<Rightarrow> nat"
  assumes returns: "good s \<Longrightarrow> 0 < n \<Longrightarrow> \<exists>r s'. rd s n = Some (r, s')"
    and data: "good s \<Longrightarrow> 0 < n \<Longrightarrow> rd s n = Some (Inr d, s') \<Longrightarrow>
      good s' \<and> content s = d @ content s' \<and> fate s' = fate s \<and> length d \<le> n
      \<and> patience s' \<le> patience s \<and> (d = [] \<longrightarrow> content s = [] \<and> fate s = None)"
    and interrupted: "good s \<Longrightarrow> 0 < n \<Longrightarrow> rd s n = Some (Inl Interrupted, s') \<Longrightarrow>
      good s' \<and> content s' = content s \<and> fate s' = fate s \<and> patience s' < patience s"
    and fails: "good s \<Longrightarrow> 0 < n \<Longrightarrow> rd s n = Some (Inl e, s') \<Longrightarrow> e \<noteq> Interrupted \<Longrightarrow>
      content s = [] \<and> fate s = Some e"
    and final: "good s \<Longrightarrow> fate s \<noteq> Some Interrupted"
begin

definition delivered :: "'s \<Rightarrow> nat \<Rightarrow> io_error + bytes" where
  "delivered s n =
    (if n \<le> length (content s) then Ok (take n (content s))
     else case fate s of None \<Rightarrow> Ok (content s) | Some e \<Rightarrow> Err e)"

text \<open>
  \<^verbatim>\<open>read_full\<close> returns, and its result depends on the content and the fate alone: not on how the
  reader splits its data or when it is interrupted.
\<close>

lemma read_full_from_delivers:
  assumes "good s"
  shows "\<exists>s'. (case delivered s want of
      Inr d \<Rightarrow> read_full_from rd s want got = Some (Inr (got @ d), s')
              \<and> good s' \<and> content s = d @ content s' \<and> fate s' = fate s \<and> patience s' \<le> patience s
    | Inl e \<Rightarrow> read_full_from rd s want got = Some (Inl e, s'))"
  using assms
proof (induction "want + patience s" arbitrary: s want got rule: less_induct)
  case less
  show ?case
  proof (cases "want = 0")
    case True
    then show ?thesis
      using less(2) by (auto simp: delivered_def read_full_from.simps [of rd s])
  next
    case False
    then have pos: "0 < want" by simp
    obtain r s1 where step: "rd s want = Some (r, s1)" using returns [OF less(2) pos] by blast
    show ?thesis
    proof (cases r)
      case (Inr d)
      note law = data [OF less(2) pos step [unfolded Inr]]
      show ?thesis
      proof (cases "d = []")
        case True
        then show ?thesis
          using law pos by (auto simp: delivered_def read_full_from.simps [of rd s] step Inr)
      next
        case False
        then have shorter: "want - length d + patience s1 < want + patience s" using law pos
          by (cases d) auto
        have deliv: "delivered s want = map_sum id ((@) d) (delivered s1 (want - length d))"
          using law by (auto simp: delivered_def split: option.splits)
        from less(1) [OF shorter, of "got @ d"] law False pos show ?thesis
          by (cases "delivered s1 (want - length d)")
             (auto simp: deliv read_full_from.simps [of rd s] step Inr)
      qed
    next
      case (Inl e)
      show ?thesis
      proof (cases "e = Interrupted")
        case True
        note law = interrupted [OF less(2) pos step [unfolded Inl True]]
        then have shorter: "want + patience s1 < want + patience s" by simp
        have deliv: "delivered s want = delivered s1 want" using law
          by (auto simp: delivered_def split: option.split)
        from less(1) [OF shorter, of got] law pos True show ?thesis
          by (auto simp: deliv read_full_from.simps [of rd s] step Inl split: sum.splits)
      next
        case False
        note law = fails [OF less(2) pos step [unfolded Inl] False]
        with pos False show ?thesis
          by (auto simp: delivered_def read_full_from.simps [of rd s] step Inl)
      qed
    qed
  qed
qed

lemma read_full_delivers:
  assumes "good s" "delivered s want = Inr d"
  obtains s' where "read_full rd s want = Some (Inr d, s')" "good s'" "content s = d @ content s'"
    "fate s' = fate s" "patience s' \<le> patience s"
  using read_full_from_delivers [OF assms(1), of want "[]"] assms(2) by (auto simp: read_full_def)

lemma delivered_length: "delivered s n = Inr d \<Longrightarrow> length d \<le> n"
  by (auto simp: delivered_def split: if_splits option.splits)

lemma delivered_short: "delivered s n = Inr d \<Longrightarrow> length d < n \<Longrightarrow> content s = d \<and> fate s = None"
  by (auto simp: delivered_def split: if_splits option.splits)

lemma delivered_fails: "delivered s n = Inl e \<Longrightarrow> fate s = Some e \<and> length (content s) < n"
  by (auto simp: delivered_def split: if_splits option.splits)

lemma read_full_fails:
  assumes "good s" "delivered s want = Inl e"
  obtains s' where "read_full rd s want = Some (Inl e, s')"
  using read_full_from_delivers [OF assms(1), of want "[]"] assms(2) by (auto simp: read_full_def)

end

section \<open>Segmented readers\<close>

text \<open>
  The reader the standard library or the \<^verbatim>\<open>zip\<close> crate hands the code: it delivers its data in pieces of
  its own choosing, may be interrupted between them, and may fail.
\<close>

datatype segment = Data bytes | Interrupt | Fails io_error

fun read_segments :: "segment list reader" where
  "read_segments [] n = Some (Inr [], [])"
| "read_segments (Data d # ss) n =
    (if length d \<le> n then Some (Inr d, ss) else Some (Inr (take n d), Data (drop n d) # ss))"
| "read_segments (Interrupt # ss) n = Some (Inl Interrupted, ss)"
| "read_segments (Fails e # ss) n = Some (Inl e, ss)"

fun segments_good :: "segment list \<Rightarrow> bool" where
  "segments_good [] \<longleftrightarrow> True"
| "segments_good (Data d # ss) \<longleftrightarrow> d \<noteq> [] \<and> segments_good ss"
| "segments_good (Interrupt # ss) \<longleftrightarrow> segments_good ss"
| "segments_good (Fails e # ss) \<longleftrightarrow> e \<noteq> Interrupted \<and> segments_good ss"

fun segments_content :: "segment list \<Rightarrow> bytes" where
  "segments_content [] = []"
| "segments_content (Data d # ss) = d @ segments_content ss"
| "segments_content (Interrupt # ss) = segments_content ss"
| "segments_content (Fails e # ss) = []"

fun segments_fate :: "segment list \<Rightarrow> io_error option" where
  "segments_fate [] = None"
| "segments_fate (Data d # ss) = segments_fate ss"
| "segments_fate (Interrupt # ss) = segments_fate ss"
| "segments_fate (Fails e # ss) = Some e"

definition segments_patience :: "segment list \<Rightarrow> nat" where
  "segments_patience ss = length (filter (\<lambda>s. s = Interrupt) ss)"

lemma read_segments_returns: "\<exists>r ss'. read_segments ss n = Some (r, ss')"
  by (cases ss; cases "hd ss") auto

interpretation segs: source read_segments segments_good segments_content segments_fate segments_patience
proof unfold_locales
  fix s :: "segment list" and n
  show "\<exists>r s'. read_segments s n = Some (r, s')" by (rule read_segments_returns)
next
  fix s s' :: "segment list" and n d
  assume "segments_good s" "0 < n" "read_segments s n = Some (Inr d, s')"
  then show "segments_good s' \<and> segments_content s = d @ segments_content s'
      \<and> segments_fate s' = segments_fate s \<and> length d \<le> n
      \<and> segments_patience s' \<le> segments_patience s
      \<and> (d = [] \<longrightarrow> segments_content s = [] \<and> segments_fate s = None)"
    by (cases "(s, n)" rule: read_segments.cases)
       (auto simp: segments_patience_def split: if_splits)
next
  fix s s' :: "segment list" and n
  assume "segments_good s" "0 < n" "read_segments s n = Some (Inl Interrupted, s')"
  then show "segments_good s' \<and> segments_content s' = segments_content s
      \<and> segments_fate s' = segments_fate s \<and> segments_patience s' < segments_patience s"
    by (cases "(s, n)" rule: read_segments.cases)
       (auto simp: segments_patience_def split: if_splits)
next
  fix s s' :: "segment list" and n e
  assume "segments_good s" "0 < n" "read_segments s n = Some (Inl e, s')" "e \<noteq> Interrupted"
  then show "segments_content s = [] \<and> segments_fate s = Some e"
    by (cases "(s, n)" rule: read_segments.cases) (auto split: if_splits)
next
  fix s :: "segment list"
  assume "segments_good s"
  then show "segments_fate s \<noteq> Some Interrupted"
    by (induction s rule: segments_good.induct) auto
qed

text \<open>A reader over bytes in memory, \<^verbatim>\<open>&[u8]\<close>: one segment at most.\<close>

definition whole :: "bytes \<Rightarrow> segment list" where
  "whole bs = (if bs = [] then [] else [Data bs])"

lemma whole_simps [simp]:
  "segments_good (whole bs)" "segments_content (whole bs) = bs" "segments_fate (whole bs) = None"
  by (simp_all add: whole_def)

section \<open>Properties\<close>

text \<open>
  C12. \<^verbatim>\<open>read_full\<close> over any segmented reader returns: it fills the buffer, or stops short at the end of
  the data, or reports the error in the way; how the data is split and when the reader is
  interrupted do not show in the result.
\<close>

theorem read_full_segments:
  assumes "segments_good ss"
  shows "\<exists>ss'. read_full read_segments ss n =
    Some (if n \<le> length (segments_content ss) then Inr (take n (segments_content ss))
          else case segments_fate ss of None \<Rightarrow> Inr (segments_content ss) | Some e \<Rightarrow> Inl e, ss')"
proof (cases "segs.delivered ss n")
  case (Inr d)
  obtain ss' where "read_full read_segments ss n = Some (Inr d, ss')"
    using segs.read_full_delivers [OF assms Inr] by blast
  then show ?thesis unfolding segs.delivered_def [symmetric] Inr by blast
next
  case (Inl e)
  obtain ss' where "read_full read_segments ss n = Some (Inl e, ss')"
    using segs.read_full_fails [OF assms Inl] by blast
  then show ?thesis unfolding segs.delivered_def [symmetric] Inl by blast
qed

theorem read_full_segments_witness:
  "\<exists>ss'. read_full read_segments [Data [1, 2], Interrupt, Data [3, 4]] 3 = Some (Inr [1, 2, 3], ss')"
  using read_full_segments [of "[Data [1, 2], Interrupt, Data [3, 4]]" 3]
  by (simp add: numeral_3_eq_3)

end
