(* ===== verification/Io_Latch.thy ===== *)
theory Io_Latch
  imports Stream_Io
begin

text \<open>
  The latch of \<^verbatim>\<open>src/io_latch.rs\<close>: a reader's errors pass through it, it keeps the first, and the caller's
  own error is the answer when the call ends.  The latch is shared by reference, so it is part of
  the wrapped reader's state here.
\<close>

type_synonym latch = "io_error option"

text \<open>A stand-in has the kind of the error it stands for: only \<^const>\<open>Interrupted\<close> is retried.\<close>

definition stand_in :: "io_error \<Rightarrow> io_error" where
  "stand_in e = (case e of
      Interrupted \<Rightarrow> Interrupted
    | UnexpectedEof \<Rightarrow> UnexpectedEof
    | WriteZero _ \<Rightarrow> WriteZero ''the reader failed''
    | InvalidInput _ \<Rightarrow> InvalidInput ''the reader failed''
    | InvalidData _ \<Rightarrow> InvalidData ''the reader failed''
    | _ \<Rightarrow> OtherIo ''the reader failed'')"

definition latch_record :: "latch \<Rightarrow> io_error \<Rightarrow> io_error \<times> latch" where
  "latch_record slot err =
    (stand_in err, Some (case slot of Some first \<Rightarrow> first | None \<Rightarrow> err))"

definition latched_read :: "'s reader \<Rightarrow> ('s \<times> latch) reader" where
  "latched_read rd = (\<lambda>(s, slot) n. (case rd s n of
      None \<Rightarrow> None
    | Some (Inr d, s') \<Rightarrow> Some (Inr d, (s', slot))
    | Some (Inl e, s') \<Rightarrow> (let (e', slot') = latch_record slot e in Some (Inl e', (s', slot')))))"

text \<open>How an entry point ends: the latched error, if there is one, whatever the run made of it.\<close>

definition latch_result :: "latch \<Rightarrow> (io_error \<Rightarrow> 'e) \<Rightarrow> 'e + 'a \<Rightarrow> 'e + 'a" where
  "latch_result slot io result = (case slot of Some err \<Rightarrow> Err (io err) | None \<Rightarrow> result)"

lemma stand_in_interrupted [simp]: "stand_in e = Interrupted \<longleftrightarrow> e = Interrupted"
  by (cases e) (auto simp: stand_in_def)

lemma interrupted_stand_in [simp]: "Interrupted = stand_in e \<longleftrightarrow> e = Interrupted"
  by (metis stand_in_interrupted)

lemma stand_in_not_carried: "fault_take (stand_in e) = Err (stand_in e)"
  by (cases e) (auto simp: stand_in_def fault_take_def)

lemma latched_read_cases:
  assumes "latched_read rd (s, slot) n = Some (r, (s', slot'))"
  obtains d where "rd s n = Some (Inr d, s')" "r = Inr d" "slot' = slot"
  | e where "rd s n = Some (Inl e, s')" "r = Inl (stand_in e)"
      "slot' = Some (case slot of Some first \<Rightarrow> first | None \<Rightarrow> e)"
proof (cases "rd s n")
  case None
  with assms show thesis by (simp add: latched_read_def)
next
  case (Some p)
  obtain q s1 where p: "p = (q, s1)" by (cases p)
  show thesis
  proof (cases q)
    case (Inl e)
    show thesis
      by (rule that(2) [of e]) (use assms Some p Inl in \<open>auto simp: latched_read_def latch_record_def\<close>)
  next
    case (Inr d)
    show thesis
      by (rule that(1) [of d]) (use assms Some p Inr in \<open>auto simp: latched_read_def\<close>)
  qed
qed

section \<open>A latched source is a source\<close>

locale latched_source = source rd good content fate patience
  for rd :: "'s reader" and good :: "'s \<Rightarrow> bool" and content :: "'s \<Rightarrow> bytes"
    and fate :: "'s \<Rightarrow> io_error option" and patience :: "'s \<Rightarrow> nat"
begin

lemma latched_returns: "good (fst p) \<Longrightarrow> 0 < n \<Longrightarrow> \<exists>r p'. latched_read rd p n = Some (r, p')"
  using returns [of "fst p" n]
  by (cases p) (auto simp: latched_read_def latch_record_def split: sum.splits option.splits)

sublocale latched: source "latched_read rd" "\<lambda>p. good (fst p)" "\<lambda>p. content (fst p)"
  "\<lambda>p. map_option stand_in (fate (fst p))" "\<lambda>p. patience (fst p)"
proof unfold_locales
  fix p :: "'s \<times> latch" and n :: nat
  assume "good (fst p)" "0 < n"
  then show "\<exists>r p'. latched_read rd p n = Some (r, p')" by (rule latched_returns)
next
  fix p p' :: "'s \<times> latch" and n :: nat and d
  assume g: "good (fst p)" "0 < n" and r: "latched_read rd p n = Some (Inr d, p')"
  from r have "rd (fst p) n = Some (Inr d, fst p')"
    by (cases p; cases p') (auto elim: latched_read_cases)
  from data [OF g this]
  show "good (fst p') \<and> content (fst p) = d @ content (fst p')
      \<and> map_option stand_in (fate (fst p')) = map_option stand_in (fate (fst p))
      \<and> length d \<le> n \<and> patience (fst p') \<le> patience (fst p)
      \<and> (d = [] \<longrightarrow> content (fst p) = [] \<and> map_option stand_in (fate (fst p)) = None)" by auto
next
  fix p p' :: "'s \<times> latch" and n :: nat
  assume g: "good (fst p)" "0 < n" and r: "latched_read rd p n = Some (Inl Interrupted, p')"
  from r have "rd (fst p) n = Some (Inl Interrupted, fst p')"
    by (cases p; cases p') (auto elim!: latched_read_cases)
  from interrupted [OF g this]
  show "good (fst p') \<and> content (fst p') = content (fst p)
      \<and> map_option stand_in (fate (fst p')) = map_option stand_in (fate (fst p))
      \<and> patience (fst p') < patience (fst p)" by auto
next
  fix p p' :: "'s \<times> latch" and n :: nat and e
  assume g: "good (fst p)" "0 < n" and r: "latched_read rd p n = Some (Inl e, p')"
    and e: "e \<noteq> Interrupted"
  from r obtain e' where "rd (fst p) n = Some (Inl e', fst p')" "e = stand_in e'"
    by (cases p; cases p') (auto elim!: latched_read_cases)
  with fails [OF g, of e' "fst p'"] e
  show "content (fst p) = [] \<and> map_option stand_in (fate (fst p)) = Some e" by auto
next
  fix p :: "'s \<times> latch"
  assume "good (fst p)"
  from final [OF this] show "map_option stand_in (fate (fst p)) \<noteq> Some Interrupted" by auto
qed

end

interpretation lsegs: latched_source read_segments segments_good segments_content segments_fate
    segments_patience
  by (rule latched_source.intro) (rule segs.source_axioms)

section \<open>The latch keeps the first error\<close>

text \<open>A run of reads: the results in order, and what is latched at the end.\<close>

inductive read_run :: "'s reader \<Rightarrow> 's \<Rightarrow> (io_error + bytes) list \<Rightarrow> 's \<Rightarrow> bool" for rd where
  run_nil: "read_run rd s [] s"
| run_step: "rd s n = Some (r, s') \<Longrightarrow> read_run rd s' rs s'' \<Longrightarrow> read_run rd s (r # rs) s''"

fun first_error :: "(io_error + bytes) list \<Rightarrow> io_error option" where
  "first_error [] = None"
| "first_error (Inl e # rs) = Some e"
| "first_error (Inr d # rs) = first_error rs"

inductive_cases read_run_ConsE: "read_run rd s (r # rs) s'"
inductive_simps read_run_Nil [simp]: "read_run rd s [] s'"

lemma latched_run:
  assumes "read_run (latched_read rd) p rs p'"
  shows "\<exists>qs. read_run rd (fst p) qs (fst p') \<and> rs = map (map_err stand_in) qs
    \<and> snd p' = (case snd p of Some e \<Rightarrow> Some e | None \<Rightarrow> first_error qs)"
  using assms
proof (induction rule: read_run.induct)
  case (run_nil p)
  then show ?case by (intro exI [of _ "[]"]) (auto intro: read_run.run_nil split: option.split)
next
  case (run_step p n r p1 rs p2)
  then obtain qs where qs: "read_run rd (fst p1) qs (fst p2)" "rs = map (map_err stand_in) qs"
    "snd p2 = (case snd p1 of Some e \<Rightarrow> Some e | None \<Rightarrow> first_error qs)" by blast
  have step: "latched_read rd (fst p, snd p) n = Some (r, (fst p1, snd p1))"
    using run_step(1) by simp
  then show ?case
  proof (cases rule: latched_read_cases)
    case (1 d)
    then show ?thesis using qs
      by (intro exI [of _ "Inr d # qs"]) (auto intro: read_run.run_step split: option.split)
  next
    case (2 e)
    then show ?thesis using qs
      by (intro exI [of _ "Inl e # qs"]) (auto intro: read_run.run_step split: option.splits)
  qed
qed

section \<open>Properties\<close>

text \<open>
  C13. Over any sequence of reads the latch ends with the first error the caller's reader returned and
  with nothing if it returned none, and the reads see the caller's data and stand-ins of the
  caller's errors: the entry point's answer is the caller's own first error.
\<close>

theorem latch_keeps_first_error:
  assumes "read_run (latched_read rd) (s, None) rs (s', slot)"
  shows "\<exists>qs. read_run rd s qs s' \<and> rs = map (map_err stand_in) qs \<and> slot = first_error qs
    \<and> latch_result slot io result = (case first_error qs of Some e \<Rightarrow> Inl (io e) | None \<Rightarrow> result)"
  using latched_run [OF assms] by (auto simp: latch_result_def)

theorem latch_keeps_first_error_witness:
  "latch_result (first_error [Inr [1], Inl (OtherIo ''cancel''), Inl UnexpectedEof]) Some (Inr True)
     = (Inl (Some (OtherIo ''cancel'')) :: io_error option + bool)
   \<and> read_run (latched_read read_segments)
        ([Data [1], Fails (OtherIo ''cancel''), Fails UnexpectedEof], None)
        [Inr [1], Inl (OtherIo ''the reader failed''), Inl UnexpectedEof]
        ([], Some (OtherIo ''cancel''))"
proof -
  have run: "read_run (latched_read read_segments)
        ([Data [1], Fails (OtherIo ''cancel''), Fails UnexpectedEof], None)
        [Inr [1], Inl (OtherIo ''the reader failed''), Inl UnexpectedEof]
        ([], Some (OtherIo ''cancel''))"
    by (rule read_run.run_step [where n = 8] read_run.run_nil |
        simp add: latched_read_def latch_record_def stand_in_def)+
  then obtain qs where "first_error qs = Some (OtherIo ''cancel'')"
    and "latch_result (Some (OtherIo ''cancel'')) Some (Inr True)
      = (case first_error qs of Some e \<Rightarrow> Inl (Some e) | None \<Rightarrow> Inr True)"
    using latch_keeps_first_error [OF run, of Some "Inr True"] by metis
  with run show ?thesis by simp
qed

text \<open>
  C14. An interrupted read is not a failure for \<^verbatim>\<open>read_full\<close>, which retries it and delivers the data, but it
  is one for the latch: the entry point throws the completed result away and answers with the
  interruption.
\<close>

theorem interrupted_read_fails_the_call:
  assumes "d \<noteq> []"
  shows "read_full (latched_read read_segments) ([Interrupt, Data d], None) (length d)
      = Some (Inr d, ([], Some Interrupted))
    \<and> latch_result (Some Interrupted) io (Inr d) = Inl (io Interrupted)"
proof -
  have "length d \<noteq> 0" using assms by simp
  then show ?thesis
    using assms
    by (simp add: read_full_def latch_result_def latched_read_def latch_record_def
        read_full_from.simps [of _ _ "length d"] read_full_from.simps [of _ _ 0])
qed

theorem interrupted_read_witness:
  "read_full (latched_read read_segments) ([Interrupt, Data [7, 8]], None) 2
     = Some (Inr [7, 8], ([], Some Interrupted))"
  using interrupted_read_fails_the_call [of "[7, 8]" "\<lambda>e. e"] by (simp add: numeral_2_eq_2)

end
