(* ===== verification/Decrypt.thy ===== *)
theory Decrypt
  imports Classify Io_Latch
begin

text \<open>
  The verdicts, screens and key derivation of \<^verbatim>\<open>src/decrypt.rs\<close>.  The hash functions, PBKDF2 and the
  argon2 crate are the fields of \<^verbatim>\<open>crypto\<close>; the host decides allocations.  The lemmas show that a
  member is screened exactly for the shapes its cipher can run, that every refusal names a bound
  really broken, and that key derivation past the screens can fail only on a cost or on the host.
\<close>

section \<open>Errors\<close>

datatype allocation_site =
    KeyDerivation
  | DerivedKeySite
  | MemberPlaintext
  | PackagePlaintext
  | CipherBuffer
  | StreamBuffer
  | KdfThread

fun allocation_site_text :: "allocation_site \<Rightarrow> string" where
  "allocation_site_text KeyDerivation = ''key derivation''"
| "allocation_site_text DerivedKeySite = ''the derived-key buffer''"
| "allocation_site_text MemberPlaintext = ''a decrypted package member''"
| "allocation_site_text PackagePlaintext = ''the decrypted package''"
| "allocation_site_text CipherBuffer = ''a cipher buffer''"
| "allocation_site_text StreamBuffer = ''a streaming buffer''"
| "allocation_site_text KdfThread = ''an Argon2id lane thread's stack''"

datatype decrypt_error =
    ClassifyError detect_error
  | NotEncrypted
  | EmptyPassword
  | UnsupportedPgp
  | Odf12Fatal
  | WrongPassword
  | BadParameters bad_parameter
  | Internal string
  | HostCannotAllocate allocation_site nat
  | Inflate string
  | ZipError string
  | OutputLimit nat
  | Io io_error

definition try_zeroed :: "host \<Rightarrow> nat \<Rightarrow> allocation_site \<Rightarrow> decrypt_error + bytes" where
  "try_zeroed h n site =
    (if host_reserves h n then Ok (replicate n 0) else Err (HostCannotAllocate site n))"

section \<open>Screening the classification\<close>

definition ensure_encrypted_entry_count :: "nat \<Rightarrow> nat \<Rightarrow> decrypt_error + unit" where
  "ensure_encrypted_entry_count n cap =
    (if n > cap then Err (BadParameters (OutOfRange EncryptedEntries (wide n) 0 (wide cap))) else Ok ())"

text \<open>\<^verbatim>\<open>u64::try_from(row.size).unwrap_or(0)\<close>.\<close>

definition declared :: "entry_encryption \<Rightarrow> nat" where
  "declared row = nat (ee_size row)"

definition screen_output_limit :: "classification \<Rightarrow> nat \<Rightarrow> decrypt_error + unit" where
  "screen_output_limit class limit =
    (let total = (case cl_mode class of
         Wholesome \<Rightarrow> (case wholesome_row class of None \<Rightarrow> 0 | Some row \<Rightarrow> declared row)
       | _ \<Rightarrow> foldl (\<lambda>acc row. saturating_add64 acc (declared row)) 0 (cl_encrypted_entries class))
     in if total > limit then Err (OutputLimit limit) else Ok ())"

definition screen_class :: "classification \<Rightarrow> decrypt_limits \<Rightarrow> decrypt_error + unit" where
  "screen_class class limits =
    (if cl_mode class = Plain then Err NotEncrypted
     else if cl_odf12_fatal class then Err Odf12Fatal
     else if \<exists>e \<in> set (cl_encrypted_entries class). ee_kdf e = PgpRsaOaepMgf1p then Err UnsupportedPgp
     else and_then (ensure_encrypted_entry_count (length (cl_encrypted_entries class))
                      max_encrypted_entries)
       (\<lambda>_. screen_output_limit class (max_output limits)))"

section \<open>Finding members and rows\<close>

text \<open>
  \<^verbatim>\<open>member_for_archive\<close>: the first directory entry whose name matches the path; an entry that cannot be
  opened before it is reached is an error.
\<close>

fun member_from_index :: "nat \<Rightarrow> archive \<Rightarrow> string \<Rightarrow> decrypt_error \<Rightarrow> decrypt_error + nat \<times> string" where
  "member_from_index i [] path missing = Err missing"
| "member_from_index i (Inl message # rest) path missing = Err (ZipError message)"
| "member_from_index i (Inr e # rest) path missing =
    (let name = zip_entry_name (ze_raw_name e) in
     if member_matches_path name path then Ok (i, name)
     else member_from_index (i + 1) rest path missing)"

definition member_for_archive :: "archive \<Rightarrow> string \<Rightarrow> decrypt_error \<Rightarrow> decrypt_error + nat \<times> string" where
  "member_for_archive archive path missing = member_from_index 0 archive path missing"

definition no_member :: "nat \<Rightarrow> decrypt_error" where
  "no_member row = BadParameters (NoMember row)"

text \<open>\<^verbatim>\<open>decrypt::wholesome_row\<close>: the row with its index; the first match of an enumerated search.\<close>

definition wholesome_row_at :: "classification \<Rightarrow> decrypt_error + nat \<times> entry_encryption" where
  "wholesome_row_at class =
    (case find (\<lambda>(i, e). cl_mode class = Wholesome \<and> ee_path e = encrypted_package)
            (List.enumerate 0 (cl_encrypted_entries class)) of
       Some r \<Rightarrow> Ok r
     | None \<Rightarrow> Err (Internal ''a wholesome classification without its encrypted-package row''))"

section \<open>Deriving a key\<close>

fun from_kdf_error :: "kdf_error \<Rightarrow> decrypt_error" where
  "from_kdf_error (KdfParams b) = BadParameters b"
| "from_kdf_error (KdfInternal s) = Internal s"
| "from_kdf_error (KdfCannotAllocate n) = HostCannotAllocate KeyDerivation n"
| "from_kdf_error (KdfCannotSpawn n) = HostCannotAllocate KdfThread n"

text \<open>The iteration count of PBKDF2, checked as an unsigned 32-bit number; the refusal keeps its sign.\<close>

definition pbkdf2_screen :: "decrypt_limits \<Rightarrow> int \<Rightarrow> decrypt_error + nat" where
  "pbkdf2_screen limits iterations =
    (let out_of_range = (\<lambda>got. BadParameters (OutOfRange IterationCount got pbkdf2_min_iter
                                  (int (pbkdf2_max_iterations limits)))) in
     case u32_try_from iterations of
       None \<Rightarrow> Err (out_of_range iterations)
     | Some iters \<Rightarrow>
         if \<not> (nat pbkdf2_min_iter \<le> iters \<and> iters \<le> pbkdf2_max_iterations limits)
         then Err (out_of_range (int iters)) else Ok iters)"

definition derive_key ::
    "crypto \<Rightarrow> host \<Rightarrow> entry_encryption \<Rightarrow> bytes \<Rightarrow> decrypt_limits \<Rightarrow> decrypt_error + bytes" where
  "derive_key cr h row sk limits =
    (let n = ee_derived_key_len row in
     if \<not> (derived_key_min_len \<le> n \<and> n \<le> derived_key_max_len)
     then Err (Internal ''derive_key reached with a derived key length screen_shape refuses'')
     else
       and_then (try_zeroed h (nat n) DerivedKeySite) (\<lambda>derived.
         case ee_kdf row of
           Pbkdf2 iterations salt \<Rightarrow>
             and_then (pbkdf2_screen limits iterations) (\<lambda>iters.
               Ok (lib_pbkdf2 cr sk salt iters (length derived)))
         | Argon2id t m p salt \<Rightarrow>
             map_err from_kdf_error
               (derive_argon2id (lib_argon2 cr) h sk salt t m p limits (length derived))
         | PgpRsaOaepMgf1p \<Rightarrow>
             Err (Internal ''PGP row reached derive_key; decrypt screens PGP before deriving'')))"

section \<open>Screening a member\<close>

definition cipher_accepts_key_len :: "cipher \<Rightarrow> int \<Rightarrow> bool" where
  "cipher_accepts_key_len c n =
    (case c of
       BlowfishCfb8 \<Rightarrow> 4 \<le> n \<and> n \<le> 56
     | _ \<Rightarrow> n = 16 \<or> n = 24 \<or> n = 32)"

definition screen_iv_len :: "entry_encryption \<Rightarrow> primitive \<Rightarrow> nat \<Rightarrow> decrypt_error + unit" where
  "screen_iv_len row by want =
    (if length (ee_iv row) = want then Ok ()
     else Err (BadParameters (CipherRejects IvLen by (wide (length (ee_iv row))) (wide want) (wide want))))"

definition screen_member :: "entry_encryption \<Rightarrow> nat \<Rightarrow> bytes \<Rightarrow> decrypt_error + unit" where
  "screen_member row len head =
    (case ee_cipher row of
       AesGcmW3c \<Rightarrow>
         and_then (screen_iv_len row PrimAesGcm aes_gcm_iv_len) (\<lambda>_.
           if len < aes_gcm_iv_len + aes_gcm_tag_len \<or> length head < aes_gcm_iv_len
             then Err (BadParameters (MemberBad ShorterThanIvAndTag))
           else if take aes_gcm_iv_len head \<noteq> ee_iv row
             then Err (BadParameters (MemberBad IvMismatch))
           else Ok ())
     | AesCbcW3c \<Rightarrow>
         and_then (screen_iv_len row PrimAesCbc aes_cbc_iv_len) (\<lambda>_.
           if len = 0 \<or> len mod aes_block_len \<noteq> 0
             then Err (BadParameters (MemberBad NotBlockMultiple))
           else Ok ())
     | BlowfishCfb8 \<Rightarrow> screen_iv_len row PrimBlowfish blowfish_iv_len)"

definition screen_shape :: "entry_encryption \<Rightarrow> nat \<Rightarrow> bytes \<Rightarrow> decrypt_error + unit" where
  "screen_shape row len head =
    (if \<not> cipher_accepts_key_len (ee_cipher row) (ee_derived_key_len row)
     then Err (BadParameters (KeySizeForCipher (ee_derived_key_len row) (ee_cipher row)))
     else screen_member row len head)"

definition inflated_len :: "int \<Rightarrow> decrypt_error + nat" where
  "inflated_len sz =
    (if \<not> (0 \<le> sz \<and> sz \<le> int inflate_ceiling)
     then Err (BadParameters (OutOfRange SizeField sz 0 (wide inflate_ceiling)))
     else Ok (nat sz))"

section \<open>What the screens let through\<close>

text \<open>The shapes a cipher can run on: reference specification of \<^verbatim>\<open>screen_shape\<close>.\<close>

definition runs_on :: "entry_encryption \<Rightarrow> nat \<Rightarrow> bytes \<Rightarrow> bool" where
  "runs_on row len head \<longleftrightarrow>
    (case ee_cipher row of
       AesGcmW3c \<Rightarrow> ee_derived_key_len row \<in> {16, 24, 32} \<and> length (ee_iv row) = 12
         \<and> 28 \<le> len \<and> take 12 head = ee_iv row
     | AesCbcW3c \<Rightarrow> ee_derived_key_len row \<in> {16, 24, 32} \<and> length (ee_iv row) = 16
         \<and> 0 < len \<and> 16 dvd len
     | BlowfishCfb8 \<Rightarrow> ee_derived_key_len row \<in> {4..56} \<and> length (ee_iv row) = 8)"

lemma wide_small [simp]: "n < 2 ^ 63 \<Longrightarrow> wide n = int n"
  by (simp add: wide_def int_limits)

lemma wide_eq_small: "m < 2 ^ 62 \<Longrightarrow> wide n = int m \<longleftrightarrow> n = m"
  by (auto simp: wide_def int_limits)

lemma screen_iv_len_Ok [simp]: "screen_iv_len row by want = Inr u \<longleftrightarrow> length (ee_iv row) = want"
  by (simp add: screen_iv_len_def)

lemma screen_shape_Ok: "screen_shape row len head = Inr () \<longleftrightarrow> runs_on row len head"
proof (cases "ee_cipher row")
  case AesGcmW3c
  have "take 12 head = ee_iv row \<Longrightarrow> length (ee_iv row) = 12 \<Longrightarrow> \<not> length head < 12"
    by (drule arg_cong [where f = length]) simp
  with AesGcmW3c show ?thesis
    by (auto simp: screen_shape_def screen_member_def runs_on_def cipher_accepts_key_len_def
        aes_gcm_iv_len_def aes_gcm_tag_len_def)
next
  case AesCbcW3c
  then show ?thesis
    by (auto simp: screen_shape_def screen_member_def runs_on_def cipher_accepts_key_len_def
        aes_cbc_iv_len_def aes_block_len_def dvd_eq_mod_eq_0)
next
  case BlowfishCfb8
  then show ?thesis
    by (auto simp: screen_shape_def screen_member_def runs_on_def cipher_accepts_key_len_def
        blowfish_iv_len_def)
qed

lemma screen_iv_len_refusal:
  assumes "screen_iv_len row by want = Inl e" "want < 2 ^ 62"
  shows "\<exists>b. e = BadParameters b \<and> refusal_true b"
proof -
  from assms(1) have ne: "length (ee_iv row) \<noteq> want"
    and e: "e = BadParameters (CipherRejects IvLen by (wide (length (ee_iv row))) (wide want) (wide want))"
    by (auto simp: screen_iv_len_def split: if_splits)
  have "wide want = int want" using assms(2) by simp
  with ne assms(2) have "wide (length (ee_iv row)) \<noteq> wide want" by (simp add: wide_eq_small)
  then have "refusal_true (CipherRejects IvLen by (wide (length (ee_iv row))) (wide want) (wide want))"
    unfolding refusal_true.simps by linarith
  with e show ?thesis by blast
qed

lemma screen_shape_refusal:
  assumes "screen_shape row len head = Inl e"
  shows "\<exists>b. e = BadParameters b \<and> refusal_true b"
  using assms screen_iv_len_refusal [of row]
  by (cases "ee_cipher row")
     (auto simp: screen_shape_def screen_member_def and_then_Err aes_gcm_iv_len_def aes_cbc_iv_len_def
       blowfish_iv_len_def split: if_splits)

lemma screen_shape_key_len:
  "screen_shape row len head = Inr () \<Longrightarrow>
    derived_key_min_len \<le> ee_derived_key_len row \<and> ee_derived_key_len row \<le> derived_key_max_len"
  unfolding screen_shape_Ok
  by (auto simp: runs_on_def derived_key_min_len_def derived_key_max_len_def split: cipher.splits)

lemma saturating_foldl:
  "acc \<le> u64_max \<Longrightarrow>
    foldl (\<lambda>acc row. saturating_add64 acc (f row)) acc rows = min (acc + sum_list (map f rows)) u64_max"
proof (induction rows arbitrary: acc)
  case (Cons r rows)
  have "foldl (\<lambda>acc row. saturating_add64 acc (f row)) (saturating_add64 acc (f r)) rows
    = min (saturating_add64 acc (f r) + sum_list (map f rows)) u64_max"
    by (rule Cons.IH) (simp add: saturating_add64_def)
  then show ?case by (simp add: saturating_add64_def)
qed simp

text \<open>What a package's rows declare as output: the wholesome row alone, or every row.\<close>

definition declared_output :: "classification \<Rightarrow> nat" where
  "declared_output c =
    (if cl_mode c = Wholesome then (case wholesome_row c of None \<Rightarrow> 0 | Some row \<Rightarrow> declared row)
     else sum_list (map declared (cl_encrypted_entries c)))"

lemma screen_output_limit_Ok:
  "limit < u64_max \<Longrightarrow> screen_output_limit c limit = Inr () \<longleftrightarrow> declared_output c \<le> limit"
  using saturating_foldl [of 0 declared "cl_encrypted_entries c"]
  by (cases "cl_mode c") (auto simp: screen_output_limit_def declared_output_def Let_def)

lemma screen_class_Ok:
  assumes "max_output limits < u64_max"
  shows "screen_class c limits = Inr () \<longleftrightarrow>
     cl_mode c \<noteq> Plain \<and> \<not> cl_odf12_fatal c \<and> PgpRsaOaepMgf1p \<notin> ee_kdf ` set (cl_encrypted_entries c)
   \<and> length (cl_encrypted_entries c) \<le> 4096 \<and> declared_output c \<le> max_output limits"
proof -
  have "PgpRsaOaepMgf1p \<notin> ee_kdf ` set (cl_encrypted_entries c) \<longleftrightarrow>
    \<not> (\<exists>e \<in> set (cl_encrypted_entries c). ee_kdf e = PgpRsaOaepMgf1p)"
    unfolding image_iff by metis
  with assms show ?thesis
    by (simp add: screen_class_def ensure_encrypted_entry_count_def max_encrypted_entries_def
        screen_output_limit_Ok)
qed

section \<open>What derivation can answer\<close>

lemma pbkdf2_screen_Ok:
  "pbkdf2_screen limits i = Inr n \<longleftrightarrow>
    i = int n \<and> n \<le> u32_max \<and> 1 \<le> n \<and> n \<le> pbkdf2_max_iterations limits"
  by (auto simp: pbkdf2_screen_def Let_def pbkdf2_min_iter_def split: option.splits if_splits)

lemma pbkdf2_screen_refusal:
  "pbkdf2_screen limits i = Inl e \<Longrightarrow> i \<le> i32_max \<Longrightarrow> \<exists>b. e = BadParameters b \<and> refusal_true b"
  by (auto simp: pbkdf2_screen_def Let_def pbkdf2_min_iter_def int_limits
      split: option.splits if_splits)

text \<open>
  The documented behaviour of the crates: \<^verbatim>\<open>pbkdf2_hmac\<close> fills its output; argon2's \<^verbatim>\<open>Params::new\<close> takes
  every tuple inside argon2's own bounds, and the hash of such a tuple fills its output.
\<close>

definition crypto_documented :: "crypto \<Rightarrow> bool" where
  "crypto_documented cr \<longleftrightarrow>
     (\<forall>key salt iters n. length (lib_pbkdf2 cr key salt iters n) = n)
   \<and> (\<forall>m t p n. 1 \<le> t \<longrightarrow> 1 \<le> p \<longrightarrow> p \<le> 0xFFFFFF \<longrightarrow> 8 * p \<le> m \<longrightarrow> 4 \<le> n \<longrightarrow>
        (\<exists>k. params_new (lib_argon2 cr) m t p n = Inr k))
   \<and> (\<forall>key salt m t p n. 8 \<le> length salt \<longrightarrow> length salt \<le> 0xFFFFFFFF \<longrightarrow> 4 \<le> n \<longrightarrow>
        (\<exists>out. hash_argon2 (lib_argon2 cr) key salt t m p n = Inr out \<and> length out = n))"

lemma derive_argon2id_outcomes:
  assumes cr: "crypto_documented cr" and n: "4 \<le> n"
    and r: "t0 \<le> i32_max" "m0 \<le> i32_max" "p0 \<le> i32_max"
  shows "case derive_argon2id (lib_argon2 cr) h key salt t0 m0 p0 limits n of
      Inr out \<Rightarrow> length out = n
    | Inl (KdfParams b) \<Rightarrow> refusal_true b
    | Inl (KdfInternal s) \<Rightarrow> False
    | _ \<Rightarrow> True"
proof (cases "argon2_screen limits t0 m0 p0 (length salt)")
  case (Inl e)
  with argon2_screen_true [OF Inl r] show ?thesis by (auto simp: derive_argon2id_def)
next
  case (Inr tmp)
  obtain t m p where s: "argon2_screen limits t0 m0 p0 (length salt) = Inr (t, m, p)"
    using Inr by (cases tmp) auto
  note in_range = s [unfolded argon2_screen_Ok]
  have range: "1 \<le> t" "1 \<le> p" "p \<le> 0xFFFFFF" "8 * p \<le> m" "8 \<le> length salt"
      "length salt \<le> 0xFFFFFFFF"
    using in_range by blast+
  obtain k where k: "params_new (lib_argon2 cr) m t p n = Inr k"
    using cr n range unfolding crypto_documented_def by blast
  obtain out where out: "hash_argon2 (lib_argon2 cr) key salt t m p n = Inr out" "length out = n"
    using cr n range unfolding crypto_documented_def by blast
  show ?thesis
    by (simp add: derive_argon2id_def s k out Let_def on_lane_threads_def)
qed

lemma derive_key_outcomes:
  assumes cr: "crypto_documented cr" and "screen_shape row len head = Inr ()"
    and "entry_ok row" "ee_kdf row \<noteq> PgpRsaOaepMgf1p"
  shows "case derive_key cr h row sk limits of
      Inr key \<Rightarrow> int (length key) = ee_derived_key_len row
    | Inl (BadParameters b) \<Rightarrow> refusal_true b
    | Inl (HostCannotAllocate site n) \<Rightarrow> True
    | _ \<Rightarrow> False"
proof -
  note len = screen_shape_key_len [OF assms(2)]
  have four: "4 \<le> ee_derived_key_len row"
    using assms(2) unfolding screen_shape_Ok by (auto simp: runs_on_def split: cipher.splits)
  define n where "n = nat (ee_derived_key_len row)"
  have n: "int n = ee_derived_key_len row" "4 \<le> n" using four by (simp_all add: n_def)
  show ?thesis
  proof (cases "host_reserves h n")
    case False
    then show ?thesis using len by (simp add: derive_key_def Let_def try_zeroed_def n_def)
  next
    case reserves: True
    show ?thesis
    proof (cases "ee_kdf row")
      case (Pbkdf2 i salt)
      then have i: "i \<le> i32_max" using assms(3) by (simp add: entry_ok_def in_i32_def)
      show ?thesis
      proof (cases "pbkdf2_screen limits i")
        case (Inl e)
        with pbkdf2_screen_refusal [OF Inl i] Pbkdf2 len reserves show ?thesis
          by (auto simp: derive_key_def Let_def try_zeroed_def n_def)
      next
        case (Inr k)
        have "length (lib_pbkdf2 cr sk salt k n) = n" using cr by (simp add: crypto_documented_def)
        with Inr Pbkdf2 len reserves n show ?thesis
          by (simp add: derive_key_def Let_def try_zeroed_def flip: n_def)
      qed
    next
      case (Argon2id t m p salt)
      then have "t \<le> i32_max" "m \<le> i32_max" "p \<le> i32_max"
        using assms(3) by (simp_all add: entry_ok_def in_i32_def)
      note out = derive_argon2id_outcomes [OF cr n(2) this, of h sk salt limits]
      have step: "derive_key cr h row sk limits
          = map_err from_kdf_error (derive_argon2id (lib_argon2 cr) h sk salt t m p limits n)"
        using Argon2id len reserves by (simp add: derive_key_def Let_def try_zeroed_def flip: n_def)
      show ?thesis
      proof (cases "derive_argon2id (lib_argon2 cr) h sk salt t m p limits n")
        case (Inl e)
        then show ?thesis using out by (cases e) (simp_all add: step)
      next
        case (Inr k)
        then show ?thesis using out n by (simp add: step)
      qed
    qed (use assms(4) in simp)
  qed
qed

lemma find_enumerate:
  "find (\<lambda>(i, e). P e) (List.enumerate k xs)
    = (case find P xs of None \<Rightarrow> None
       | Some x \<Rightarrow> Some (k + length (takeWhile (\<lambda>e. \<not> P e) xs), x))"
  by (induction xs arbitrary: k) (auto split: option.splits)

lemma find_takeWhile:
  "find P xs = Some x \<Longrightarrow>
    length (takeWhile (\<lambda>e. \<not> P e) xs) < length xs \<and> xs ! length (takeWhile (\<lambda>e. \<not> P e) xs) = x"
  by (induction xs) (auto split: if_splits)

lemma wholesome_row_at_find:
  assumes "cl_mode c = Wholesome"
  shows "wholesome_row_at c = (case wholesome_row c of
      None \<Rightarrow> Inl (Internal ''a wholesome classification without its encrypted-package row'')
    | Some e \<Rightarrow> Inr (length (takeWhile (\<lambda>e. ee_path e \<noteq> encrypted_package) (cl_encrypted_entries c)), e))"
  using assms by (simp add: wholesome_row_at_def wholesome_row_def find_enumerate split: option.split)

lemma member_from_index_Ok:
  "member_from_index i archive path missing = Inr (j, name) \<Longrightarrow>
    i \<le> j \<and> j - i < length archive \<and> member_matches_path name path
    \<and> (\<exists>e. archive ! (j - i) = Inr e \<and> name = zip_entry_name (ze_raw_name e))
    \<and> (\<forall>l < j - i. \<exists>e. archive ! l = Inr e \<and> \<not> member_matches_path (zip_entry_name (ze_raw_name e)) path)"
proof (induction i archive path missing rule: member_from_index.induct)
  case (3 i e rest path missing)
  show ?case
  proof (cases "member_matches_path (zip_entry_name (ze_raw_name e)) path")
    case True
    with 3(2) show ?thesis by (auto simp: Let_def)
  next
    case False
    with 3(2) have "member_from_index (i + 1) rest path missing = Inr (j, name)" by (simp add: Let_def)
    from 3(1) [OF refl False this]
    have ih: "i + 1 \<le> j" "j - (i + 1) < length rest" "member_matches_path name path"
      "\<exists>e. rest ! (j - (i + 1)) = Inr e \<and> name = zip_entry_name (ze_raw_name e)"
      "\<forall>l < j - (i + 1). \<exists>e. rest ! l = Inr e
        \<and> \<not> member_matches_path (zip_entry_name (ze_raw_name e)) path" by auto
    have suc: "j - i = Suc (j - (i + 1))" using ih(1) by simp
    have all: "\<forall>l < Suc (j - (i + 1)). \<exists>e'. (Inr e # rest) ! l = Inr e'
        \<and> \<not> member_matches_path (zip_entry_name (ze_raw_name e')) path"
      using ih(5) False by (auto simp: less_Suc_eq_0_disj)
    show ?thesis unfolding suc using ih(1-4) all by auto
  qed
qed simp_all

section \<open>Properties\<close>

text \<open>
  C15. The shape screen passes exactly the members a cipher can run on, and a refusal names a number that
  is really outside the range it quotes.
\<close>

theorem screen_shape_exact:
  "(screen_shape row len head = Inr () \<longleftrightarrow> runs_on row len head)
   \<and> (case screen_shape row len head of
        Inr _ \<Rightarrow> True
      | Inl (BadParameters b) \<Rightarrow> refusal_true b
      | Inl _ \<Rightarrow> False)"
proof (cases "screen_shape row len head")
  case (Inl e)
  then have "\<not> runs_on row len head" by (simp flip: screen_shape_Ok)
  with screen_shape_refusal [OF Inl] Inl show ?thesis by auto
next
  case (Inr u)
  with screen_shape_Ok [of row len head] show ?thesis by simp
qed

text \<open>
  C16. A key derivation that the screens let start ends with a key of the declared length, a refusal of a
  cost whose numbers are true, or a host that is out of memory or threads: never with the error for
  a broken invariant.
\<close>

theorem derivation_never_internal:
  assumes "crypto_documented cr" "screen_class c limits = Inr ()" "row \<in> set (cl_encrypted_entries c)"
    and "entry_ok row" "screen_shape row len head = Inr ()"
  shows "case derive_key cr h row sk limits of
      Inr key \<Rightarrow> int (length key) = ee_derived_key_len row
    | Inl (BadParameters b) \<Rightarrow> refusal_true b
    | Inl (HostCannotAllocate site n) \<Rightarrow> True
    | _ \<Rightarrow> False"
proof -
  have "ee_kdf row \<noteq> PgpRsaOaepMgf1p"
    using assms(2,3) by (auto simp: screen_class_def split: if_splits)
  with derive_key_outcomes [OF assms(1,5,4)] show ?thesis by blast
qed

definition sample_row :: entry_encryption where
  "sample_row = \<lparr>ee_path = encrypted_package, ee_cipher = AesGcmW3c,
     ee_kdf = Argon2id 3 65536 4 (replicate 16 9), ee_start_key = Sha256, ee_checksum = NoChecksum,
     ee_size = 100, ee_iv = replicate 12 7, ee_derived_key_len = 32\<rparr>"

definition sample_class :: classification where
  "sample_class = \<lparr>cl_mode = Wholesome, cl_package_encrypted = True,
     cl_has_non_encrypted_entries = False, cl_odf_version = None, cl_zip_has_encrypted_package = True,
     cl_media_type = None, cl_common = Some sample_row, cl_encrypted_entries = [sample_row],
     cl_has_unexpected_streams = False, cl_odf12_fatal = False, cl_pgp_keys = []\<rparr>"

lemma sample_row_key: "ee_derived_key_len sample_row = 32"
  by (simp add: sample_row_def)

lemma sample_crypto_documented: "crypto_documented sample_crypto"
  by (auto simp: crypto_documented_def sample_crypto_def sample_argon2_def min_def)

lemma sample_screened: "screen_class sample_class default_limits = Inr ()"
  by (simp add: screen_class_Ok default_limits_def max_output_bytes_def u64_max_def sample_class_def
      declared_output_def wholesome_row_def sample_row_def declared_def)

lemma sample_entry_ok: "entry_ok sample_row"
  by (simp add: entry_ok_def sample_row_def in_i32_def in_i64_def int_limits)

lemma sample_runs: "screen_shape sample_row 40 (replicate 12 7) = Inr ()"
  by (simp add: screen_shape_Ok runs_on_def sample_row_def)

theorem derivation_never_internal_witness:
  "case derive_key sample_crypto rich_host sample_row [1, 2, 3] default_limits of
      Inr key \<Rightarrow> int (length key) = 32
    | Inl (BadParameters b) \<Rightarrow> refusal_true b
    | Inl (HostCannotAllocate site n) \<Rightarrow> True
    | _ \<Rightarrow> False"
proof -
  have "sample_row \<in> set (cl_encrypted_entries sample_class)" by (simp add: sample_class_def)
  from derivation_never_internal [OF sample_crypto_documented sample_screened this sample_entry_ok
      sample_runs, of rich_host "[1, 2, 3]", unfolded sample_row_key]
  show ?thesis .
qed



text \<open>
  C0. A package classified as wholesome has its row: the look-up that decryption starts with returns the
  row the classification names, with the index of its first occurrence.
\<close>

theorem wholesome_row_is_found:
  assumes "classify_latched xml_events (Some archive) = Inr c" "cl_mode c = Wholesome"
  shows "\<exists>i row. wholesome_row_at c = Inr (i, row) \<and> wholesome_row c = Some row
    \<and> i < length (cl_encrypted_entries c) \<and> cl_encrypted_entries c ! i = row
    \<and> ee_path row = encrypted_package \<and> entry_ok row"
proof -
  from classify_steps [OF assms(1)] obtain t where "classification_ok t c" by blast
  from classification_ok_wholesome_row [OF this assms(2)] obtain row where
    row: "wholesome_row c = Some row" "ee_path row = encrypted_package" "entry_ok row" by blast
  let ?i = "length (takeWhile (\<lambda>e. ee_path e \<noteq> encrypted_package) (cl_encrypted_entries c))"
  have at: "wholesome_row_at c = Inr (?i, row)"
    by (simp add: wholesome_row_at_find assms(2) row)
  have find: "find (\<lambda>e. ee_path e = encrypted_package) (cl_encrypted_entries c) = Some row"
    using row(1) assms(2) by (simp add: wholesome_row_def)
  have "?i < length (cl_encrypted_entries c) \<and> cl_encrypted_entries c ! ?i = row"
    using find_takeWhile [OF find] .
  with at row show ?thesis by blast
qed
end
