(* ===== verification/Strip_Manifest.thy ===== *)
theory Strip_Manifest
  imports Decrypt
begin

text \<open>
  The manifest rewrite of \<^verbatim>\<open>src/decrypt.rs\<close>: \<^verbatim>\<open>strip_manifest\<close> copies the event stream, dropping every
  \<^verbatim>\<open>encryption-data\<close> element and the \<^verbatim>\<open>manifest:size\<close> of every file entry.  The reader of \<^verbatim>\<open>quick_xml\<close> is a
  parameter; the model is the loop over its events, whose names and attributes are raw bytes, and the
  bytes of the tags that are written.  The lemmas show that the loop with its depth counter is the removal
  of subtrees from the document, and that what it leaves is a plain package's manifest: Stage A finds no
  size, so Stage B accepts no row.  That needs an ordinary manifest: attribute values are copied raw
  between double quotes, so one that holds a double quote becomes markup, and the last property shows what
  can be passed through that way.
\<close>

section \<open>The rewrite\<close>

text \<open>
  Events without empty-element expansion.  A malformed attribute is \<^const>\<open>None\<close>; \<^verbatim>\<open>RawOther\<close> is text, a
  comment, a declaration, a reference or anything else that is not a tag.
\<close>

datatype raw_other =
    OtherText "string option"
  | OtherCData "string option"
  | OtherRef "string option"
  | OtherMisc

datatype raw_event =
    RawStart string "(string \<times> string) option list"
  | RawEnd string
  | RawEmpty string "(string \<times> string) option list"
  | RawOther raw_other
  | RawError string

definition is_manifest_size_attr :: "string \<Rightarrow> bool" where
  "is_manifest_size_attr key \<longleftrightarrow> suffix '':size'' key \<or> key = ''size''"

text \<open>\<^verbatim>\<open>local_name\<close> of \<^verbatim>\<open>quick_xml\<close>: what follows the first colon, or the whole name.\<close>

definition local_name :: "string \<Rightarrow> string" where
  "local_name name =
    (let rest = dropWhile (\<lambda>c. c \<noteq> CHR '':'') name in if rest = [] then name else tl rest)"

definition encryption_data :: string where "encryption_data = ''encryption-data''"
definition file_entry :: string where "file_entry = ''file-entry''"

text \<open>\<^verbatim>\<open>without_size\<close>: the tag's name and the attributes that stay; malformed ones are dropped.\<close>

definition without_size ::
    "string \<Rightarrow> (string \<times> string) option list \<Rightarrow> string \<times> (string \<times> string) option list" where
  "without_size name attrs =
    (let strip_size = (local_name name = file_entry);
         kept = filter (\<lambda>a. case a of None \<Rightarrow> False
                             | Some (key, _) \<Rightarrow> \<not> (strip_size \<and> is_manifest_size_attr key)) attrs
     in (from_utf8_lossy name, kept))"

text \<open>\<^verbatim>\<open>write_event\<close> into a vector, which cannot fail: the events go in front of what the rest writes.\<close>

fun emit :: "raw_event list \<Rightarrow> decrypt_error + raw_event list \<Rightarrow> decrypt_error + raw_event list" where
  "emit evs (Inl e) = Inl e"
| "emit evs (Inr out) = Inr (evs @ out)"

lemma emit_Nil [simp]: "emit [] r = r"
  by (cases r) auto

lemma emit_emit [simp]: "emit xs (emit ys r) = emit (xs @ ys) r"
  by (cases r) auto

lemma emit_Ok: "emit evs r = Inr out \<longleftrightarrow> (\<exists>rest. r = Inr rest \<and> out = evs @ rest)"
  by (cases r) auto

text \<open>
  The loop.  The counter is a \<^verbatim>\<open>u32\<close> that grows by one per start tag inside a skipped element; a
  manifest is at most 8 MiB, so it cannot wrap.
\<close>

fun strip_from :: "raw_event list \<Rightarrow> nat \<Rightarrow> decrypt_error + raw_event list" where
  "strip_from [] skip_depth = Ok []"
| "strip_from (RawStart name attrs # evs) skip_depth =
    (if skip_depth > 0 then strip_from evs (skip_depth + 1)
     else if local_name name = encryption_data then strip_from evs 1
     else emit [case without_size name attrs of (n, as) \<Rightarrow> RawStart n as]
            (strip_from evs skip_depth))"
| "strip_from (RawEnd name # evs) skip_depth =
    (if skip_depth > 0 then strip_from evs (skip_depth - 1)
     else emit [RawEnd name] (strip_from evs skip_depth))"
| "strip_from (RawEmpty name attrs # evs) skip_depth =
    (if skip_depth > 0 then strip_from evs skip_depth
     else if local_name name = encryption_data then strip_from evs skip_depth
     else emit [case without_size name attrs of (n, as) \<Rightarrow> RawEmpty n as]
            (strip_from evs skip_depth))"
| "strip_from (RawOther e # evs) skip_depth =
    (if skip_depth > 0 then strip_from evs skip_depth
     else emit [RawOther e] (strip_from evs skip_depth))"
| "strip_from (RawError message # evs) skip_depth = Err (ZipError message)"

definition strip_manifest :: "raw_event list \<Rightarrow> decrypt_error + raw_event list" where
  "strip_manifest evs = strip_from evs 0"

section \<open>The rewrite removes subtrees\<close>

text \<open>A document: what the reader reports for a well-nested one.\<close>

datatype xml_node =
    Element string "(string \<times> string) option list" "xml_node list" string
  | Empty string "(string \<times> string) option list"
  | Misc raw_other

fun flatten :: "xml_node \<Rightarrow> raw_event list" where
  "flatten (Element n as kids e) = RawStart n as # concat (map flatten kids) @ [RawEnd e]"
| "flatten (Empty n as) = [RawEmpty n as]"
| "flatten (Misc e) = [RawOther e]"

fun strip_node :: "xml_node \<Rightarrow> xml_node list" where
  "strip_node (Element n as kids e) =
    (if local_name n = encryption_data then []
     else (case without_size n as of (n', as') \<Rightarrow>
             [Element n' as' (concat (map strip_node kids)) e]))"
| "strip_node (Empty n as) =
    (if local_name n = encryption_data then []
     else (case without_size n as of (n', as') \<Rightarrow> [Empty n' as']))"
| "strip_node (Misc e) = [Misc e]"

abbreviation flatten_all :: "xml_node list \<Rightarrow> raw_event list" where
  "flatten_all ns \<equiv> concat (map flatten ns)"

lemma strip_skips:
  "strip_from (flatten n @ evs) (Suc d) = strip_from evs (Suc d)"
proof (induction n arbitrary: evs d)
  case (Element n as kids e)
  have "strip_from (flatten_all kids @ evs') (Suc d') = strip_from evs' (Suc d')" for evs' d'
    using Element.IH by (induction kids arbitrary: evs') auto
  from this [of "RawEnd e # evs" "Suc d"] show ?case by simp
qed simp_all

lemma strip_skips_all:
  "strip_from (flatten_all ns @ evs) (Suc d) = strip_from evs (Suc d)"
  by (induction ns arbitrary: evs) (auto simp: strip_skips)

lemma strip_node_events:
  "strip_from (flatten n @ evs) 0 = emit (flatten_all (strip_node n)) (strip_from evs 0)"
proof (induction n arbitrary: evs)
  case (Element n as kids e)
  have all: "strip_from (flatten_all kids @ evs') 0
      = emit (flatten_all (concat (map strip_node kids))) (strip_from evs' 0)" for evs'
    using Element.IH
    by (induction kids arbitrary: evs') auto
  show ?case
  proof (cases "local_name n = encryption_data")
    case True
    then show ?thesis using strip_skips_all [of kids "RawEnd e # evs" 0]
      by simp
  next
    case False
    then show ?thesis using all [of "RawEnd e # evs"]
      by (simp split: prod.split)
  qed
qed (auto split: prod.split)

lemma strip_document: "strip_manifest (flatten_all ns) = Inr (flatten_all (concat (map strip_node ns)))"
proof -
  have "strip_from (flatten_all ns @ evs) 0
      = emit (flatten_all (concat (map strip_node ns))) (strip_from evs 0)" for evs
    by (induction ns arbitrary: evs) (auto simp: strip_node_events)
  from this [of "[]"] show ?thesis by (simp add: strip_manifest_def)
qed

section \<open>What is left in the event stream\<close>

fun clean_event :: "raw_event \<Rightarrow> bool" where
  "clean_event (RawStart n as) \<longleftrightarrow>
    local_name n \<noteq> encryption_data
    \<and> (local_name n = file_entry \<longrightarrow> (\<forall>k v. Some (k, v) \<in> set as \<longrightarrow> \<not> is_manifest_size_attr k))
    \<and> None \<notin> set as"
| "clean_event (RawEmpty n as) \<longleftrightarrow>
    local_name n \<noteq> encryption_data
    \<and> (local_name n = file_entry \<longrightarrow> (\<forall>k v. Some (k, v) \<in> set as \<longrightarrow> \<not> is_manifest_size_attr k))
    \<and> None \<notin> set as"
| "clean_event (RawError m) \<longleftrightarrow> False"
| "clean_event _ \<longleftrightarrow> True"

lemma colon_ascii: "is_ascii CHR '':''"
  by (simp add: is_ascii_def)

lemma local_name_cases:
  obtains "dropWhile (\<lambda>c. c \<noteq> CHR '':'') n = []" "local_name n = n"
  | r where "dropWhile (\<lambda>c. c \<noteq> CHR '':'') n = CHR '':'' # r" "local_name n = r"
proof (cases "dropWhile (\<lambda>c. c \<noteq> CHR '':'') n")
  case Nil
  then have "local_name n = n" by (simp only: local_name_def Let_def simp_thms if_True)
  with Nil show thesis by (rule that(1))
next
  case (Cons c r)
  have "c = CHR '':''" using hd_dropWhile [of "\<lambda>c. c \<noteq> CHR '':''" n] Cons by simp
  moreover have "local_name n = r" by (simp add: local_name_def Let_def Cons)
  ultimately show thesis using that(2) [of r] Cons by blast
qed

lemma local_name_lossy: "local_name (from_utf8_lossy n) = from_utf8_lossy (local_name n)"
proof (cases rule: local_name_cases [of n])
  case 1
  from 1(1) have "dropWhile (\<lambda>c. c \<noteq> CHR '':'') (from_utf8_lossy n) = []"
    unfolding dropWhile_lossy [OF colon_ascii] by (simp only: lossy_Nil)
  then show ?thesis unfolding 1(2) by (simp only: local_name_def Let_def simp_thms if_True)
next
  case (2 r)
  from 2(1) have "dropWhile (\<lambda>c. c \<noteq> CHR '':'') (from_utf8_lossy n) = CHR '':'' # from_utf8_lossy r"
    unfolding dropWhile_lossy [OF colon_ascii] by (simp only: lossy_ascii [OF colon_ascii])
  then show ?thesis unfolding 2(2) by (simp add: local_name_def)
qed

lemma lossy_ascii_eq: "\<forall>c \<in> set a. is_ascii c \<Longrightarrow> from_utf8_lossy s = a \<longleftrightarrow> s = a"
  using lossy_all_ascii [of s] lossy_all_ascii [of a]
  by (metis from_utf8_lossy_valid is_ascii_def utf8_ascii_valid)

lemma tag_names_ascii: "\<forall>c \<in> set encryption_data. is_ascii c" "\<forall>c \<in> set file_entry. is_ascii c"
  by (simp_all add: encryption_data_def file_entry_def is_ascii_def)

lemma without_size_clean:
  assumes "without_size n as = (n', as')" "local_name n \<noteq> encryption_data"
  shows "clean_event (RawStart n' as')" "clean_event (RawEmpty n' as')"
proof -
  have n': "n' = from_utf8_lossy n" using assms(1) by (auto simp: without_size_def Let_def)
  have "local_name n' \<noteq> encryption_data"
    unfolding n' local_name_lossy lossy_ascii_eq [OF tag_names_ascii(1)] by (rule assms(2))
  moreover have "local_name n' = file_entry \<longleftrightarrow> local_name n = file_entry"
    unfolding n' local_name_lossy lossy_ascii_eq [OF tag_names_ascii(2)] ..
  moreover have "None \<notin> set as'"
    using assms(1) by (auto simp: without_size_def Let_def split: option.splits)
  moreover have "local_name n = file_entry \<Longrightarrow> Some (k, v) \<in> set as' \<Longrightarrow> \<not> is_manifest_size_attr k" for k v
    using assms(1) by (auto simp: without_size_def Let_def split: option.splits)
  ultimately show "clean_event (RawStart n' as')" "clean_event (RawEmpty n' as')" by auto
qed

lemma strip_from_clean: "strip_from evs d = Inr out \<Longrightarrow> \<forall>e \<in> set out. clean_event e"
proof (induction evs d arbitrary: out rule: strip_from.induct)
  case (2 name attrs evs d)
  obtain n' as' where w: "without_size name attrs = (n', as')" by (cases "without_size name attrs")
  from 2 w without_size_clean(1) [OF w] show ?case by (auto simp: emit_Ok split: if_splits)
next
  case (4 name attrs evs d)
  obtain n' as' where w: "without_size name attrs = (n', as')" by (cases "without_size name attrs")
  from 4 w without_size_clean(2) [OF w] show ?case by (auto simp: emit_Ok split: if_splits)
qed (auto simp: emit_Ok split: if_splits)

section \<open>The bytes that are written\<close>

text \<open>
  \<^verbatim>\<open>push_attribute\<close> of a pair of byte strings copies both, the value between double quotes; \<^verbatim>\<open>write_event\<close>
  puts a tag's content between its brackets.  \<^verbatim>\<open>other\<close> stands for what is written for an event that is no tag.
\<close>

definition dquote :: char where "dquote = CHR 34"

fun attr_bytes :: "(string \<times> string) option \<Rightarrow> string" where
  "attr_bytes None = []"
| "attr_bytes (Some (key, v)) = '' '' @ key @ ''='' @ dquote # v @ [dquote]"

definition tag_bytes :: "string \<Rightarrow> (string \<times> string) option list \<Rightarrow> string" where
  "tag_bytes name attrs = name @ concat (map attr_bytes attrs)"

fun event_bytes :: "(raw_other \<Rightarrow> string) \<Rightarrow> raw_event \<Rightarrow> string" where
  "event_bytes other (RawStart name attrs) = ''<'' @ tag_bytes name attrs @ ''>''"
| "event_bytes other (RawEnd name) = ''</'' @ name @ ''>''"
| "event_bytes other (RawEmpty name attrs) = ''<'' @ tag_bytes name attrs @ ''/>''"
| "event_bytes other (RawOther e) = other e"
| "event_bytes other (RawError message) = []"

definition xml_bytes :: "(raw_other \<Rightarrow> string) \<Rightarrow> raw_event list \<Rightarrow> string" where
  "xml_bytes other evs = concat (map (event_bytes other) evs)"

text \<open>
  An ordinary tag: names without markup characters, distinct attributes, values without a double quote.
  \<^verbatim>\<open>complete\<close> excludes what is never written, a malformed attribute or an error.
\<close>

definition markup_free :: "string \<Rightarrow> bool" where
  "markup_free s \<longleftrightarrow> s \<noteq> [] \<and> utf8_valid s
     \<and> list_all (\<lambda>c. c \<notin> {CHR '' '', CHR 9, CHR 10, CHR 13, CHR ''<'', CHR ''>'', CHR ''/'', CHR ''='', CHR ''!'',
         CHR ''?'', CHR 39, dquote}) s"

definition ordinary_attrs :: "(string \<times> string) option list \<Rightarrow> bool" where
  "ordinary_attrs attrs \<longleftrightarrow> distinct (map (fst \<circ> the) (filter (\<lambda>a. a \<noteq> None) attrs))
     \<and> (\<forall>key v. Some (key, v) \<in> set attrs \<longrightarrow> markup_free key \<and> dquote \<notin> set v)"

fun ordinary :: "raw_event \<Rightarrow> bool" where
  "ordinary (RawStart name attrs) \<longleftrightarrow> markup_free name \<and> ordinary_attrs attrs"
| "ordinary (RawEnd name) \<longleftrightarrow> markup_free name"
| "ordinary (RawEmpty name attrs) \<longleftrightarrow> markup_free name \<and> ordinary_attrs attrs"
| "ordinary _ \<longleftrightarrow> True"

fun complete :: "raw_event \<Rightarrow> bool" where
  "complete (RawStart name attrs) \<longleftrightarrow> None \<notin> set attrs"
| "complete (RawEmpty name attrs) \<longleftrightarrow> None \<notin> set attrs"
| "complete (RawError message) \<longleftrightarrow> False"
| "complete _ \<longleftrightarrow> True"

lemma clean_complete: "clean_event e \<Longrightarrow> complete e"
  by (cases e) auto

lemma without_size_ordinary:
  assumes "without_size n as = (n', as')" "markup_free n" "ordinary_attrs as"
  shows "markup_free n' \<and> ordinary_attrs as'"
proof -
  define P where "P a = (case a of None \<Rightarrow> False
      | Some (key, _) \<Rightarrow> \<not> (local_name n = file_entry \<and> is_manifest_size_attr key))" for a :: "(string \<times> string) option"
  have P: "P = (\<lambda>a. case a of None \<Rightarrow> False
      | Some (key, _) \<Rightarrow> \<not> (local_name n = file_entry \<and> is_manifest_size_attr key))"
    by (rule ext) (rule P_def)
  have "n' = n" using assms(1,2) by (simp add: without_size_def Let_def markup_free_def from_utf8_lossy_valid)
  moreover have "as' = filter P as" using assms(1) unfolding P without_size_def Let_def by simp
  moreover have "ordinary_attrs (filter P as)"
    unfolding ordinary_attrs_def
  proof (intro conjI allI impI)
    have "filter (\<lambda>a. a \<noteq> None) (filter P as) = filter P (filter (\<lambda>a. a \<noteq> None) as)"
      unfolding filter_filter by (rule filter_cong) auto
    then show "distinct (map (fst \<circ> the) (filter (\<lambda>a. a \<noteq> None) (filter P as)))"
      using assms(3) by (simp only: ordinary_attrs_def distinct_map_filter)
  qed (use assms(3) in \<open>auto simp: ordinary_attrs_def\<close>)
  ultimately show ?thesis using assms(2) by simp
qed

lemma strip_from_ordinary:
  "strip_from evs d = Inr out \<Longrightarrow> \<forall>e \<in> set evs. ordinary e \<Longrightarrow> \<forall>e \<in> set out. ordinary e"
proof (induction evs d arbitrary: out rule: strip_from.induct)
  case (2 name attrs evs d)
  obtain n' as' where w: "without_size name attrs = (n', as')" by (cases "without_size name attrs")
  from 2 w without_size_ordinary [OF w] show ?case by (auto simp: emit_Ok split: if_splits)
next
  case (4 name attrs evs d)
  obtain n' as' where w: "without_size name attrs = (n', as')" by (cases "without_size name attrs")
  from 4 w without_size_ordinary [OF w] show ?case by (auto simp: emit_Ok split: if_splits)
qed (auto simp: emit_Ok split: if_splits)

section \<open>Stage A on what is left\<close>

text \<open>The events a reader reports for these tags, with empty elements expanded as \<^verbatim>\<open>parse_manifest\<close> asks.\<close>

fun view_other :: "raw_other \<Rightarrow> xml_event" where
  "view_other (OtherText t) = EvText t"
| "view_other (OtherCData t) = EvCData t"
| "view_other (OtherRef r) = EvGeneralRef r"
| "view_other OtherMisc = EvOther"

fun view_event :: "raw_event \<Rightarrow> xml_event list" where
  "view_event (RawStart n as) = [EvStart n as]"
| "view_event (RawEnd n) = [EvEnd n]"
| "view_event (RawEmpty n as) = [EvStart n as, EvEnd n]"
| "view_event (RawOther e) = [view_other e]"
| "view_event (RawError m) = [EvError]"

definition raw_view :: "raw_event list \<Rightarrow> xml_event list" where
  "raw_view evs = concat (map view_event evs)"

fun is_tag :: "xml_event \<Rightarrow> bool" where
  "is_tag (EvStart name attrs) \<longleftrightarrow> True"
| "is_tag (EvEnd name) \<longleftrightarrow> True"
| "is_tag _ \<longleftrightarrow> False"

text \<open>
  What is assumed of Stage A's event reader: of a document whose tags are ordinary it reports these tags, in
  order, up to an error if it stops at one.  What it reports between them is left open.
\<close>

definition reads_tags_back :: "(raw_other \<Rightarrow> string) \<Rightarrow> (string \<Rightarrow> xml_event list) \<Rightarrow> bool" where
  "reads_tags_back other reader \<longleftrightarrow> (\<forall>evs. (\<forall>e \<in> set evs. ordinary e \<and> complete e) \<longrightarrow>
     prefix (filter is_tag (reader (xml_bytes other evs))) (filter is_tag (raw_view evs)))"

definition size_free :: "xml_event \<Rightarrow> bool" where
  "size_free ev \<longleftrightarrow> (\<forall>n as. ev = EvStart n as \<longrightarrow> local_name n = file_entry \<longrightarrow>
    (\<forall>k v. Some (k, v) \<in> set as \<longrightarrow> \<not> is_manifest_size_attr k))"

definition no_sizes :: "import_state \<Rightarrow> bool" where
  "no_sizes st \<longleftrightarrow> bag_size (im_bag st) = None \<and> (\<forall>b \<in> set (im_bags st). bag_size b = None)"

lemma clean_size_free: "clean_event e \<Longrightarrow> \<forall>ev \<in> set (view_event e). size_free ev"
proof (cases e)
  case (RawOther o')
  then show ?thesis by (cases o') (auto simp: size_free_def)
qed (auto simp: size_free_def)

lemma convert_with_ns_local:
  "convert_name_with_ns n ns = Some c \<Longrightarrow> c = manifest_prefix @ local_name n"
  by (auto simp: convert_name_with_ns_def local_name_def Let_def split: option.splits if_splits prod.splits)

lemma convert_name_local:
  "convert_name_from fs n = n \<or> convert_name_from fs n = manifest_prefix @ local_name n"
  by (induction fs) (auto dest: convert_with_ns_local split: option.splits)

lemma local_name_literals:
  "local_name element_file_entry = file_entry" "element_file_entry = manifest_prefix @ file_entry"
  "attr_size = manifest_prefix @ ''size''"
  by (simp_all add: local_name_def file_entry_def element_file_entry_def manifest_prefix_def
      attr_size_def)

lemma file_entry_local:
  "c = n \<or> c = manifest_prefix @ local_name n \<Longrightarrow> c = element_file_entry \<Longrightarrow> local_name n = file_entry"
  using local_name_literals(1,2) same_append_eq by metis

lemma size_attr_local: "local_name k = ''size'' \<Longrightarrow> is_manifest_size_attr k"
proof (cases rule: local_name_cases [of k])
  case (2 r)
  assume "local_name k = ''size''"
  with 2 have "dropWhile (\<lambda>c. c \<noteq> CHR '':'') k = '':size''" by simp
  with suffix_dropWhile [of "\<lambda>c. c \<noteq> CHR '':''" k] show ?thesis
    by (simp add: is_manifest_size_attr_def)
qed (simp add: is_manifest_size_attr_def)

lemma converted_size: "convert_name_from fs k = attr_size \<Longrightarrow> is_manifest_size_attr k"
proof -
  assume c: "convert_name_from fs k = attr_size"
  have "is_manifest_size_attr attr_size"
    by (simp add: is_manifest_size_attr_def attr_size_def suffix_def)
  moreover have "local_name k = ''size''" if "attr_size = manifest_prefix @ local_name k"
    using that local_name_literals(3) same_append_eq by metis
  ultimately show ?thesis using c convert_name_local [of fs k] size_attr_local [of k] by metis
qed

lemma size_attr_lossy: "is_manifest_size_attr (from_utf8_lossy k) \<Longrightarrow> is_manifest_size_attr k"
  using ascii_suffix_lossy [of "'':size''" k] lossy_ascii_eq [of "''size''" k]
  by (auto simp: is_manifest_size_attr_def is_ascii_def)

lemma split_attrs_other:
  "split_attrs raw ns other = (ns', other') \<Longrightarrow> set other' \<subseteq> set other \<union> set raw"
proof (induction raw ns other rule: split_attrs.induct)
  case (2 k v raw ns other)
  then show ?case by (auto split: if_splits)
qed simp

lemma push_attrs:
  "snd (snd (push_name_and_namespaces st n raw))
    = foldl (\<lambda>m (key, value). (convert_name (fst (push_name_and_namespaces st n raw)) key, value) # m) []
        (snd (split_attrs raw [] []))"
  by (simp add: push_name_and_namespaces_def Let_def split: prod.split)

lemma push_attr_keys:
  assumes "push_name_and_namespaces st n raw = (st1, c, attrs)" "k \<in> fst ` set attrs"
  shows "\<exists>k' v. (k', v) \<in> set raw \<and> k = convert_name st1 k'"
proof -
  obtain ns other where s: "split_attrs raw [] [] = (ns, other)" by (cases "split_attrs raw [] []")
  have keys: "fst ` set (foldl (\<lambda>m (key, value). (f key, value) # m) acc other)
      = fst ` set acc \<union> f ` fst ` set other" for f :: "string \<Rightarrow> string" and acc :: attrs
    by (induction other arbitrary: acc) (auto simp: image_iff)
  have "attrs = foldl (\<lambda>m (key, value). (convert_name st1 key, value) # m) [] other"
    using push_attrs [of st n raw] unfolding assms(1) s fst_conv snd_conv .
  then have "fst ` set attrs = fst ` set ([] :: attrs) \<union> convert_name st1 ` fst ` set other"
    by (simp only: keys)
  then obtain k' v where "(k', v) \<in> set other" "k = convert_name st1 k'" using assms(2) by auto
  then show ?thesis using split_attrs_other [OF s] by auto
qed

lemma push_converted:
  assumes "push_name_and_namespaces st n raw = (st1, c, attrs)"
  shows "c = n \<or> c = manifest_prefix @ local_name n"
  using assms convert_name_local [of "im_stack st" n]
  by (auto simp: push_name_and_namespaces_def Let_def convert_name_def
      dest: convert_with_ns_local split: prod.splits option.splits)

lemma no_sizes_unchanged:
  assumes "no_sizes st"
  shows "no_sizes (do_encrypted_key st)" "no_sizes (do_encryption_method a x st)"
    "no_sizes (clear_characters st)" "no_sizes (invalidate_current st)"
    "no_sizes (st\<lparr>im_package_version := v\<rparr>)" "no_sizes (characters s st)"
    "no_sizes (st\<lparr>im_stack := fs\<rparr>)" "no_sizes (st\<lparr>im_beyond_cap := k\<rparr>)"
    "no_sizes (finish_cdata l n st)" "no_sizes (finish_encrypted_key st)"
    "no_sizes (do_encryption_data a st)" "no_sizes (do_algorithm a st)"
    "no_sizes (do_start_key_alg a st)" "no_sizes (do_key_derivation a st)"
    "no_sizes (finish_file_entry st)"
  using assms
  by (simp_all add: no_sizes_def handler_defs invalidate_current_def characters_def
      finish_cdata_def finish_encrypted_key_def finish_file_entry_def empty_bag_def Let_def
      split: list.split option.split prod.split)

lemma no_sizes_start:
  assumes "no_sizes st" "local_name n = file_entry \<Longrightarrow> \<forall>(k, v) \<in> set raw. \<not> is_manifest_size_attr k"
  shows "no_sizes (start_element n raw st)"
proof (cases "im_beyond_cap st > 0 \<or> length (im_stack st) \<ge> max_depth")
  case True
  then show ?thesis using assms(1) by (simp add: start_element_def no_sizes_unchanged)
next
  case False
  obtain st1 c attrs where push: "push_name_and_namespaces st n raw = (st1, c, attrs)"
    by (cases "push_name_and_namespaces st n raw")
  from push_stack [OF push] assms(1) have st1: "no_sizes st1" by (auto simp: no_sizes_unchanged)
  have entry: "no_sizes (do_file_entry attrs st1)" if "c = element_file_entry"
  proof -
    have "local_name n = file_entry"
      using file_entry_local [OF push_converted [OF push] that] .
    then have raw: "\<forall>(k, v) \<in> set raw. \<not> is_manifest_size_attr k" by (rule assms(2))
    have "attr_size \<notin> fst ` set attrs"
    proof
      assume "attr_size \<in> fst ` set attrs"
      then obtain k v where "(k, v) \<in> set raw" "attr_size = convert_name st1 k"
        using push_attr_keys [OF push] by blast
      with raw converted_size [of "im_stack st1" k] show False by (auto simp: convert_name_def)
    qed
    then have "map_of attrs attr_size = None" by (simp add: map_of_eq_None_iff)
    then show ?thesis using st1 by (simp add: do_file_entry_def no_sizes_def)
  qed
  have "no_sizes (start_level (length (im_stack st1)) c attrs st1)"
    by (rule start_level_rule) (use st1 entry in \<open>simp_all add: no_sizes_unchanged\<close>)
  with False push st1 show ?thesis
    by (simp add: start_element_def Let_def no_sizes_unchanged)
qed

lemma no_sizes_end: "no_sizes st \<Longrightarrow> no_sizes (end_element n st)"
  by (simp add: end_element_def Let_def no_sizes_unchanged split: list.split)

lemma collect_attrs_keys:
  "collect_attrs as = Some raw \<Longrightarrow> (k, v) \<in> set raw \<Longrightarrow> \<exists>k' v'. Some (k', v') \<in> set as \<and> k = from_utf8_lossy k'"
proof (induction as arbitrary: raw rule: collect_attrs.induct)
  case (3 key rawv rest)
  then obtain z where z: "collect_attrs rest = Some z" "utf8_valid rawv"
    "raw = (from_utf8_lossy key, normalize_attr_value rawv) # z"
    by (auto split: if_splits)
  show ?case
  proof (cases "(k, v) \<in> set z")
    case True
    with 3(1) [OF _ z(1)] z(2) show ?thesis by (meson list.set_intros(2))
  next
    case False
    with 3(3) z(3) have "k = from_utf8_lossy key" by auto
    then show ?thesis by auto
  qed
qed auto

lemma no_sizes_event:
  assumes "no_sizes st" "size_free ev" "import_event ev st = Some st'"
  shows "no_sizes st'"
proof (cases ev)
  case (EvStart n as)
  with assms(3) obtain raw where raw: "collect_attrs as = Some raw"
    "st' = start_element (from_utf8_lossy n) raw st" by auto
  show ?thesis unfolding raw(2)
  proof (rule no_sizes_start [OF assms(1)])
    assume "local_name (from_utf8_lossy n) = file_entry"
    then have "local_name n = file_entry"
      unfolding local_name_lossy lossy_ascii_eq [OF tag_names_ascii(2)] .
    with assms(2) EvStart have free: "Some (k, v) \<in> set as \<Longrightarrow> \<not> is_manifest_size_attr k" for k v
      by (auto simp: size_free_def)
    show "\<forall>(k, v) \<in> set raw. \<not> is_manifest_size_attr k"
      using collect_attrs_keys [OF raw(1)] free size_attr_lossy by blast
  qed
qed (use assms in \<open>auto simp: no_sizes_unchanged no_sizes_end\<close>)

lemma no_sizes_events:
  "import_events evs st = Some st' \<Longrightarrow> no_sizes st \<Longrightarrow> \<forall>ev \<in> set evs. size_free ev \<Longrightarrow> no_sizes st'"
  by (induction evs arbitrary: st) (auto dest: no_sizes_event split: option.splits)

lemma stripped_bags:
  assumes "strip_manifest evs = Inr out" "\<forall>e \<in> set evs. ordinary e" "reads_tags_back other reader"
    and "b \<in> set (parse_manifest (reader (xml_bytes other out)))"
  shows "bag_size b = None"
proof -
  define read where "read = reader (xml_bytes other out)"
  note clean = strip_from_clean [OF assms(1) [unfolded strip_manifest_def]]
  have "\<forall>e \<in> set out. ordinary e \<and> complete e"
    using clean clean_complete strip_from_ordinary [OF assms(1) [unfolded strip_manifest_def] assms(2)] by blast
  then have "prefix (filter is_tag read) (filter is_tag (raw_view out))"
    using assms(3) by (simp add: reads_tags_back_def read_def)
  then have "set (filter is_tag read) \<subseteq> set (raw_view out)" by (auto dest!: set_mono_prefix)
  moreover have "\<forall>ev \<in> set (raw_view out). size_free ev" using clean clean_size_free by (auto simp: raw_view_def)
  moreover have "\<not> is_tag ev \<Longrightarrow> size_free ev" for ev by (cases ev) (simp_all add: size_free_def)
  ultimately have "\<forall>ev \<in> set read. size_free ev" by auto
  moreover have "no_sizes import_new" by (simp add: no_sizes_def import_new_def empty_bag_def)
  moreover obtain st where st: "import_events read import_new = Some st" "b \<in> set (im_bags st)"
    using assms(4) by (cases "import_events read import_new") (auto simp: parse_manifest_def split: if_splits simp flip: read_def)
  ultimately have "no_sizes st" using no_sizes_events [OF st(1)] by blast
  with st(2) show ?thesis by (simp add: no_sizes_def)
qed

lemma no_size_no_row: "bag_size bag = None \<Longrightarrow> accept_row bag ki path = None"
  by (auto simp: accept_row_def pgp_entry_def password_entry_def split: option.splits)

lemma stage_row_no_size:
  assumes "bag_size bag = None" "stage_row bag st = Inr st'"
  shows "sb_entries st' = sb_entries st \<and> sb_package_complete st' = sb_package_complete st"
  using assms(2)
  by (auto simp: stage_row_def Let_def stream_row_def no_size_no_row [OF assms(1)]
      split: prod.splits sum.splits option.splits resolved_kind.splits stream_as_folder.splits if_splits)

lemma stage_rows_no_size:
  "stage_rows bags st = Inr st' \<Longrightarrow> \<forall>b \<in> set bags. bag_size b = None \<Longrightarrow>
    sb_entries st' = sb_entries st \<and> sb_package_complete st' = sb_package_complete st"
  by (induction bags arbitrary: st) (auto dest!: stage_row_no_size)

section \<open>Properties\<close>

text \<open>
  C19. On a well-nested document the rewrite with its depth counter is the removal of subtrees: every
  \<^verbatim>\<open>encryption-data\<close> element goes with its content, every other tag is kept in place, without the
  size of a file entry.
\<close>

theorem strip_removes_subtrees:
  "strip_manifest (flatten_all ns) = Inr (flatten_all (concat (map strip_node ns)))"
  by (rule strip_document)

text \<open>
  C18. A package whose manifest was rewritten is plain: if every tag of the manifest is ordinary, no attribute value
  holding a double quote, then whatever the archive's tree and mimetype, Stage A and Stage B over the bytes
  that were written accept no encrypted row, so the rebuilt package does not classify as encrypted.
\<close>

theorem stripped_package_is_plain:
  assumes "strip_manifest evs = Inr out" "\<forall>e \<in> set evs. ordinary e" "reads_tags_back other reader"
    and "stage_b (parse_manifest (reader (xml_bytes other out))) tree has_package mimetype = Inr c"
  shows "cl_mode c = Plain \<and> cl_encrypted_entries c = []"
proof -
  from assms(4) obtain st where
    st: "stage_rows (parse_manifest (reader (xml_bytes other out))) (stage_init tree) = Inr st"
    and c: "cl_encrypted_entries c = sb_entries st"
      "cl_mode c = (if has_package \<and> sb_package_complete st then Wholesome
              else if sb_entries st \<noteq> [] then PerEntry else Plain)"
    by (auto simp: stage_b_def Let_def)
  have "sb_entries st = [] \<and> \<not> sb_package_complete st"
    using stage_rows_no_size [OF st] stripped_bags [OF assms(1-3)] by (simp add: stage_init_def)
  with c show ?thesis by simp
qed

definition encrypted_manifest :: "raw_event list" where
  "encrypted_manifest =
    [RawStart ''manifest:manifest'' [Some (''xmlns:manifest'', manifest_ns_oasis)],
     RawStart ''manifest:file-entry'' [Some (''manifest:full-path'', ''a''), Some (''manifest:size'', ''7'')],
     RawStart ''manifest:encryption-data'' [], RawEmpty ''manifest:algorithm'' [],
     RawEnd ''manifest:encryption-data'',
     RawEnd ''manifest:file-entry'', RawEnd ''manifest:manifest'']"

definition plain_manifest :: "raw_event list" where
  "plain_manifest =
    [RawStart ''manifest:manifest'' [Some (''xmlns:manifest'', manifest_ns_oasis)],
     RawStart ''manifest:file-entry'' [Some (''manifest:full-path'', ''a'')],
     RawEnd ''manifest:file-entry'', RawEnd ''manifest:manifest'']"

lemma strip_sample: "strip_manifest encrypted_manifest = Inr plain_manifest"
proof -
  have "from_utf8_lossy ''manifest:manifest'' = ''manifest:manifest''"
    "from_utf8_lossy ''manifest:file-entry'' = ''manifest:file-entry''"
    by (simp_all add: lossy_ascii_eq is_ascii_def)
  then show ?thesis
    by (simp add: strip_manifest_def encrypted_manifest_def plain_manifest_def local_name_def
        without_size_def encryption_data_def file_entry_def is_manifest_size_attr_def suffix_def)
qed

lemma sample_stage: "\<exists>c. stage_b (parse_manifest plain_events) manifest_only_tree False None = Inr c"
proof -
  define bag where "bag = empty_bag\<lparr>bag_full_path := ''a'', bag_media_type := Some []\<rparr>"
  have bag: "bag_full_path bag = ''a''" "bag_version bag = None" "bag_key_info bag = None"
    by (simp_all add: bag_def empty_bag_def)
  have missing: "resolve manifest_only_tree ''a'' = (manifest_only_tree, Inr None)" by code_simp
  have same: "note_bag bag (stage_init t) = stage_init t" for t
    by (simp add: note_bag_def bag nonempty_def)
  have fields: "sb_tree (stage_init t) = t" "sb_entries (stage_init t) = []" for t
    by (simp_all add: stage_init_def)
  have "stage_rows [bag] (stage_init manifest_only_tree)
      = Inr (stage_init manifest_only_tree\<lparr>sb_tree := manifest_only_tree\<rparr>)"
    by (simp add: stage_row_def same bag missing fields)
  then show ?thesis
    by (simp add: plain_events_bags stage_b_def stage_mimetype_def Let_def flip: bag_def)
qed

text \<open>
  A reader of tags alone that keeps the assumption: a tag ends at a bracket outside double quotes, its name at
  the first space, and its attributes follow.
\<close>

fun tag_end :: "bool \<Rightarrow> string \<Rightarrow> string \<times> string" where
  "tag_end quoted [] = ([], [])"
| "tag_end quoted (c # cs) =
    (if c = CHR ''>'' \<and> \<not> quoted then ([], cs)
     else case tag_end (if c = dquote then \<not> quoted else quoted) cs of (t, rest) \<Rightarrow> (c # t, rest))"

lemma tag_end_length: "length (snd (tag_end quoted cs)) \<le> length cs"
  by (induction quoted cs rule: tag_end.induct) (auto split: prod.split)

function scan_attrs :: "string \<Rightarrow> (string \<times> string) option list" where
  "scan_attrs [] = []"
| "scan_attrs (c # s) =
    (let key = takeWhile (\<lambda>x. x \<noteq> CHR ''='') s; s1 = drop (length key + 2) s;
         v = takeWhile (\<lambda>x. x \<noteq> dquote) s1
     in Some (key, v) # scan_attrs (drop (length v + 1) s1))"
  by pat_completeness auto
termination by (relation "measure length") auto

definition scan_start :: "string \<Rightarrow> xml_event" where
  "scan_start t = EvStart (takeWhile (\<lambda>x. x \<noteq> CHR '' '') t) (scan_attrs (dropWhile (\<lambda>x. x \<noteq> CHR '' '') t))"

definition tag_events :: "string \<Rightarrow> xml_event list" where
  "tag_events t =
    (if t \<noteq> [] \<and> hd t = CHR ''/'' then [EvEnd (tl t)]
     else if t \<noteq> [] \<and> last t = CHR ''/'' then
       [scan_start (butlast t), EvEnd (takeWhile (\<lambda>x. x \<noteq> CHR '' '') (butlast t))]
     else [scan_start t])"

function scan :: "string \<Rightarrow> xml_event list" where
  "scan [] = []"
| "scan (c # cs) =
    (if c = CHR ''<'' then tag_events (fst (tag_end False cs)) @ scan (snd (tag_end False cs)) else scan cs)"
  by pat_completeness auto
termination by (relation "measure length") (auto simp: less_Suc_eq_le tag_end_length)

definition tag_closed :: "string \<Rightarrow> bool" where
  "tag_closed s \<longleftrightarrow> (\<forall>r. tag_end False (s @ r) = (s @ fst (tag_end False r), snd (tag_end False r)))"

lemma tag_closed_append: "tag_closed a \<Longrightarrow> tag_closed b \<Longrightarrow> tag_closed (a @ b)"
  by (simp add: tag_closed_def)

lemma tag_closed_plain: "list_all (\<lambda>c. c \<noteq> CHR ''>'' \<and> c \<noteq> dquote) s \<Longrightarrow> tag_closed s"
  by (induction s) (auto simp: tag_closed_def split: prod.split)

lemma tag_end_quoted:
  "dquote \<notin> set v \<Longrightarrow> tag_end True (v @ dquote # r) = (v @ dquote # fst (tag_end False r), snd (tag_end False r))"
  by (induction v) (auto split: prod.split)

lemma markup_free_all: "markup_free s \<Longrightarrow> list_all (\<lambda>c. c \<noteq> CHR ''>'' \<and> c \<noteq> dquote) s"
  by (auto simp: markup_free_def list_all_iff)

lemma attr_closed:
  assumes "markup_free key" "dquote \<notin> set v"
  shows "tag_closed (attr_bytes (Some (key, v)))"
proof -
  have "tag_closed ('' '' @ key @ ''='')"
    using markup_free_all [OF assms(1)] by (intro tag_closed_plain) (simp add: dquote_def)
  moreover have "tag_closed (dquote # v @ [dquote])"
    using tag_end_quoted [OF assms(2)] by (simp add: tag_closed_def dquote_def)
  ultimately show ?thesis using tag_closed_append by fastforce
qed

lemma tag_bytes_closed:
  assumes "markup_free n" "ordinary_attrs as" "None \<notin> set as"
  shows "tag_closed (tag_bytes n as)"
proof -
  have "tag_closed (concat (map attr_bytes as))"
    using assms(2,3)
  proof (induction as)
    case Nil
    then show ?case by (simp add: tag_closed_def)
  next
    case (Cons a as)
    then obtain key v where a: "a = Some (key, v)" by (cases a) auto
    have "ordinary_attrs as" using Cons.prems(1) by (auto simp: ordinary_attrs_def a)
    then have "tag_closed (concat (map attr_bytes as))" using Cons by simp
    moreover have "tag_closed (attr_bytes a)"
      unfolding a using Cons.prems(1) by (intro attr_closed) (auto simp: ordinary_attrs_def a)
    ultimately show ?case by (simp add: tag_closed_append)
  qed
  then show ?thesis
    unfolding tag_bytes_def using tag_closed_append [OF tag_closed_plain [OF markup_free_all [OF assms(1)]]] by blast
qed

lemma cut_at: "c \<notin> set a \<Longrightarrow> takeWhile (\<lambda>x. x \<noteq> c) (a @ c # r) = a \<and> dropWhile (\<lambda>x. x \<noteq> c) (a @ c # r) = c # r"
  by (induction a) auto

lemma scan_attrs_bytes:
  "ordinary_attrs as \<Longrightarrow> None \<notin> set as \<Longrightarrow> scan_attrs (concat (map attr_bytes as)) = as"
proof (induction as)
  case (Cons a as)
  then obtain key v where a: "a = Some (key, v)" by (cases a) auto
  have "markup_free key" "dquote \<notin> set v" "ordinary_attrs as"
    using Cons.prems(1) by (auto simp: ordinary_attrs_def a)
  moreover from this have "CHR ''='' \<notin> set key" by (auto simp: markup_free_def list_all_iff)
  ultimately show ?case using Cons cut_at [of "CHR ''=''" key] cut_at [of dquote v] by (simp add: a Let_def)
qed simp

lemma scan_start_bytes:
  assumes "markup_free n" "ordinary_attrs as" "None \<notin> set as"
  shows "scan_start (tag_bytes n as) = EvStart n as" "takeWhile (\<lambda>x. x \<noteq> CHR '' '') (tag_bytes n as) = n"
proof -
  have n: "CHR '' '' \<notin> set n" using assms(1) by (auto simp: markup_free_def list_all_iff)
  have "takeWhile (\<lambda>x. x \<noteq> CHR '' '') (tag_bytes n as) = n
      \<and> dropWhile (\<lambda>x. x \<noteq> CHR '' '') (tag_bytes n as) = concat (map attr_bytes as)"
  proof (cases as)
    case Nil
    then show ?thesis using n by (auto simp: tag_bytes_def takeWhile_eq_all_conv dropWhile_eq_Nil_conv)
  next
    case (Cons a as')
    then obtain key v where "a = Some (key, v)" using assms(3) by (cases a) auto
    then show ?thesis using cut_at [OF n] by (simp add: tag_bytes_def Cons)
  qed
  then show "scan_start (tag_bytes n as) = EvStart n as" "takeWhile (\<lambda>x. x \<noteq> CHR '' '') (tag_bytes n as) = n"
    using scan_attrs_bytes [OF assms(2,3)] by (simp_all add: scan_start_def)
qed

lemma tag_bytes_ends:
  assumes "markup_free n" "None \<notin> set as"
  shows "tag_bytes n as \<noteq> []" "hd (tag_bytes n as) \<noteq> CHR ''/''" "last (tag_bytes n as) \<noteq> CHR ''/''"
proof -
  have n: "n \<noteq> []" "CHR ''/'' \<notin> set n" using assms(1) by (auto simp: markup_free_def list_all_iff)
  then show "tag_bytes n as \<noteq> []" "hd (tag_bytes n as) \<noteq> CHR ''/''"
    by (auto simp: tag_bytes_def hd_append dest: hd_in_set)
  show "last (tag_bytes n as) \<noteq> CHR ''/''"
  proof (cases as rule: rev_cases)
    case Nil
    have "last n \<in> set n" by (rule last_in_set [OF n(1)])
    then have "last n \<noteq> CHR ''/''" using n(2) by metis
    then show ?thesis by (simp add: tag_bytes_def Nil)
  next
    case (snoc as' a)
    then obtain key v where "a = Some (key, v)" using assms(2) by (cases a) auto
    then show ?thesis by (simp add: tag_bytes_def snoc dquote_def)
  qed
qed

lemma scan_event:
  assumes "ordinary e" "complete e"
  shows "scan (event_bytes (\<lambda>_. []) e @ r) = filter is_tag (view_event e) @ scan r"
proof (cases e)
  case (RawStart n as)
  then have "tag_end False (tag_bytes n as @ CHR ''>'' # r) = (tag_bytes n as, r)"
    using assms tag_bytes_closed [of n as] by (simp add: tag_closed_def)
  then show ?thesis using RawStart assms scan_start_bytes [of n as] tag_bytes_ends [of n as]
    by (simp add: tag_events_def)
next
  case (RawEmpty n as)
  then have "tag_end False (tag_bytes n as @ CHR ''/'' # CHR ''>'' # r) = (tag_bytes n as @ ''/'', r)"
    using assms tag_bytes_closed [of n as] by (simp add: tag_closed_def dquote_def)
  then show ?thesis using RawEmpty assms scan_start_bytes [of n as] tag_bytes_ends [of n as]
    by (simp add: tag_events_def hd_append)
next
  case (RawEnd n)
  then have "tag_closed n" using assms by (intro tag_closed_plain markup_free_all) simp
  then show ?thesis using RawEnd by (simp add: tag_closed_def tag_events_def dquote_def)
next
  case (RawOther x)
  then show ?thesis by (cases x) simp_all
qed (use assms in simp)

lemma scan_written:
  "\<forall>e \<in> set evs. ordinary e \<and> complete e \<Longrightarrow> scan (xml_bytes (\<lambda>_. []) evs) = filter is_tag (raw_view evs)"
  by (induction evs) (simp_all add: xml_bytes_def raw_view_def scan_event)

lemma scan_reads_back: "reads_tags_back (\<lambda>_. []) scan"
  by (simp add: reads_tags_back_def scan_written)

lemma sample_ordinary: "\<forall>e \<in> set encrypted_manifest. ordinary e" "\<forall>e \<in> set plain_manifest. ordinary e \<and> complete e"
  by (simp_all add: encrypted_manifest_def plain_manifest_def ordinary_attrs_def markup_free_def dquote_def
      utf8_ascii_valid manifest_ns_oasis_def)

theorem stripped_package_witness:
  "\<exists>c. strip_manifest encrypted_manifest = Inr plain_manifest
    \<and> stage_b (parse_manifest (scan (xml_bytes (\<lambda>_. []) plain_manifest))) manifest_only_tree False None = Inr c
    \<and> cl_mode c = Plain \<and> cl_encrypted_entries c = []"
proof -
  have "scan (xml_bytes (\<lambda>_. []) plain_manifest) = plain_events"
    unfolding scan_written [OF sample_ordinary(2)] by (simp add: raw_view_def plain_manifest_def plain_events_def)
  then have "\<exists>c. stage_b (parse_manifest (scan (xml_bytes (\<lambda>_. []) plain_manifest))) manifest_only_tree False None = Inr c"
    using sample_stage by simp
  with stripped_package_is_plain [OF strip_sample sample_ordinary(1) scan_reads_back] strip_sample show ?thesis by blast
qed

text \<open>
  C40. An attribute value that holds a double quote, as a value in single quotes may, is written as markup: one
  file entry, with no size and no child, comes out as the bytes of an entry with a size and any content at
  all, encryption data included, followed by an entry of its own.  No reader of these bytes can tell.
\<close>

theorem requoted_markup_survives:
  "map_sum id (xml_bytes other)
     (strip_manifest
       [RawStart ''manifest:file-entry'' [Some (''manifest:full-path'',
          p @ [dquote] @ '' manifest:size='' @ [dquote] @ n @ [dquote] @ ''>'' @ xml_bytes other hidden
          @ ''</manifest:file-entry><manifest:file-entry manifest:full-path='' @ [dquote] @ q)],
        RawEnd ''manifest:file-entry''])
   = Inr (xml_bytes other
       ([RawStart ''manifest:file-entry'' [Some (''manifest:full-path'', p), Some (''manifest:size'', n)]] @ hidden
        @ [RawEnd ''manifest:file-entry'',
           RawStart ''manifest:file-entry'' [Some (''manifest:full-path'', q)], RawEnd ''manifest:file-entry'']))"
proof -
  have "from_utf8_lossy ''manifest:file-entry'' = ''manifest:file-entry''"
    by (simp add: lossy_ascii_eq is_ascii_def)
  then show ?thesis
    by (simp add: strip_manifest_def local_name_def without_size_def encryption_data_def file_entry_def
        is_manifest_size_attr_def suffix_def xml_bytes_def tag_bytes_def)
qed

end
