(* ===== verification/Package.thy ===== *)
theory Package
  imports Decrypt
begin

text \<open>
  The opened package as the streaming paths use it, and the walk over candidate keys of
  \<^verbatim>\<open>src/decrypt_stream.rs\<close>.  A member can be opened many times; what an opening delivers may differ
  each time, because the input may change underneath.  The lemmas show that \<^verbatim>\<open>find_key\<close> takes the
  first candidate the member accepts, in LibreOffice's order, whatever the member's own check is.
\<close>

section \<open>The opened archive\<close>

text \<open>The rest of a member's metadata; \<^verbatim>\<open>mm_raw\<close> is what \<^verbatim>\<open>by_index_raw\<close> delivers.\<close>

datatype compression = Stored | Deflated | OtherMethod string

record member_meta =
  mm_method :: compression
  mm_crc :: u32
  mm_compressed_size :: nat

text \<open>
  \<^verbatim>\<open>ZipArchive\<close>: the directory, and what the opening of a member delivers, by the number of openings
  made before it; cooked (decompressed, CRC checked at the end) and raw.
\<close>

record package =
  pk_archive :: archive
  pk_meta :: "nat \<Rightarrow> member_meta"
  pk_cooked :: "nat \<Rightarrow> nat \<Rightarrow> string + segment list"
  pk_raw :: "nat \<Rightarrow> nat \<Rightarrow> string + segment list"
  pk_openings :: nat

text \<open>A step that may fail, over a state; \<^const>\<open>None\<close> never returns.\<close>

type_synonym ('a, 's) run = "'s \<Rightarrow> ((decrypt_error + 'a) \<times> 's) option"

definition answer :: "decrypt_error + 'a \<Rightarrow> ('a, 's) run" where
  "answer r s = Some (r, s)"

definition then_run :: "('a, 's) run \<Rightarrow> ('a \<Rightarrow> ('b, 's) run) \<Rightarrow> ('b, 's) run" where
  "then_run m f s = (case m s of
      None \<Rightarrow> None
    | Some (Inl e, s') \<Rightarrow> Some (Inl e, s')
    | Some (Inr x, s') \<Rightarrow> f x s')"

lemma then_run_answer [simp]:
  "then_run (answer (Inr x)) f = f x" "then_run (answer (Inl e)) f = answer (Inl e)"
  by (auto simp: then_run_def answer_def)

lemma then_run_at:
  "m s = Some (Inr x, s') \<Longrightarrow> then_run m f s = f x s'"
  "m s = Some (Inl e, s') \<Longrightarrow> then_run m f s = Some (Inl e, s')"
  by (simp_all add: then_run_def)

lemma then_run_Ok:
  "then_run m f s = Some (Inr y, s'') \<longleftrightarrow> (\<exists>x s'. m s = Some (Inr x, s') \<and> f x s' = Some (Inr y, s''))"
  by (auto simp: then_run_def split: option.splits sum.splits)

definition open_cooked :: "nat \<Rightarrow> (segment list, package) run" where
  "open_cooked i pk =
    Some (map_err ZipError (pk_cooked pk (pk_openings pk) i), pk\<lparr>pk_openings := pk_openings pk + 1\<rparr>)"

section \<open>Errors of a read\<close>

text \<open>\<^verbatim>\<open>Display\<close> of a refusal, of a fault, and of an \<^verbatim>\<open>io::Error\<close>.\<close>

fun cipher_debug :: "cipher \<Rightarrow> string" where
  "cipher_debug AesGcmW3c = ''AesGcmW3c''"
| "cipher_debug AesCbcW3c = ''AesCbcW3c''"
| "cipher_debug BlowfishCfb8 = ''BlowfishCfb8''"

fun bad_parameter_text :: "bad_parameter \<Rightarrow> string" where
  "bad_parameter_text (OutOfRange field got lo hi) = manifest_field_text field @ '' is '' @ int_string got
     @ '', outside '' @ int_string lo @ ''..='' @ int_string hi @ '', the range this crate acts on''"
| "bad_parameter_text (CipherRejects field by got lo hi) = manifest_field_text field @ '' is '' @ int_string got
     @ '', outside '' @ int_string lo @ ''..='' @ int_string hi @ '', which '' @ primitive_text by
     @ '' itself requires''"
| "bad_parameter_text (KeySizeForCipher got c) =
     ''manifest:key-size '' @ int_string got @ '' cannot be used with '' @ cipher_debug c"
| "bad_parameter_text (MemberBad m) = member_fault_text m"
| "bad_parameter_text (NoMember row) = ''encrypted row '' @ decimal row @ '' names no zip member''"

fun fault_text :: "fault \<Rightarrow> string" where
  "fault_text FaultWrongPassword = ''wrong password''"
| "fault_text FaultChanged = ''input changed between passes''"
| "fault_text (FaultBadParameters b) = bad_parameter_text b"
| "fault_text (FaultInternal s) = s"
| "fault_text (FaultInflate s) = s"
| "fault_text FaultOutputLimit = ''output limit exceeded''"
| "fault_text (FaultAlloc n) = ''could not allocate '' @ decimal n @ '' bytes''"
| "fault_text (FaultDeflate s) = ''deflate failed: '' @ s"

fun io_text :: "io_error \<Rightarrow> string" where
  "io_text Interrupted = ''operation interrupted''"
| "io_text UnexpectedEof = ''unexpected end of file''"
| "io_text (WriteZero s) = s"
| "io_text (InvalidInput s) = s"
| "io_text (InvalidData s) = s"
| "io_text (OtherIo s) = s"
| "io_text (Carried f) = fault_text f"

definition changed_text :: string where
  "changed_text = ''the input changed between the verify and release passes''"

fun fault_error :: "decrypt_limits \<Rightarrow> fault \<Rightarrow> decrypt_error" where
  "fault_error limits FaultWrongPassword = WrongPassword"
| "fault_error limits FaultChanged = Io (InvalidData changed_text)"
| "fault_error limits (FaultBadParameters b) = BadParameters b"
| "fault_error limits (FaultInternal s) = Internal s"
| "fault_error limits (FaultInflate s) = Inflate s"
| "fault_error limits FaultOutputLimit = OutputLimit (max_output limits)"
| "fault_error limits (FaultAlloc n) = HostCannotAllocate StreamBuffer n"
| "fault_error limits (FaultDeflate s) = Internal (''deflate failed: '' @ s)"

definition read_error_with :: "decrypt_limits \<Rightarrow> io_error \<Rightarrow> decrypt_error" where
  "read_error_with limits e =
    (case fault_take e of Inr fault \<Rightarrow> fault_error limits fault | Inl e \<Rightarrow> ZipError (io_text e))"

definition read_error :: "io_error \<Rightarrow> decrypt_error" where
  "read_error e = read_error_with default_limits e"

definition buffer :: "host \<Rightarrow> decrypt_error + bytes" where
  "buffer h = map_err (\<lambda>_. HostCannotAllocate StreamBuffer chunk) (chunk_buffer h chunk)"

section \<open>Sizes\<close>

datatype sizes = Streamed | WholeBuffer

definition declared_size :: "int \<Rightarrow> decrypt_error + nat" where
  "declared_size sz =
    (if sz < 0 then Err (BadParameters (OutOfRange SizeField sz 0 i64_max)) else Ok (nat sz))"

fun sizes_declared :: "sizes \<Rightarrow> int \<Rightarrow> decrypt_error + nat" where
  "sizes_declared Streamed sz = declared_size sz"
| "sizes_declared WholeBuffer sz = inflated_len sz"

lemma declared_size_Ok: "declared_size sz = Inr n \<longleftrightarrow> sz = int n"
  by (auto simp: declared_size_def)

lemma sizes_declared_agree:
  "sizes_declared WholeBuffer sz = Inr n \<Longrightarrow> sizes_declared Streamed sz = Inr n \<and> n \<le> inflate_ceiling"
  by (auto simp: inflated_len_def declared_size_def split: if_splits)

section \<open>Finding the key\<close>

definition attempt ::
    "crypto \<Rightarrow> host \<Rightarrow> entry_encryption \<Rightarrow> decrypt_limits \<Rightarrow> (bytes \<Rightarrow> (bool, 's) run) \<Rightarrow> bytes
      \<Rightarrow> (bytes option, 's) run" where
  "attempt cr h row limits accepts sk =
    then_run (answer (derive_key cr h row sk limits)) (\<lambda>key.
    then_run (accepts key) (\<lambda>ok. answer (Ok (if ok then Some key else None))))"

fun try_rungs ::
    "crypto \<Rightarrow> host \<Rightarrow> entry_encryption \<Rightarrow> string \<Rightarrow> decrypt_limits \<Rightarrow> (bytes \<Rightarrow> (bool, 's) run)
      \<Rightarrow> legacy_rung list \<Rightarrow> (bytes, 's) run" where
  "try_rungs cr h row password limits accepts [] = answer (Err WrongPassword)"
| "try_rungs cr h row password limits accepts (rung # rungs) =
    then_run (attempt cr h row limits accepts
       (legacy_start_key (lib_sha1_compress cr) (lib_sha1 cr) (lib_sha256 cr) password rung)) (\<lambda>hit.
     case hit of Some key \<Rightarrow> answer (Ok key)
     | None \<Rightarrow> try_rungs cr h row password limits accepts rungs)"

definition find_key ::
    "crypto \<Rightarrow> host \<Rightarrow> entry_encryption \<Rightarrow> string \<Rightarrow> decrypt_limits \<Rightarrow> (bytes \<Rightarrow> (bool, 's) run)
      \<Rightarrow> (bytes, 's) run" where
  "find_key cr h row password limits accepts =
    then_run (attempt cr h row limits accepts
       (start_key (lib_sha1 cr) (lib_sha256 cr) (as_bytes password) (ee_start_key row))) (\<lambda>hit.
     case hit of Some key \<Rightarrow> answer (Ok key)
     | None \<Rightarrow>
         if ee_start_key row = Sha1 then try_rungs cr h row password limits accepts sha1_ladder
         else answer (Err WrongPassword))"

text \<open>The specification: the candidates in order, and the first whose key the member's check takes.\<close>

definition candidates :: "crypto \<Rightarrow> string \<Rightarrow> start_key_alg \<Rightarrow> bytes list" where
  "candidates cr password alg =
    start_key (lib_sha1 cr) (lib_sha256 cr) (as_bytes password) alg
    # (if alg = Sha1
       then map (legacy_start_key (lib_sha1_compress cr) (lib_sha1 cr) (lib_sha256 cr) password)
              [StarOfficeUtf8, ForcedSha256, StarOfficeMs1252]
       else [])"

fun first_taken ::
    "(bytes \<Rightarrow> decrypt_error + bytes) \<Rightarrow> (bytes \<Rightarrow> decrypt_error + bool) \<Rightarrow> bytes list
      \<Rightarrow> decrypt_error + bytes" where
  "first_taken derive verdict [] = Err WrongPassword"
| "first_taken derive verdict (sk # sks) =
    and_then (derive sk) (\<lambda>key. and_then (verdict key) (\<lambda>ok.
      if ok then Ok key else first_taken derive verdict sks))"

lemma first_taken_Ok:
  "first_taken derive verdict sks = Inr key \<longleftrightarrow>
    (\<exists>before sk rest. sks = before @ sk # rest \<and> derive sk = Inr key \<and> verdict key = Inr True
      \<and> (\<forall>sk' \<in> set before. \<exists>k. derive sk' = Inr k \<and> verdict k = Inr False))"
proof (induction sks)
  case Nil
  then show ?case by simp
next
  case (Cons sk sks)
  have head: "(\<exists>before sk' rest. sk # sks = before @ sk' # rest \<and> P sk' \<and> (\<forall>x \<in> set before. Q x))
      \<longleftrightarrow> P sk \<or> Q sk \<and> (\<exists>before sk' rest. sks = before @ sk' # rest \<and> P sk' \<and> (\<forall>x \<in> set before. Q x))"
    (is "?l \<longleftrightarrow> ?r") for P Q
  proof
    assume ?l
    then obtain before sk' rest where b: "sk # sks = before @ sk' # rest" "P sk'" "\<forall>x \<in> set before. Q x"
      by blast
    show ?r
    proof (cases before)
      case Nil
      then show ?thesis using b by simp
    next
      case (Cons y ys)
      then have "Q sk \<and> sks = ys @ sk' # rest \<and> (\<forall>x \<in> set ys. Q x)" using b by simp
      then show ?thesis using b(2) by blast
    qed
  next
    assume ?r
    then show ?l
    proof
      assume "P sk"
      then show ?l by (intro exI [of _ "[]"] exI [of _ sk] exI [of _ sks]) simp
    next
      assume r: "Q sk \<and> (\<exists>before sk' rest. sks = before @ sk' # rest \<and> P sk' \<and> (\<forall>x \<in> set before. Q x))"
      then obtain before sk' rest where b: "sks = before @ sk' # rest" "P sk'" "\<forall>x \<in> set before. Q x" by blast
      show ?l by (intro exI [of _ "sk # before"] exI [of _ sk'] exI [of _ rest]) (use r b in simp)
    qed
  qed
  have step: "first_taken derive verdict (sk # sks) = Inr key \<longleftrightarrow>
      (derive sk = Inr key \<and> verdict key = Inr True)
      \<or> (\<exists>k. derive sk = Inr k \<and> verdict k = Inr False) \<and> first_taken derive verdict sks = Inr key"
    by (auto split: if_splits)
  show ?case
    unfolding step Cons
    by (rule head [of "\<lambda>sk. derive sk = Inr key \<and> verdict key = Inr True", symmetric, simplified conj_assoc])
qed

text \<open>
  Whatever the check does to the state: a key that is found was derived from a candidate and taken by
  the member, in the check that came last.
\<close>

lemma attempt_cases:
  assumes "attempt cr h row limits accepts sk s = Some (q, s')"
  obtains (derive) e where "q = Inl e" "s' = s"
  | (checked) key r where "derive_key cr h row sk limits = Inr key" "accepts key s = Some (r, s')"
      "q = map_sum id (\<lambda>ok. if ok then Some key else None) r"
proof (cases "derive_key cr h row sk limits")
  case (Inl e)
  then show thesis using assms derive [of e] by (simp add: attempt_def answer_def)
next
  case (Inr key)
  show thesis
  proof (cases "accepts key s")
    case None
    then show thesis using assms by (simp add: attempt_def Inr then_run_def)
  next
    case (Some p)
    obtain r s1 where p: "p = (r, s1)" by (cases p)
    show thesis
      by (rule checked [OF Inr, of r])
         (use assms Some p in \<open>cases r; simp add: attempt_def Inr then_run_def answer_def\<close>)+
  qed
qed

lemma try_rungs_accepted:
  assumes "try_rungs cr h row password limits accepts rungs s = Some (q, s')" "kept s"
    and keeps: "\<And>k s r s'. kept s \<Longrightarrow> accepts k s = Some (r, s') \<Longrightarrow> kept s'"
  shows "kept s' \<and> (\<forall>key. q = Inr key \<longrightarrow> (\<exists>rung s1. rung \<in> set rungs
      \<and> derive_key cr h row (legacy_start_key (lib_sha1_compress cr) (lib_sha1 cr) (lib_sha256 cr) password rung)
          limits = Inr key
      \<and> kept s1 \<and> accepts key s1 = Some (Inr True, s')))"
  using assms(1,2)
proof (induction rungs arbitrary: s)
  case Nil
  then show ?case by (auto simp: answer_def)
next
  case (Cons rung rungs)
  define sk where "sk = legacy_start_key (lib_sha1_compress cr) (lib_sha1 cr) (lib_sha256 cr) password rung"
  obtain r s1 where a: "attempt cr h row limits accepts sk s = Some (r, s1)"
    and rest: "(case r of Inl e \<Rightarrow> Some (Inl e, s1)
      | Inr hit \<Rightarrow> (case hit of Some key \<Rightarrow> answer (Ok key)
          | None \<Rightarrow> try_rungs cr h row password limits accepts rungs) s1) = Some (q, s')"
    using Cons.prems(1) by (auto simp: then_run_def split: option.splits sum.splits simp flip: sk_def)
  show ?case
  proof (cases rule: attempt_cases [OF a, case_names derive checked])
    case (derive e)
    then show ?thesis using rest Cons.prems(2) by auto
  next
    case (checked key ok)
    have kept: "kept s1" by (rule keeps [OF Cons.prems(2) checked(2)])
    show ?thesis
    proof (cases ok)
      case (Inl e)
      then show ?thesis using rest checked(3) kept by auto
    next
      case (Inr taken)
      show ?thesis
      proof (cases taken)
        case True
        then show ?thesis
          using rest checked Inr kept Cons.prems(2)
          by (auto simp: answer_def sk_def intro!: exI [of _ rung] exI [of _ s])
      next
        case False
        then have "try_rungs cr h row password limits accepts rungs s1 = Some (q, s')"
          using rest checked(3) Inr by simp
        from Cons.IH [OF this kept] show ?thesis unfolding list.set by blast
      qed
    qed
  qed
qed

lemma find_key_accepted:
  assumes "find_key cr h row password limits accepts s = Some (q, s')" "kept s"
    and keeps: "\<And>k s r s'. kept s \<Longrightarrow> accepts k s = Some (r, s') \<Longrightarrow> kept s'"
  shows "kept s' \<and> (\<forall>key. q = Inr key \<longrightarrow> (\<exists>sk \<in> set (candidates cr password (ee_start_key row)). \<exists>s1.
      derive_key cr h row sk limits = Inr key \<and> kept s1 \<and> accepts key s1 = Some (Inr True, s')))"
proof -
  define sk where "sk = start_key (lib_sha1 cr) (lib_sha256 cr) (as_bytes password) (ee_start_key row)"
  have sk: "sk \<in> set (candidates cr password (ee_start_key row))" by (simp add: candidates_def sk_def)
  obtain r s1 where a: "attempt cr h row limits accepts sk s = Some (r, s1)"
    and rest: "(case r of Inl e \<Rightarrow> Some (Inl e, s1)
      | Inr hit \<Rightarrow> (case hit of Some key \<Rightarrow> answer (Ok key)
          | None \<Rightarrow> if ee_start_key row = Sha1 then try_rungs cr h row password limits accepts sha1_ladder
                    else answer (Err WrongPassword)) s1) = Some (q, s')"
    using assms(1) by (auto simp: find_key_def then_run_def split: option.splits sum.splits simp flip: sk_def)
  show ?thesis
  proof (cases rule: attempt_cases [OF a, case_names derive checked])
    case (derive e)
    then show ?thesis using rest assms(2) by auto
  next
    case (checked key ok)
    have kept: "kept s1" by (rule keeps [OF assms(2) checked(2)])
    consider (error) e where "ok = Inl e" | (taken) "ok = Inr True" | (not_taken) "ok = Inr False"
      by (cases ok) auto
    then show ?thesis
    proof cases
      case error
      then show ?thesis using rest checked(3) kept by auto
    next
      case taken
      then show ?thesis using rest checked kept assms(2) sk by (auto simp: answer_def)
    next
      case not_taken
      show ?thesis
      proof (cases "ee_start_key row = Sha1")
        case False
        then show ?thesis using rest checked(3) not_taken kept by (auto simp: answer_def)
      next
        case True
        then have walk: "try_rungs cr h row password limits accepts sha1_ladder s1 = Some (q, s')"
          using rest checked(3) not_taken by simp
        have hit: "kept s' \<and> (\<forall>key. q = Inr key \<longrightarrow> (\<exists>rung s1. rung \<in> set sha1_ladder
            \<and> derive_key cr h row (legacy_start_key (lib_sha1_compress cr) (lib_sha1 cr) (lib_sha256 cr)
                password rung) limits = Inr key
            \<and> kept s1 \<and> accepts key s1 = Some (Inr True, s')))"
          by (rule try_rungs_accepted [where kept = kept, OF walk kept]) (rule keeps)
        have "legacy_start_key (lib_sha1_compress cr) (lib_sha1 cr) (lib_sha256 cr) password rung
            \<in> set (candidates cr password (ee_start_key row))" for rung
          using True by (cases rung) (simp_all add: candidates_def)
        then show ?thesis using hit by blast
      qed
    qed
  qed
qed

text \<open>A member's check: it returns, and its verdict depends on the key alone.\<close>

locale key_check =
  fixes accepts :: "bytes \<Rightarrow> (bool, 's) run"
    and fits :: "'s \<Rightarrow> bool"
    and verdict :: "bytes \<Rightarrow> decrypt_error + bool"
  assumes checks: "fits s \<Longrightarrow> \<exists>s'. accepts key s = Some (verdict key, s') \<and> fits s'"
begin

lemma attempt_result:
  assumes "fits s"
  obtains s' where "attempt cr h row limits accepts sk s =
      Some (and_then (derive_key cr h row sk limits) (\<lambda>key. and_then (verdict key) (\<lambda>ok.
        Ok (if ok then Some key else None))), s')" "fits s'"
proof (cases "derive_key cr h row sk limits")
  case (Inl e)
  then show thesis using assms that by (simp add: attempt_def answer_def)
next
  case (Inr key)
  obtain s' where s': "accepts key s = Some (verdict key, s')" "fits s'" using checks [OF assms] by blast
  then show thesis
    using Inr that [of s'] by (cases "verdict key") (simp_all add: attempt_def then_run_at answer_def)
qed

lemma try_rungs_result:
  assumes "fits s"
  shows "\<exists>s'. try_rungs cr h row password limits accepts rungs s =
      Some (first_taken (\<lambda>sk. derive_key cr h row sk limits) verdict
        (map (legacy_start_key (lib_sha1_compress cr) (lib_sha1 cr) (lib_sha256 cr) password) rungs), s')
    \<and> fits s'"
  using assms
proof (induction rungs arbitrary: s)
  case (Cons rung rungs)
  define sk where "sk = legacy_start_key (lib_sha1_compress cr) (lib_sha1 cr) (lib_sha256 cr) password rung"
  obtain s1 where s1: "attempt cr h row limits accepts sk s =
      Some (and_then (derive_key cr h row sk limits) (\<lambda>key. and_then (verdict key) (\<lambda>ok.
        Ok (if ok then Some key else None))), s1)" "fits s1"
    by (rule attempt_result [OF Cons.prems])
  show ?case
  proof (cases "derive_key cr h row sk limits")
    case (Inl e)
    then show ?thesis using s1 by (simp add: then_run_at flip: sk_def)
  next
    case (Inr key)
    show ?thesis
    proof (cases "verdict key")
      case (Inl e)
      then show ?thesis using s1 Inr by (simp add: then_run_at flip: sk_def)
    next
      case ok: (Inr ok)
      show ?thesis
      proof (cases ok)
        case True
        then show ?thesis using s1 Inr ok by (simp add: then_run_at answer_def flip: sk_def)
      next
        case False
        then show ?thesis using s1 Inr ok Cons.IH [OF s1(2)] by (simp add: then_run_at flip: sk_def)
      qed
    qed
  qed
qed (auto simp: answer_def)

lemma find_key_result:
  assumes "fits s"
  obtains s' where "find_key cr h row password limits accepts s =
      Some (first_taken (\<lambda>sk. derive_key cr h row sk limits) verdict
        (candidates cr password (ee_start_key row)), s')" "fits s'"
proof -
  define sk where "sk = start_key (lib_sha1 cr) (lib_sha256 cr) (as_bytes password) (ee_start_key row)"
  define rest where "rest = (if ee_start_key row = Sha1
       then map (legacy_start_key (lib_sha1_compress cr) (lib_sha1 cr) (lib_sha256 cr) password) sha1_ladder
       else [])"
  obtain s1 where s1: "attempt cr h row limits accepts sk s =
      Some (and_then (derive_key cr h row sk limits) (\<lambda>key. and_then (verdict key) (\<lambda>ok.
        Ok (if ok then Some key else None))), s1)" "fits s1"
    by (rule attempt_result [OF assms])
  have c: "candidates cr password (ee_start_key row) = sk # rest"
    by (simp add: candidates_def sk_def rest_def sha1_ladder_def)
  obtain s2 where s2: "(if ee_start_key row = Sha1 then try_rungs cr h row password limits accepts sha1_ladder
         else answer (Err WrongPassword)) s1
      = Some (first_taken (\<lambda>sk. derive_key cr h row sk limits) verdict rest, s2)" "fits s2"
    using try_rungs_result [OF s1(2), of cr h row password limits sha1_ladder] s1(2)
    by (cases "ee_start_key row = Sha1") (auto simp: rest_def answer_def)
  show thesis
  proof (cases "derive_key cr h row sk limits")
    case (Inl e)
    then show thesis using s1 that [of s1] unfolding c by (simp add: find_key_def then_run_at flip: sk_def)
  next
    case (Inr key)
    show thesis
    proof (cases "verdict key")
      case (Inl e)
      then show thesis
        using s1 Inr that [of s1] unfolding c by (simp add: find_key_def then_run_at flip: sk_def)
    next
      case ok: (Inr ok)
      show thesis
      proof (cases ok)
        case True
        then show thesis
          using s1 Inr ok that [of s1] unfolding c
          by (simp add: find_key_def then_run_at answer_def flip: sk_def)
      next
        case False
        then show thesis
          using s1 s2 Inr ok that [of s2] unfolding c by (simp add: find_key_def then_run_at flip: sk_def)
      qed
    qed
  qed
qed

end

end
