(* ===== verification/Encrypt.thy ===== *)
theory Encrypt
  imports Strip_Manifest Package
begin

text \<open>
  The checks, the cost parameters and the manifest of \<^verbatim>\<open>src/encrypt.rs\<close>.  The lemmas show that a cost tuple
  the constructor admits is one the key derivation runs, that a media type it passes survives its spelling
  in an attribute, and that Stage A reads the manifest back as the row it was written for.
\<close>

section \<open>The profile and the cost of a key\<close>

record profile =
  pf_argon2_t :: int
  pf_argon2_m_kib :: int
  pf_argon2_p :: int
  pf_derived_key_len :: nat
  pf_salt_len :: nat
  pf_iv_len :: nat
  pf_odf_version :: string

definition wholesome_profile :: profile where
  "wholesome_profile = \<lparr>pf_argon2_t = 3, pf_argon2_m_kib = 65536, pf_argon2_p = 4, pf_derived_key_len = 32,
     pf_salt_len = 16, pf_iv_len = 12, pf_odf_version = ''1.4''\<rparr>"

fun axis_text :: "argon2_axis \<Rightarrow> string" where
  "axis_text AxisT = ''t''"
| "axis_text AxisMKib = ''m''"
| "axis_text AxisP = ''p''"

datatype params_reason =
    ParamsOutOfRange argon2_axis int nat nat
  | ParamsCipherRejects argon2_axis int nat nat

record argon2_params =
  ap_t :: int
  ap_m_kib :: int
  ap_p :: int

definition libreoffice_default :: argon2_params where
  "libreoffice_default = \<lparr>ap_t = pf_argon2_t wholesome_profile, ap_m_kib = pf_argon2_m_kib wholesome_profile,
     ap_p = pf_argon2_p wholesome_profile\<rparr>"

datatype encrypt_error =
    EncClassify detect_error
  | AlreadyEncrypted
  | PartiallyEncrypted
  | EncOdf12Fatal
  | EncEmptyPassword
  | Random string
  | ParamsError params_reason
  | EncHostCannotAllocate nat
  | DeflateRefused string
  | MimetypeError string
  | EncZip string
  | EncInternal string
  | EncIo io_error

text \<open>\<^verbatim>\<open>(lo..=hi).contains(&u32::try_from(x).unwrap_or(0))\<close>.\<close>

definition in_u32_range :: "nat \<Rightarrow> nat \<Rightarrow> int \<Rightarrow> bool" where
  "in_u32_range lo hi x =
    (let n = (case u32_try_from x of Some n \<Rightarrow> n | None \<Rightarrow> 0) in lo \<le> n \<and> n \<le> hi)"

definition argon2_new :: "int \<Rightarrow> int \<Rightarrow> int \<Rightarrow> encrypt_error + argon2_params" where
  "argon2_new t m p =
    (if \<not> in_u32_range argon2_min_t_cost argon2_max_t_cost_write t
     then Err (ParamsError (ParamsOutOfRange AxisT t argon2_min_t_cost argon2_max_t_cost_write))
     else if \<not> in_u32_range argon2_min_m_cost_kib argon2_max_m_cost_kib_write m
     then Err (ParamsError (ParamsOutOfRange AxisMKib m argon2_min_m_cost_kib argon2_max_m_cost_kib_write))
     else if \<not> in_u32_range argon2_min_p_cost max_p_cost p
     then Err (ParamsError (ParamsCipherRejects AxisP p argon2_min_p_cost max_p_cost))
     else if m < 8 * p
     then Err (ParamsError (ParamsCipherRejects AxisMKib m
            (case u32_try_from (8 * p) of Some n \<Rightarrow> n | None \<Rightarrow> u32_max) argon2_max_m_cost_kib_write))
     else Ok \<lparr>ap_t = t, ap_m_kib = m, ap_p = p\<rparr>)"

definition is_weaker_than_libreoffice :: "argon2_params \<Rightarrow> bool" where
  "is_weaker_than_libreoffice ps \<longleftrightarrow>
    ap_t ps < ap_t libreoffice_default \<or> ap_m_kib ps < ap_m_kib libreoffice_default
    \<or> ap_p ps < ap_p libreoffice_default"

section \<open>Screening and drawing\<close>

definition screen_input :: "classification \<Rightarrow> encrypt_error + unit" where
  "screen_input class =
    (if cl_mode class \<noteq> Plain then
       Err (if cl_package_encrypted class then AlreadyEncrypted else PartiallyEncrypted)
     else if cl_odf12_fatal class then Err EncOdf12Fatal
     else Ok ())"

text \<open>
  The operating system's generator: what the \<^verbatim>\<open>k\<close>th call for \<^verbatim>\<open>n\<close> bytes gives.
\<close>

type_synonym entropy = "nat \<Rightarrow> nat \<Rightarrow> string + bytes"

definition random_bytes :: "entropy \<Rightarrow> nat \<Rightarrow> nat \<Rightarrow> encrypt_error + bytes" where
  "random_bytes rng k len = map_err Random (rng k len)"

text \<open>\<^verbatim>\<open>derive_write_key\<close>: the ceilings are the write path's own.\<close>

definition write_limits :: decrypt_limits where
  "write_limits = with_argon2_max_m_kib argon2_max_m_cost_kib_write
     (with_argon2_max_t argon2_max_t_cost_write permissive_limits)"

fun write_kdf_error :: "kdf_error \<Rightarrow> encrypt_error" where
  "write_kdf_error (KdfParams b) = EncInternal (bad_parameter_text b)"
| "write_kdf_error (KdfInternal s) = EncInternal s"
| "write_kdf_error (KdfCannotAllocate n) = EncHostCannotAllocate n"
| "write_kdf_error (KdfCannotSpawn n) = EncHostCannotAllocate n"

definition derive_write_key ::
    "crypto \<Rightarrow> host \<Rightarrow> string \<Rightarrow> bytes \<Rightarrow> argon2_params \<Rightarrow> encrypt_error + bytes" where
  "derive_write_key cr h password salt ps =
    (let sk = start_key (lib_sha1 cr) (lib_sha256 cr) (as_bytes password) Sha256 in
     map_err write_kdf_error
       (derive_argon2id (lib_argon2 cr) h sk salt (ap_t ps) (ap_m_kib ps) (ap_p ps) write_limits
         (pf_derived_key_len wholesome_profile)))"

section \<open>The media type\<close>

text \<open>
  \<^verbatim>\<open>String::from_utf8\<close>: how far the text is valid, and the text of the error; the length of the ill-formed
  sequence is absent when the input ends inside one.
\<close>

function valid_up_to :: "string \<Rightarrow> nat" where
  "valid_up_to s =
    (let front = utf8_front (map of_char s) in
     if s = [] \<or> \<not> fst front then 0 else snd front + valid_up_to (drop (snd front) s))"
  by pat_completeness auto
termination by (relation "measure length") (auto simp: utf8_front_pos)

declare valid_up_to.simps [simp del]

definition utf8_error_text :: "string \<Rightarrow> string" where
  "utf8_error_text s =
    (let at = valid_up_to s; rest = map of_char (drop at s) :: nat list; n = snd (utf8_front rest) in
     if 194 \<le> hd rest \<and> hd rest \<le> 244 \<and> n = length rest
     then ''incomplete utf-8 byte sequence from index '' @ dec_string at
     else ''invalid utf-8 sequence of '' @ dec_string n @ '' bytes from index '' @ dec_string at)"

text \<open>\<^verbatim>\<open>{:04X}\<close>.\<close>

definition hex_digit :: "nat \<Rightarrow> char" where
  "hex_digit n = (if n < 10 then char_of (48 + n) else char_of (55 + n))"

fun hex_string :: "nat \<Rightarrow> string" where
  "hex_string n = (if n < 16 then [hex_digit n] else hex_string (n div 16) @ [hex_digit (n mod 16)])"

declare hex_string.simps [simp del]

definition hex4 :: "nat \<Rightarrow> string" where
  "hex4 n = (let s = hex_string n in replicate (4 - length s) (CHR ''0'') @ s)"

definition is_xml_char :: "nat \<Rightarrow> bool" where
  "is_xml_char c \<longleftrightarrow> c = 9 \<or> c = 10 \<or> c = 13 \<or> 0x20 \<le> c \<and> c \<le> 0xD7FF \<or> 0xE000 \<le> c \<and> c \<le> 0xFFFD
     \<or> 0x10000 \<le> c \<and> c \<le> 0x10FFFF"

definition validate_media_type :: "string \<Rightarrow> encrypt_error + string" where
  "validate_media_type raw =
    (if \<not> utf8_valid raw then Err (MimetypeError (''not valid UTF-8: '' @ utf8_error_text raw))
     else case find (\<lambda>c. \<not> is_xml_char c) (utf8_chars raw) of
       Some c \<Rightarrow> Err (MimetypeError (''contains U+'' @ hex4 c @ '', not an XML 1.0 Char''))
     | None \<Rightarrow> (case find (\<lambda>c. c = 9 \<or> c = 10 \<or> c = 13) (utf8_chars raw) of
         Some c \<Rightarrow> Err (MimetypeError (''contains U+'' @ hex4 c
             @ '', which XML attribute-value normalization would turn into a space, making the manifest ''
             @ ''attribute disagree with the verbatim mimetype member''))
       | None \<Rightarrow> Ok raw))"

text \<open>\<^verbatim>\<open>archive.by_name("mimetype")\<close>: the entry of that name, unless it is absent or cannot be opened.\<close>

definition by_mimetype_name :: "archive \<Rightarrow> zip_entry option" where
  "by_mimetype_name archive =
    find (\<lambda>e. ze_raw_name e = ''mimetype'') (concat (map (case_sum (\<lambda>_. []) (\<lambda>e. [e])) archive))"

text \<open>\<^verbatim>\<open>take(n).read_to_end\<close>, an error as its message.\<close>

definition read_at_most :: "zip_entry \<Rightarrow> nat \<Rightarrow> string + string" where
  "read_at_most e n =
    (if length (ze_data e) \<ge> n then Ok (take n (ze_data e))
     else case ze_fault e of Some msg \<Rightarrow> Err msg | None \<Rightarrow> Ok (ze_data e))"

definition read_input_mimetype_member :: "archive \<Rightarrow> encrypt_error + string option" where
  "read_input_mimetype_member archive =
    (case by_mimetype_name archive of
       None \<Rightarrow> Ok None
     | Some e \<Rightarrow>
        and_then (map_err EncZip (read_at_most e (mimetype_ceiling + 1))) (\<lambda>buf.
        if length buf > mimetype_ceiling
        then Err (MimetypeError (''member exceeds ceiling '' @ dec_string mimetype_ceiling
               @ '', which is all classify itself read''))
        else Ok (Some buf)))"

definition resolve_mimetype :: "archive \<Rightarrow> string option \<Rightarrow> encrypt_error + string option" where
  "resolve_mimetype archive classify_media_type =
    and_then (read_input_mimetype_member archive) (\<lambda>member.
      case member of
        Some raw \<Rightarrow> map_sum id Some (validate_media_type raw)
      | None \<Rightarrow> Ok classify_media_type)"

section \<open>The manifest\<close>

text \<open>
  \<^verbatim>\<open>push_attribute\<close> of \<^verbatim>\<open>quick_xml\<close> spells a value with the five predefined entities.  \<^verbatim>\<open>write_event\<close> into a vector
  cannot fail, so the manifest is the list of its events.
\<close>

definition attribute :: "string \<Rightarrow> string \<Rightarrow> (string \<times> string) option" where
  "attribute key v = Some (key, xml_escape v)"

definition build_manifest ::
    "int \<Rightarrow> bytes \<Rightarrow> bytes \<Rightarrow> string option \<Rightarrow> argon2_params \<Rightarrow> raw_event list" where
  "build_manifest sz iv salt media_type ps =
    (let root = [attribute ''xmlns:manifest'' manifest_ns_oasis, attribute ''xmlns:loext'' manifest_ns_loext,
                 attribute attr_version (pf_odf_version wholesome_profile)];
         entry = [attribute attr_full_path encrypted_package, attribute attr_size (int_string sz)]
                 @ (case media_type of Some mt \<Rightarrow> [attribute attr_media_type mt] | None \<Rightarrow> []);
         algorithm = [attribute attr_algorithm_name aesgcm256_url, attribute attr_iv (encode_b64 iv)];
         key_size = dec_string (pf_derived_key_len wholesome_profile);
         start_key_gen = [attribute attr_start_key_name sha256_url, attribute attr_key_size key_size];
         key_derivation = [attribute attr_key_derivation_name argon2id_url_lo,
           attribute attr_argon2_t_lo (int_string (ap_t ps)), attribute attr_argon2_m_lo (int_string (ap_m_kib ps)),
           attribute attr_argon2_p_lo (int_string (ap_p ps)), attribute attr_salt (encode_b64 salt),
           attribute attr_key_size key_size]
     in [RawOther OtherMisc, RawStart element_manifest root, RawStart element_file_entry entry,
         RawStart element_encryption_data [], RawEmpty element_algorithm algorithm,
         RawEmpty element_start_key_generation start_key_gen, RawEmpty element_key_derivation key_derivation,
         RawEnd element_encryption_data, RawEnd element_file_entry, RawEnd element_manifest])"

section \<open>Cost tuples\<close>

lemma argon2_new_Ok:
  "argon2_new t m p = Inr ps \<longleftrightarrow> ps = \<lparr>ap_t = t, ap_m_kib = m, ap_p = p\<rparr>
     \<and> 1 \<le> t \<and> t \<le> i32_max \<and> 1 \<le> m \<and> m \<le> i32_max \<and> 1 \<le> p \<and> p \<le> 0xFFFFFF \<and> 8 * p \<le> m"
  by (auto simp: argon2_new_def in_u32_range_def u32_try_from_def limit_defs max_p_cost_def int_limits u32_max_def Let_def
      split: if_splits)

lemma write_limits_simps:
  "argon2_max_t write_limits = 2 ^ 31 - 1" "argon2_max_m_kib write_limits = 2 ^ 31 - 1"
  "argon2_max_p write_limits = 2 ^ 31 - 1"
  by (simp_all add: write_limits_def with_argon2_max_t_def with_argon2_max_m_kib_def permissive_limits_def limit_defs)

lemma new_params_screened:
  assumes "argon2_new t m p = Inr ps" "length salt = 16"
  shows "argon2_screen write_limits (ap_t ps) (ap_m_kib ps) (ap_p ps) (length salt) = Inr (nat t, nat m, nat p)"
  using assms unfolding argon2_new_Ok argon2_screen_Ok write_limits_simps
  by (auto simp: int_limits u32_max_def)

section \<open>Text that is well-formed\<close>

text \<open>One well-formed sequence at the front: an ASCII byte, or bytes that are all above it.\<close>

lemma front_shape:
  assumes "utf8_front bs = (True, n)" "bs \<noteq> []"
  obtains (one) "n = 1" "bs ! 0 < 128"
    | (two) "n = 2" "1 < length bs" "194 \<le> bs ! 0" "bs ! 0 < 224" "is_cont (bs ! 1)"
    | (three) "n = 3" "2 < length bs" "224 \<le> bs ! 0" "bs ! 0 < 240" "second_ok (bs ! 0) (bs ! 1)" "is_cont (bs ! 2)"
    | (four) "n = 4" "3 < length bs" "240 \<le> bs ! 0" "bs ! 0 \<le> 244" "second_ok (bs ! 0) (bs ! 1)" "is_cont (bs ! 2)"
        "is_cont (bs ! 3)"
proof -
  define B where "B i = (if i < length bs then bs ! i else 0)" for i
  have B: "i < length bs \<and> B i = bs ! i" if "128 \<le> B i" for i using that by (auto simp: B_def split: if_splits)
  have B0: "B 0 = bs ! 0" using assms(2) by (simp add: B_def)
  have cont: "is_cont b \<Longrightarrow> 128 \<le> b" for b by (simp add: is_cont_def)
  have front: "(True, n) = (let b = B 0 in
     if b < 128 then (True, 1)
     else if b < 194 \<or> 244 < b then (False, 1)
     else if b < 224 then (if is_cont (B 1) then (True, 2) else (False, 1))
     else if b < 240 then
       (if \<not> second_ok b (B 1) then (False, 1)
        else if \<not> is_cont (B 2) then (False, 2) else (True, 3))
     else
       (if \<not> second_ok b (B 1) then (False, 1)
        else if \<not> is_cont (B 2) then (False, 2)
        else if \<not> is_cont (B 3) then (False, 3) else (True, 4)))"
    unfolding assms(1) [symmetric] utf8_front_def B_def Let_def ..
  have "n = 1 \<and> B 0 < 128 \<or> n = 2 \<and> 194 \<le> B 0 \<and> B 0 < 224 \<and> is_cont (B 1)
    \<or> n = 3 \<and> 224 \<le> B 0 \<and> B 0 < 240 \<and> second_ok (B 0) (B 1) \<and> is_cont (B 2)
    \<or> n = 4 \<and> 240 \<le> B 0 \<and> B 0 \<le> 244 \<and> second_ok (B 0) (B 1) \<and> is_cont (B 2) \<and> is_cont (B 3)"
    using front unfolding Let_def by (simp only: split: if_splits) (simp_all add: not_less)
  then consider "n = 1" "B 0 < 128" | "n = 2" "194 \<le> B 0" "B 0 < 224" "is_cont (B 1)"
    | "n = 3" "224 \<le> B 0" "B 0 < 240" "second_ok (B 0) (B 1)" "is_cont (B 2)"
    | "n = 4" "240 \<le> B 0" "B 0 \<le> 244" "second_ok (B 0) (B 1)" "is_cont (B 2)" "is_cont (B 3)"
    by blast
  then show thesis
  proof cases
    case 1 then show thesis using one B0 by simp
  next
    case 2 then show thesis using two B0 B [OF cont [OF 2(4)]] by simp
  next
    case 3 then show thesis using three B0 B [OF second_ok_high [OF 3(4)]] B [OF cont [OF 3(5)]] by simp
  next
    case 4 then show thesis
      using four B0 B [OF second_ok_high [OF 4(4)]] B [OF cont [OF 4(5)]] B [OF cont [OF 4(6)]] by simp
  qed
qed

text \<open>Such a sequence decodes to one code point, and does not depend on what follows.\<close>

lemma front_sequence:
  assumes "utf8_front (map of_char s) = (True, n)" "s \<noteq> []"
  shows "0 < n \<and> n \<le> length s \<and> utf8_front (map of_char (take n s @ r)) = (True, n)
    \<and> (if is_ascii (hd s) then n = 1 else \<forall>c \<in> set (take n s). \<not> is_ascii c)
    \<and> (\<exists>u. utf8_chars s = u # utf8_chars (drop n s) \<and> (is_ascii (hd s) \<longrightarrow> u = of_char (hd s)))"
proof -
  obtain c cs where s: "s = c # cs" using assms(2) by (cases s) auto
  have high: "\<not> is_ascii c \<Longrightarrow> \<forall>d \<in> set (take n s). \<not> is_ascii d"
    using utf8_front_high [of c n cs] assms(1) s by simp
  from assms have "map of_char s \<noteq> ([] :: nat list)" by simp
  from assms(1) this show ?thesis
  proof (cases rule: front_shape)
    case one
    then show ?thesis using s by (auto simp: is_ascii_def utf8_front_def Let_def)
  next
    case two
    then obtain d ds where "s = c # d # ds" using s by (cases cs) auto
    then show ?thesis using two high by (auto simp: is_ascii_def utf8_front_def Let_def utf8_chars.simps)
  next
    case three
    then obtain d e ds where "s = c # d # e # ds" using s by (cases cs; cases "tl cs") auto
    then show ?thesis using three high by (auto simp: is_ascii_def utf8_front_def Let_def utf8_chars.simps)
  next
    case four
    then obtain d e f ds where "s = c # d # e # f # ds" using s by (cases cs; cases "tl cs"; cases "tl (tl cs)") auto
    then show ?thesis using four high by (auto simp: is_ascii_def utf8_front_def Let_def utf8_chars.simps)
  qed
qed

lemma utf8_valid_unfold: "s \<noteq> [] \<Longrightarrow> utf8_valid s \<longleftrightarrow>
    fst (utf8_front (map of_char s)) \<and> utf8_valid (drop (snd (utf8_front (map of_char s))) s)"
  by (subst utf8_valid.simps) (simp add: Let_def)

lemma ascii_byte_is_char:
  "utf8_valid s \<Longrightarrow> c \<in> set s \<Longrightarrow> is_ascii c \<Longrightarrow> of_char c \<in> set (utf8_chars s)"
proof (induction s rule: utf8_valid.induct)
  case (1 s)
  then have ne: "s \<noteq> []" by auto
  define n where "n = snd (utf8_front (map of_char s))"
  have front: "utf8_front (map of_char s) = (True, n)" and rest: "utf8_valid (drop n s)"
    using 1(2) ne by (auto simp: utf8_valid_unfold n_def prod_eq_iff)
  note F = front_sequence [OF front ne, where r = "[]"]
  obtain u where u: "utf8_chars s = u # utf8_chars (drop n s)" "is_ascii (hd s) \<Longrightarrow> u = of_char (hd s)"
    using F by blast
  have IH: "c \<in> set (drop n s) \<Longrightarrow> of_char c \<in> set (utf8_chars (drop n s))"
    using 1(1) [OF ne refl] rest 1(4) by (simp add: n_def)
  show ?case
  proof (cases "c \<in> set (drop n s)")
    case True
    then show ?thesis using IH u(1) by simp
  next
    case False
    then have c: "c \<in> set (take n s)" using 1(3) by (metis append_take_drop_id Un_iff set_append)
    show ?thesis
    proof (cases "is_ascii (hd s)")
      case True
      then have "n = 1" using F by simp
      then have "c = hd s" using c ne by (cases s) auto
      then show ?thesis using u True by simp
    next
      case high: False
      then show ?thesis using F c 1(4) by auto
    qed
  qed
qed

lemma xml_escape_append [simp]: "xml_escape (a @ b) = xml_escape a @ xml_escape b"
  by (induction a) auto

lemma xml_escape_high: "\<forall>c \<in> set s. \<not> is_ascii c \<Longrightarrow> xml_escape s = s"
proof (induction s)
  case (Cons c s)
  have "xml_entity c = None" using Cons.prems by (auto simp: xml_entity_def is_ascii_def)
  then show ?case using Cons by simp
qed simp

lemma utf8_valid_ascii_front: "\<forall>c \<in> set a. is_ascii c \<Longrightarrow> utf8_valid (a @ s) = utf8_valid s"
  by (induction a) (simp_all add: utf8_valid_unfold utf8_front_ascii del: list.map)

lemma xml_entity_ascii: "xml_entity c = Some name \<Longrightarrow> \<forall>d \<in> set name. is_ascii d"
  by (auto simp: xml_entity_def is_ascii_def split: if_splits)

lemma utf8_valid_escape: "utf8_valid s \<Longrightarrow> utf8_valid (xml_escape s)"
proof (induction s rule: utf8_valid.induct)
  case (1 s)
  show ?case
  proof (cases "s = []")
    case True
    then show ?thesis using 1(2) by simp
  next
    case ne: False
    define n where "n = snd (utf8_front (map of_char s))"
    have front: "utf8_front (map of_char s) = (True, n)" and rest: "utf8_valid (drop n s)"
      using 1(2) ne by (auto simp: utf8_valid_unfold n_def prod_eq_iff)
    note F = front_sequence [OF front ne, where r = "xml_escape (drop n s)"]
    have IH: "utf8_valid (xml_escape (drop n s))" using 1(1) [OF ne refl] rest by (simp add: n_def)
    show ?thesis
    proof (cases "is_ascii (hd s)")
      case True
      then have "n = 1" using F by simp
      then obtain c where s: "s = c # drop n s" "is_ascii c" using True ne that [of "hd s"] by (simp add: drop_Suc)
      have "\<forall>d \<in> set (xml_escape [c]). is_ascii d"
      proof (cases "xml_entity c")
        case None
        then show ?thesis using s(2) by simp
      next
        case (Some name)
        moreover have "is_ascii (CHR ''&'')" "is_ascii (CHR '';'')" by (simp_all add: is_ascii_def)
        ultimately show ?thesis using xml_entity_ascii [OF Some] by simp
      qed
      then have "utf8_valid (xml_escape [c] @ xml_escape (drop n s))" using IH utf8_valid_ascii_front by blast
      then have "utf8_valid (xml_escape (c # drop n s))" using xml_escape_append [of "[c]" "drop n s"] by simp
      then show ?thesis using s(1) by metis
    next
      case False
      then have high: "xml_escape (take n s) = take n s" using F xml_escape_high by auto
      have split: "xml_escape s = take n s @ xml_escape (drop n s)"
        using xml_escape_append [of "take n s" "drop n s"] high by simp
      have "take n s \<noteq> []" using F ne by auto
      then show ?thesis unfolding split using IH F by (subst utf8_valid_unfold) auto
    qed
  qed
qed

lemma validate_media_type_Ok:
  assumes "validate_media_type raw = Inr mt"
  shows "mt = raw" "utf8_valid mt" "\<forall>c \<in> set mt. c \<notin> {CHR 13, CHR 10, CHR 9}"
    "\<forall>u \<in> set (utf8_chars mt). is_xml_char u"
proof -
  have raw: "utf8_valid raw" "\<forall>u \<in> set (utf8_chars raw). is_xml_char u"
    "\<forall>u \<in> set (utf8_chars raw). u \<noteq> 9 \<and> u \<noteq> 10 \<and> u \<noteq> 13" and mt: "mt = raw"
    using assms by (auto simp: validate_media_type_def find_None_iff split: if_splits option.splits)
  show "mt = raw" "utf8_valid mt" "\<forall>u \<in> set (utf8_chars mt). is_xml_char u" using raw mt by simp_all
  show "\<forall>c \<in> set mt. c \<notin> {CHR 13, CHR 10, CHR 9}"
  proof
    fix c assume "c \<in> set mt"
    then have "is_ascii c \<Longrightarrow> of_char c \<in> set (utf8_chars raw)" using ascii_byte_is_char raw(1) mt by auto
    then have "is_ascii c \<Longrightarrow> (of_char c :: nat) \<noteq> 9 \<and> (of_char c :: nat) \<noteq> 10 \<and> (of_char c :: nat) \<noteq> 13"
      using raw(3) by auto
    then show "c \<notin> {CHR 13, CHR 10, CHR 9}" by (auto simp: is_ascii_def)
  qed
qed

lemma media_type_spelled:
  assumes "validate_media_type raw = Inr mt"
  shows "utf8_valid (xml_escape mt)" "normalize_attr_value (xml_escape mt) = mt"
  using validate_media_type_Ok [OF assms] utf8_valid_escape normalize_xml_escape by auto

lemma lead_bits:
  fixes b d :: nat
  shows "194 \<le> b \<Longrightarrow> b < 224 \<Longrightarrow> 128 \<le> (b mod 32) * 64"
    and "224 \<le> b \<Longrightarrow> b < 240 \<Longrightarrow> second_ok b d \<Longrightarrow> 128 \<le> (b mod 16) * 4096 + (d mod 64) * 64"
    and "240 \<le> b \<Longrightarrow> b \<le> 244 \<Longrightarrow> second_ok b d \<Longrightarrow> 128 \<le> (b mod 8) * 262144 + (d mod 64) * 4096"
proof -
  show "128 \<le> (b mod 32) * 64" if "194 \<le> b" "b < 224"
  proof -
    have "b = 32 * 6 + (b - 192)" "b - 192 < 32" "2 \<le> b - 192" using that by simp_all
    then have "b mod 32 = b - 192" by (metis mod_mult_self4 mod_less)
    then show ?thesis using \<open>2 \<le> b - 192\<close> by linarith
  qed
  show "128 \<le> (b mod 16) * 4096 + (d mod 64) * 64" if "224 \<le> b" "b < 240" "second_ok b d"
  proof (cases "b = 224")
    case True
    then have "160 \<le> d" "d \<le> 191" using that(3) by (simp_all add: second_ok_def)
    then have "32 \<le> d mod 64" by presburger
    then show ?thesis by linarith
  next
    case False
    then have "1 \<le> b mod 16" using that(1,2) by presburger
    then show ?thesis by linarith
  qed
  show "128 \<le> (b mod 8) * 262144 + (d mod 64) * 4096" if "240 \<le> b" "b \<le> 244" "second_ok b d"
  proof (cases "b = 240")
    case True
    then have "144 \<le> d" "d \<le> 191" using that(3) by (simp_all add: second_ok_def)
    then have "16 \<le> d mod 64" by presburger
    then show ?thesis by linarith
  next
    case False
    then have "1 \<le> b mod 8" using that(1,2) by presburger
    then show ?thesis by linarith
  qed
qed

lemma small_value_ascii:
  assumes "utf8_front (map of_char s) = (True, n)" "s \<noteq> []" "utf8_chars s = u # us" "u < 128"
  shows "u = of_char (hd s)"
proof -
  obtain c cs where s: "s = c # cs" using assms(2) by (cases s) auto
  from assms(2) have ne: "map of_char s \<noteq> ([] :: nat list)" by simp
  from assms(1) ne show ?thesis
  proof (cases rule: front_shape)
    case one
    then show ?thesis using s assms(3) by (auto simp: utf8_chars.simps)
  next
    case two
    then obtain d ds where d: "s = c # d # ds" using s by (cases cs) auto
    then show ?thesis using two assms(3,4) lead_bits(1) [of "of_char c"]
      by (auto simp: utf8_chars.simps cont.simps Let_def)
  next
    case three
    then obtain d e ds where d: "s = c # d # e # ds" using s by (cases cs; cases "tl cs") auto
    then show ?thesis using three assms(3,4) lead_bits(2) [of "of_char c" "of_char d"]
      by (auto simp: utf8_chars.simps cont.simps Let_def)
  next
    case four
    then obtain d e f ds where "s = c # d # e # f # ds" using s by (cases cs; cases "tl cs"; cases "tl (tl cs)") auto
    then show ?thesis using four assms(3,4) lead_bits(3) [of "of_char c" "of_char d"]
      by (auto simp: utf8_chars.simps cont.simps Let_def)
  qed
qed

lemma char_is_ascii_byte:
  "utf8_valid s \<Longrightarrow> u \<in> set (utf8_chars s) \<Longrightarrow> u < 128 \<Longrightarrow> \<exists>c \<in> set s. u = of_char c"
proof (induction s rule: utf8_valid.induct)
  case (1 s)
  then have ne: "s \<noteq> []" by auto
  define n where "n = snd (utf8_front (map of_char s))"
  have front: "utf8_front (map of_char s) = (True, n)" and rest: "utf8_valid (drop n s)"
    using 1(2) ne by (auto simp: utf8_valid_unfold n_def prod_eq_iff)
  obtain v where v: "utf8_chars s = v # utf8_chars (drop n s)"
    using front_sequence [OF front ne, where r = "[]"] by blast
  show ?case
  proof (cases "u = v")
    case True
    then show ?thesis using small_value_ascii [OF front ne v] 1(4) ne by (intro bexI [of _ "hd s"]) auto
  next
    case False
    then have "u \<in> set (utf8_chars (drop n s))" using 1(3) v by simp
    then show ?thesis using 1(1) [OF ne refl] rest 1(4) in_set_dropD by (fastforce simp: n_def)
  qed
qed

text \<open>What the constructor of a checked media type admits, as a condition on the text.\<close>

lemma validate_media_type_iff:
  "(\<exists>mt'. validate_media_type mt = Inr mt') \<longleftrightarrow> utf8_valid mt \<and> (\<forall>u \<in> set (utf8_chars mt). is_xml_char u)
     \<and> set mt \<inter> {CHR 9, CHR 10, CHR 13} = {}"
proof
  assume "\<exists>mt'. validate_media_type mt = Inr mt'"
  then obtain mt' where "validate_media_type mt = Inr mt'" ..
  note ok = validate_media_type_Ok [OF this]
  show "utf8_valid mt \<and> (\<forall>u \<in> set (utf8_chars mt). is_xml_char u) \<and> set mt \<inter> {CHR 9, CHR 10, CHR 13} = {}"
    using ok(2-4) unfolding ok(1) by (simp add: disjoint_iff)
next
  assume ok: "utf8_valid mt \<and> (\<forall>u \<in> set (utf8_chars mt). is_xml_char u) \<and> set mt \<inter> {CHR 9, CHR 10, CHR 13} = {}"
  have "u \<noteq> 9 \<and> u \<noteq> 10 \<and> u \<noteq> 13" if u: "u \<in> set (utf8_chars mt)" for u
  proof (rule ccontr)
    assume bad: "\<not> (u \<noteq> 9 \<and> u \<noteq> 10 \<and> u \<noteq> 13)"
    then have "u < 128" by auto
    then obtain c where c: "c \<in> set mt" "u = of_char c" using char_is_ascii_byte [OF _ u] ok by blast
    have codes: "(of_char (CHR 9) :: nat) = 9" "(of_char (CHR 10) :: nat) = 10" "(of_char (CHR 13) :: nat) = 13"
      by simp_all
    have "u = of_char (CHR 9) \<or> u = of_char (CHR 10) \<or> u = of_char (CHR 13)" unfolding codes using bad by blast
    then have "c \<in> {CHR 9, CHR 10, CHR 13}" unfolding c(2) by (simp only: of_char_eq_iff insert_iff empty_iff simp_thms)
    then show False using ok c(1) by blast
  qed
  then have "find (\<lambda>c. \<not> is_xml_char c) (utf8_chars mt) = None"
    "find (\<lambda>c. c = 9 \<or> c = 10 \<or> c = 13) (utf8_chars mt) = None"
    using ok by (auto simp: find_None_iff)
  then show "\<exists>mt'. validate_media_type mt = Inr mt'" using ok by (simp add: validate_media_type_def)
qed

section \<open>Stage A on the manifest\<close>

definition spelled :: "string \<Rightarrow> bool" where
  "spelled v \<longleftrightarrow> utf8_valid (xml_escape v) \<and> normalize_attr_value (xml_escape v) = v"

definition simple_text :: "string \<Rightarrow> bool" where
  "simple_text v \<longleftrightarrow> (\<forall>c \<in> set v. is_ascii c \<and> c \<notin> {CHR 13, CHR 10, CHR 9})"

lemma simple_text_simps [simp]:
  "simple_text []" "simple_text (c # s) \<longleftrightarrow> is_ascii c \<and> c \<notin> {CHR 13, CHR 10, CHR 9} \<and> simple_text s"
  "simple_text (a @ b) \<longleftrightarrow> simple_text a \<and> simple_text b"
  by (auto simp: simple_text_def)

lemma simple_spelled: "simple_text v \<Longrightarrow> spelled v"
  using utf8_valid_escape [of v] normalize_xml_escape [of v] utf8_ascii_valid [of v]
  by (auto simp: spelled_def simple_text_def is_ascii_def)

lemma printable: "32 \<le> (of_char c :: nat) \<Longrightarrow> (of_char c :: nat) < 128 \<Longrightarrow> is_ascii c \<and> c \<notin> {CHR 13, CHR 10, CHR 9}"
  by (auto simp: is_ascii_def)

lemma simple_dec: "simple_text (dec_string n)"
  unfolding simple_text_def using dec_string_digits [of _ n] printable by fastforce

lemma simple_int: "simple_text (int_string i)"
  by (simp add: int_string_def simple_dec is_ascii_def)

lemma simple_sextet: "is_ascii (sextet n) \<and> sextet n \<notin> {CHR 13, CHR 10, CHR 9}"
proof -
  have "n mod 64 < 64" by simp
  then have "43 \<le> (of_char (sextet n) :: nat) \<and> (of_char (sextet n) :: nat) \<le> 122"
    using alphabet_table unfolding sextet_def Let_def by blast
  then show ?thesis using printable [of "sextet n"] by simp
qed

lemma simple_b64: "simple_text (encode_b64 bs)"
proof (induction bs rule: encode_b64.induct)
  case (4 b0 b1 b2 rest)
  then show ?case using simple_sextet by (simp add: b64_chunk_def Let_def)
qed (use simple_sextet in \<open>simp_all add: b64_chunk_def Let_def is_ascii_def\<close>)

lemma collect_attribute [simp]:
  "spelled v \<Longrightarrow> simple_text key \<Longrightarrow>
    collect_attrs (attribute key v # rest) = map_option ((#) (key, v)) (collect_attrs rest)"
  by (auto simp: attribute_def spelled_def simple_text_def is_ascii_def ascii_text)

text \<open>The names of the manifest are printable, and each URI survives its spelling.\<close>

lemma simple_names:
  "simple_text ''xmlns:manifest''" "simple_text ''xmlns:loext''" "simple_text attr_version" "simple_text attr_full_path"
  "simple_text attr_size" "simple_text attr_media_type" "simple_text attr_algorithm_name" "simple_text attr_iv"
  "simple_text attr_start_key_name" "simple_text attr_key_size" "simple_text attr_key_derivation_name"
  "simple_text attr_argon2_t_lo" "simple_text attr_argon2_m_lo" "simple_text attr_argon2_p_lo" "simple_text attr_salt"
  "simple_text manifest_ns_oasis" "simple_text manifest_ns_loext" "simple_text ''1.4''" "simple_text encrypted_package"
  "simple_text aesgcm256_url" "simple_text sha256_url" "simple_text argon2id_url_lo"
  by (simp_all add: uri_strings encrypted_package_def is_ascii_def)

lemma element_text:
  "from_utf8_lossy element_manifest = element_manifest" "from_utf8_lossy element_file_entry = element_file_entry"
  "from_utf8_lossy element_encryption_data = element_encryption_data"
  "from_utf8_lossy element_algorithm = element_algorithm"
  "from_utf8_lossy element_start_key_generation = element_start_key_generation"
  "from_utf8_lossy element_key_derivation = element_key_derivation"
  by (simp_all add: uri_strings ascii_text)

text \<open>The frames of the four levels, and what each event of the manifest does to them.\<close>

definition frame :: "string \<Rightarrow> attrs \<Rightarrow> stack_frame" where
  "frame name ns = \<lparr>sf_name = name, sf_namespaces = ns, sf_valid = True\<rparr>"

definition written_ns :: attrs where
  "written_ns = [(''loext'', manifest_ns_loext), (''manifest'', manifest_ns_oasis)]"

definition root_frame :: stack_frame where "root_frame = frame element_manifest written_ns"

definition written_name :: "string \<Rightarrow> bool" where
  "written_name name \<longleftrightarrow> name \<noteq> ''xmlns'' \<and> take 6 name \<noteq> ''xmlns:'' \<and> convert_name_with_ns name [] = None \<and> convert_name_from [root_frame] name = name"

lemma manifest_names:
  "written_name element_manifest" "written_name element_file_entry" "written_name element_encryption_data"
  "written_name element_algorithm" "written_name element_start_key_generation" "written_name element_key_derivation"
  "written_name attr_full_path" "written_name attr_size" "written_name attr_media_type"
  "written_name attr_algorithm_name" "written_name attr_iv" "written_name attr_start_key_name"
  "written_name attr_key_size" "written_name attr_key_derivation_name" "written_name attr_argon2_t_lo"
  "written_name attr_argon2_m_lo" "written_name attr_argon2_p_lo" "written_name attr_salt"
  by (simp_all add: written_name_def root_frame_def frame_def written_ns_def convert_name_with_ns_def Let_def
      is_manifest_namespace_def uri_strings)

lemma split_attrs_written:
  "\<forall>(k, v) \<in> set raw. written_name k \<Longrightarrow> split_attrs raw ns other = (ns, other @ raw)"
  by (induction raw arbitrary: other) (auto simp: written_name_def)

text \<open>Inside the root, under frames without declarations of their own.\<close>

definition inside :: "import_state \<Rightarrow> stack_frame list \<Rightarrow> bool" where
  "inside st fs \<longleftrightarrow> im_beyond_cap st = 0 \<and> im_stack st = fs @ [root_frame]
     \<and> (\<forall>f \<in> set fs. sf_namespaces f = [] \<and> sf_valid f) \<and> length fs < 10"

lemma convert_inside:
  "\<forall>f \<in> set fs. sf_namespaces f = [] \<Longrightarrow> written_name n \<Longrightarrow> convert_name_from (fs @ [root_frame]) n = n"
  by (induction fs) (auto simp: written_name_def)

lemma foldl_attrs: "foldl (\<lambda>m (k, v). (f k, v) # m) acc as = rev (map (\<lambda>(k, v). (f k, v)) as) @ acc"
  by (induction as arbitrary: acc) auto

lemma start_inside:
  assumes "inside st fs" "written_name name" "\<forall>(k, v) \<in> set as. written_name k"
  shows "start_element name as st
    = start_level (length fs + 2) name (rev as) (st\<lparr>im_stack := frame name [] # im_stack st\<rparr>)"
proof -
  have stack: "im_stack st = fs @ [root_frame]" "\<forall>f \<in> set fs. sf_namespaces f = []" "\<forall>f \<in> set fs. sf_valid f"
    "im_beyond_cap st = 0" "length fs < 10" using assms(1) by (auto simp: inside_def)
  have under: "\<forall>f \<in> set (frame name [] # fs). sf_namespaces f = []" using stack(2) by (simp add: frame_def)
  have names: "map (\<lambda>(k, v). (convert_name_from ((frame name [] # fs) @ [root_frame]) k, v)) as = as"
    using assms(3) convert_inside [OF under] by (intro map_idI) auto
  have valid: "parent_valid (st\<lparr>im_stack := frame name [] # im_stack st\<rparr>)"
    using stack(3) by (cases fs) (auto simp: parent_valid_def stack(1) root_frame_def frame_def)
  have pushed: "push_name_and_namespaces st name as
      = (st\<lparr>im_stack := frame name [] # im_stack st\<rparr>, name, rev as)"
    using assms(2) convert_inside [OF stack(2) assms(2)] names
    by (simp add: push_name_and_namespaces_def split_attrs_written [OF assms(3)] foldl_attrs convert_name_def stack(1)
        written_name_def flip: frame_def)
  show ?thesis using stack valid by (simp add: start_element_def max_depth_def pushed)
qed

lemma end_inside:
  assumes "inside st (frame name [] # fs)" "written_name name"
    and "name \<in> {element_file_entry, element_encryption_data, element_algorithm, element_start_key_generation,
      element_key_derivation}"
  shows "end_element name st
    = (if name = element_file_entry then finish_file_entry st else st)\<lparr>im_stack := fs @ [root_frame]\<rparr>"
proof -
  have stack: "im_stack st = frame name [] # fs @ [root_frame]" "im_beyond_cap st = 0"
    using assms(1) by (auto simp: inside_def)
  have under: "\<forall>f \<in> set (frame name [] # fs). sf_namespaces f = []" using assms(1) by (auto simp: inside_def)
  have conv: "convert_name st name = name"
    using convert_inside [OF under assms(2)] by (simp add: convert_name_def stack(1))
  have plain: "finish_cdata l name st' = st'" "name \<noteq> element_loext_encrypted_key"
    "name \<noteq> element_manifest_encrypted_key" for l st'
    using assms(3) by (auto simp: finish_cdata_def uri_strings)
  have top: "sf_name (frame name []) = name" "sf_valid (frame name [])" by (simp_all add: frame_def)
  have kept: "im_stack (finish_file_entry st) = im_stack st" by (simp add: finish_file_entry_def Let_def)
  show ?thesis by (simp add: end_element_def stack conv plain top Let_def kept)
qed

text \<open>The root tag, and the state every level below it keeps.\<close>

definition in_root :: import_state where
  "in_root = import_new\<lparr>im_stack := [root_frame], im_package_version := Some ''1.4''\<rparr>"

lemma start_root:
  "start_element element_manifest
     [(''xmlns:manifest'', manifest_ns_oasis), (''xmlns:loext'', manifest_ns_loext), (attr_version, ''1.4'')] import_new
   = in_root"
  by (simp add: import_evaluate start_level_def start_level_1_def import_new_def in_root_def root_frame_def frame_def
      written_ns_def)

definition at_level :: "string list \<Rightarrow> property_bag \<Rightarrow> int \<Rightarrow> import_state" where
  "at_level names bag d = in_root\<lparr>im_stack := map (\<lambda>n. frame n []) names @ [root_frame], im_bag := bag,
     im_derived_key_size := d\<rparr>"

lemma at_level_inside: "length names < 10 \<Longrightarrow> inside (at_level names bag d) (map (\<lambda>n. frame n []) names)"
  by (auto simp: inside_def at_level_def in_root_def import_new_def frame_def)

lemma at_level_push: "at_level names bag d\<lparr>im_stack := frame name [] # im_stack (at_level names bag d)\<rparr>
    = at_level (name # names) bag d"
  by (simp add: at_level_def)

lemma at_level_simps:
  "im_bag (at_level names bag d) = bag" "im_ignore_encrypt_data (at_level names bag d) = False"
  "im_pgp_encryption (at_level names bag d) = False" "im_derived_key_size (at_level names bag d) = d"
  "at_level names bag d\<lparr>im_bag := bag'\<rparr> = at_level names bag' d"
  "at_level names bag d\<lparr>im_derived_key_size := d'\<rparr> = at_level names bag d'"
  by (simp_all add: at_level_def in_root_def import_new_def)

lemma start_at_level:
  assumes "length names < 10" "written_name name" "\<forall>(k, v) \<in> set as. written_name k"
  shows "start_element name as (at_level names bag d)
    = start_level (length names + 2) name (rev as) (at_level (name # names) bag d)"
  using start_inside [OF at_level_inside [OF assms(1)] assms(2,3)] by (simp add: at_level_push)

lemma end_at_level:
  assumes "length names < 9" "written_name name"
    "name \<in> {element_encryption_data, element_algorithm, element_start_key_generation, element_key_derivation}"
  shows "end_element name (at_level (name # names) bag d) = at_level names bag d"
proof -
  have "inside (at_level (name # names) bag d) (frame name [] # map (\<lambda>n. frame n []) names)"
    using at_level_inside [of "name # names"] assms(1) by simp
  moreover have "name \<noteq> element_file_entry" using assms(3) by (auto simp: uri_strings)
  ultimately show ?thesis
    using end_inside [of _ name] assms(2,3) by (auto simp: at_level_def)
qed

definition entry_bag :: "int \<Rightarrow> string option \<Rightarrow> property_bag" where
  "entry_bag sz media_type = empty_bag\<lparr>bag_full_path := encrypted_package,
     bag_media_type := Some (case media_type of Some mt \<Rightarrow> mt | None \<Rightarrow> []), bag_size := Some sz\<rparr>"

definition manifest_bag :: "int \<Rightarrow> bytes \<Rightarrow> bytes \<Rightarrow> string option \<Rightarrow> argon2_params \<Rightarrow> property_bag" where
  "manifest_bag sz iv salt media_type ps = (entry_bag sz media_type)\<lparr>bag_version := Some ''1.4'',
     bag_salt := Some salt, bag_iv := Some iv, bag_derived_key_size := Some 32, bag_enc_alg := Some AesGcmW3c,
     bag_start_key_alg := Some Sha256, bag_kdf := Some IdArgon2id,
     bag_argon2_args := Some (ap_t ps, ap_m_kib ps, ap_p ps)\<rparr>"

lemma end_manifest:
  "end_element element_manifest (end_element element_file_entry (at_level [element_file_entry] bag d))
    = in_root\<lparr>im_stack := [], im_derived_key_size := d,
        im_bags := [bag\<lparr>bag_version := (case bag_version bag of None \<Rightarrow> Some ''1.4'' | Some v \<Rightarrow> Some v)\<rparr>]\<rparr>"
proof -
  have "inside (at_level [element_file_entry] bag d) [frame element_file_entry []]"
    using at_level_inside [of "[element_file_entry]"] by simp
  from end_inside [OF this manifest_names(2)]
  have one: "end_element element_file_entry (at_level [element_file_entry] bag d)
    = (finish_file_entry (at_level [element_file_entry] bag d))\<lparr>im_stack := [root_frame]\<rparr>" by simp
  have conv: "convert_name_from [root_frame] element_manifest = element_manifest"
    using manifest_names(1) by (simp add: written_name_def)
  have names: "element_manifest \<noteq> element_file_entry" "element_manifest \<noteq> element_loext_encrypted_key"
    "element_manifest \<noteq> element_manifest_encrypted_key" "finish_cdata l element_manifest st = st" for l st
    by (simp_all add: uri_strings finish_cdata_def)
  have root: "sf_name root_frame = element_manifest" "sf_valid root_frame" by (simp_all add: root_frame_def frame_def)
  show ?thesis
    unfolding one
    by (cases "bag_version bag")
       (simp_all add: finish_file_entry_def at_level_def in_root_def import_new_def end_element_def convert_name_def
         conv names root Let_def del: convert_name_from.simps)
qed

text \<open>The rows an \<^verbatim>\<open>i64\<close> size and the cost tuples of the constructor can be written for.\<close>

definition writable :: "int \<Rightarrow> argon2_params \<Rightarrow> bool" where
  "writable sz ps \<longleftrightarrow> 0 \<le> sz \<and> sz \<le> i64_max \<and> in_i32 (ap_t ps) \<and> in_i32 (ap_m_kib ps) \<and> in_i32 (ap_p ps)
     \<and> 0 < ap_t ps \<and> 0 < ap_m_kib ps \<and> 0 < ap_p ps"

lemma int_string_ne [simp]: "int_string i \<noteq> []"
  by (simp add: int_string_def)

lemma file_entry_step:
  assumes "0 \<le> sz" "sz \<le> i64_max"
  shows "start_element element_file_entry ([(attr_full_path, encrypted_package), (attr_size, int_string sz)]
      @ (case media_type of Some mt \<Rightarrow> [(attr_media_type, mt)] | None \<Rightarrow> [])) (at_level [] empty_bag 0)
    = at_level [element_file_entry] (entry_bag sz media_type) 0"
proof -
  define as where "as = [(attr_full_path, encrypted_package), (attr_size, int_string sz)]
      @ (case media_type of Some mt \<Rightarrow> [(attr_media_type, mt)] | None \<Rightarrow> [])"
  have names: "\<forall>(k, v) \<in> set as. written_name k"
    using manifest_names by (cases media_type) (auto simp: as_def)
  have look: "map_of (rev as) attr_full_path = Some encrypted_package" "map_of (rev as) attr_size = Some (int_string sz)"
    "map_of (rev as) attr_version = None" "map_of (rev as) attr_media_type = media_type"
    by (cases media_type; simp add: as_def uri_strings)+
  have sz: "parse_i64 (int_string sz) = sz" using assms by (rule parse_i64_int_string)
  have "start_element element_file_entry as (at_level [] empty_bag 0)
      = start_level 2 element_file_entry (rev as) (at_level [element_file_entry] empty_bag 0)"
    using start_at_level [of "[]", OF _ manifest_names(2) names] by (simp add: eval_nat_numeral)
  also have "\<dots> = do_file_entry (rev as) (at_level [element_file_entry] empty_bag 0)"
    by (simp add: start_level_def start_level_2_def)
  also have "\<dots> = at_level [element_file_entry] (entry_bag sz media_type) 0"
    by (simp add: do_file_entry_def look sz at_level_simps attr_or_empty_def entry_bag_def empty_bag_def)
  finally show ?thesis by (simp add: as_def)
qed

lemma encryption_data_step:
  assumes "bag_digest_alg bag = None"
  shows "start_element element_encryption_data [] (at_level [element_file_entry] bag 0)
    = at_level [element_encryption_data, element_file_entry] bag 0"
proof -
  have "start_element element_encryption_data [] (at_level [element_file_entry] bag 0)
      = start_level 3 element_encryption_data [] (at_level [element_encryption_data, element_file_entry] bag 0)"
    using start_at_level [of "[element_file_entry]", OF _ manifest_names(3)] by (simp add: eval_nat_numeral)
  moreover have "checksum_alg_from_type [] = None" by (simp add: uri_tables uri_strings)
  ultimately show ?thesis using assms
    by (simp add: start_level_def start_level_3_def do_encryption_data_def at_level_simps attr_or_empty_def Let_def)
qed

lemma algorithm_step:
  "end_element element_algorithm (start_element element_algorithm
      [(attr_algorithm_name, aesgcm256_url), (attr_iv, encode_b64 iv)]
      (at_level [element_encryption_data, element_file_entry] bag d))
    = at_level [element_encryption_data, element_file_entry]
        (bag\<lparr>bag_enc_alg := Some AesGcmW3c, bag_iv := Some iv\<rparr>) 32"
proof -
  define as where "as = [(attr_algorithm_name, aesgcm256_url), (attr_iv, encode_b64 iv)]"
  have names: "\<forall>(k, v) \<in> set as. written_name k" using manifest_names by (simp add: as_def)
  have look: "map_of (rev as) attr_algorithm_name = Some aesgcm256_url" "map_of (rev as) attr_iv = Some (encode_b64 iv)"
    by (simp_all add: as_def uri_strings)
  have uri: "cipher_from_algorithm_name aesgcm256_url = Some (AesGcmW3c, Some 32)"
    by (simp add: uri_tables uri_strings)
  have "start_element element_algorithm as (at_level [element_encryption_data, element_file_entry] bag d)
      = start_level 4 element_algorithm (rev as) (at_level [element_algorithm, element_encryption_data, element_file_entry] bag d)"
    using start_at_level [of "[element_encryption_data, element_file_entry]", OF _ manifest_names(4) names] by (simp add: eval_nat_numeral)
  also have "\<dots> = at_level [element_algorithm, element_encryption_data, element_file_entry]
        (bag\<lparr>bag_enc_alg := Some AesGcmW3c, bag_iv := Some iv\<rparr>) 32"
    by (simp add: start_level_def start_level_4_def do_algorithm_def attr_or_empty_def look uri at_level_simps
        decode_encode_b64)
  finally show ?thesis using end_at_level [OF _ manifest_names(4)] by (simp add: as_def)
qed

lemma start_key_step:
  "end_element element_start_key_generation (start_element element_start_key_generation
      [(attr_start_key_name, sha256_url), (attr_key_size, dec_string 32)]
      (at_level [element_encryption_data, element_file_entry] bag d))
    = at_level [element_encryption_data, element_file_entry] (bag\<lparr>bag_start_key_alg := Some Sha256\<rparr>) d"
proof -
  define as where "as = [(attr_start_key_name, sha256_url), (attr_key_size, dec_string 32)]"
  have names: "\<forall>(k, v) \<in> set as. written_name k" using manifest_names by (simp add: as_def)
  have look: "map_of (rev as) attr_start_key_name = Some sha256_url" by (simp add: as_def uri_strings)
  have uri: "start_key_from_name sha256_url = Some Sha256" by (simp add: uri_tables uri_strings)
  have other: "element_start_key_generation \<noteq> element_algorithm" "element_start_key_generation \<noteq> element_key_derivation"
    by (simp_all add: uri_strings)
  have "start_element element_start_key_generation as (at_level [element_encryption_data, element_file_entry] bag d)
      = start_level 4 element_start_key_generation (rev as)
          (at_level [element_start_key_generation, element_encryption_data, element_file_entry] bag d)"
    using start_at_level [of "[element_encryption_data, element_file_entry]", OF _ manifest_names(5) names]
    by (simp add: eval_nat_numeral)
  also have "\<dots> = at_level [element_start_key_generation, element_encryption_data, element_file_entry]
        (bag\<lparr>bag_start_key_alg := Some Sha256\<rparr>) d"
    by (simp add: start_level_def start_level_4_def other do_start_key_alg_def attr_or_empty_def look uri at_level_simps)
  finally show ?thesis using end_at_level [OF _ manifest_names(5)] by (simp add: as_def)
qed

lemma key_derivation_step:
  assumes "in_i32 (ap_t ps)" "in_i32 (ap_m_kib ps)" "in_i32 (ap_p ps)" "0 < ap_t ps" "0 < ap_m_kib ps" "0 < ap_p ps"
  shows "end_element element_key_derivation (start_element element_key_derivation
      [(attr_key_derivation_name, argon2id_url_lo), (attr_argon2_t_lo, int_string (ap_t ps)),
       (attr_argon2_m_lo, int_string (ap_m_kib ps)), (attr_argon2_p_lo, int_string (ap_p ps)),
       (attr_salt, encode_b64 salt), (attr_key_size, dec_string 32)]
      (at_level [element_encryption_data, element_file_entry] bag d))
    = at_level [element_encryption_data, element_file_entry]
        (bag\<lparr>bag_kdf := Some IdArgon2id, bag_argon2_args := Some (ap_t ps, ap_m_kib ps, ap_p ps),
             bag_salt := Some salt, bag_derived_key_size := Some 32\<rparr>) 32"
proof -
  define as where "as = [(attr_key_derivation_name, argon2id_url_lo), (attr_argon2_t_lo, int_string (ap_t ps)),
       (attr_argon2_m_lo, int_string (ap_m_kib ps)), (attr_argon2_p_lo, int_string (ap_p ps)),
       (attr_salt, encode_b64 salt), (attr_key_size, dec_string 32)]"
  have names: "\<forall>(k, v) \<in> set as. written_name k" using manifest_names by (simp add: as_def)
  have look: "map_of (rev as) attr_key_derivation_name = Some argon2id_url_lo"
    "map_of (rev as) attr_argon2_t_lo = Some (int_string (ap_t ps))"
    "map_of (rev as) attr_argon2_m_lo = Some (int_string (ap_m_kib ps))"
    "map_of (rev as) attr_argon2_p_lo = Some (int_string (ap_p ps))"
    "map_of (rev as) attr_argon2_t = None" "map_of (rev as) attr_argon2_m = None" "map_of (rev as) attr_argon2_p = None"
    "map_of (rev as) attr_salt = Some (encode_b64 salt)" "map_of (rev as) attr_key_size = Some (dec_string 32)"
    by (simp_all add: as_def uri_strings)
  have uri: "password_kdf_from_name argon2id_url_lo = Some IdArgon2id" by (simp add: uri_tables uri_strings)
  have ints: "parse_i32 (int_string (ap_t ps)) = ap_t ps" "parse_i32 (int_string (ap_m_kib ps)) = ap_m_kib ps"
    "parse_i32 (int_string (ap_p ps)) = ap_p ps"
    using assms by (auto intro!: parse_i32_int_string simp: in_i32_def)
  have size: "parse_i32 (dec_string 32) = 32"
    using parse_i32_int_string [of 32] by (simp add: int_string_def int_limits)
  have other: "element_key_derivation \<noteq> element_algorithm" by (simp add: uri_strings)
  have "start_element element_key_derivation as (at_level [element_encryption_data, element_file_entry] bag d)
      = start_level 4 element_key_derivation (rev as)
          (at_level [element_key_derivation, element_encryption_data, element_file_entry] bag d)"
    using start_at_level [of "[element_encryption_data, element_file_entry]", OF _ manifest_names(6) names]
    by (simp add: eval_nat_numeral)
  also have "\<dots> = at_level [element_key_derivation, element_encryption_data, element_file_entry]
        (bag\<lparr>bag_kdf := Some IdArgon2id, bag_argon2_args := Some (ap_t ps, ap_m_kib ps, ap_p ps),
             bag_salt := Some salt, bag_derived_key_size := Some 32\<rparr>) 32"
    by (simp add: start_level_def start_level_4_def other do_key_derivation_def kdf_parameters_def key_size_of_def
        attr_or_empty_def argon2_attr_def look uri ints size assms at_level_simps decode_encode_b64 Let_def)
  finally show ?thesis using end_at_level [OF _ manifest_names(6)] by (simp add: as_def)
qed

lemma import_written:
  "collect_attrs as = Some as' \<Longrightarrow> from_utf8_lossy n = n \<Longrightarrow>
    import_events (view_event (RawStart n as) @ evs) st = import_events evs (start_element n as' st)"
  "collect_attrs as = Some as' \<Longrightarrow> from_utf8_lossy n = n \<Longrightarrow>
    import_events (view_event (RawEmpty n as) @ evs) st = import_events evs (end_element n (start_element n as' st))"
  "from_utf8_lossy n = n \<Longrightarrow> import_events (view_event (RawEnd n) @ evs) st = import_events evs (end_element n st)"
  "import_events (view_event (RawOther OtherMisc) @ evs) st = import_events evs st"
  by simp_all

lemma in_root_level: "in_root = at_level [] empty_bag 0"
  by (simp add: at_level_def in_root_def import_new_def)

definition read_back :: "string \<Rightarrow> string" where
  "read_back v = normalize_attr_value (xml_escape v)"

lemma parse_written:
  assumes "writable sz ps" "\<forall>mt. media_type = Some mt \<longrightarrow> utf8_valid mt"
  shows "parse_manifest (raw_view (build_manifest sz iv salt media_type ps))
    = [manifest_bag sz iv salt (map_option read_back media_type) ps]"
proof -
  note spelled = simple_names [THEN simple_spelled] simple_b64 [THEN simple_spelled] simple_int [THEN simple_spelled]
    simple_dec [THEN simple_spelled]
  have root: "collect_attrs [attribute ''xmlns:manifest'' manifest_ns_oasis, attribute ''xmlns:loext'' manifest_ns_loext,
       attribute attr_version ''1.4'']
     = Some [(''xmlns:manifest'', manifest_ns_oasis), (''xmlns:loext'', manifest_ns_loext), (attr_version, ''1.4'')]"
    by (simp only: collect_attribute spelled simple_names collect_attrs.simps option.map)
  have entry: "collect_attrs ([attribute attr_full_path encrypted_package, attribute attr_size (int_string sz)]
       @ (case media_type of Some mt \<Rightarrow> [attribute attr_media_type mt] | None \<Rightarrow> []))
     = Some ([(attr_full_path, encrypted_package), (attr_size, int_string sz)]
       @ (case map_option read_back media_type of Some mt \<Rightarrow> [(attr_media_type, mt)] | None \<Rightarrow> []))"
  proof (cases media_type)
    case None
    then show ?thesis by (simp add: spelled simple_names)
  next
    case (Some mt)
    then have "utf8_valid (xml_escape mt)" using assms(2) utf8_valid_escape by simp
    moreover have "from_utf8_lossy attr_media_type = attr_media_type" by (simp add: uri_strings ascii_text)
    ultimately have "collect_attrs [attribute attr_media_type mt] = Some [(attr_media_type, read_back mt)]"
      by (simp add: attribute_def read_back_def)
    then show ?thesis using Some by (simp add: spelled simple_names)
  qed
  have algorithm: "collect_attrs [attribute attr_algorithm_name aesgcm256_url, attribute attr_iv (encode_b64 iv)]
     = Some [(attr_algorithm_name, aesgcm256_url), (attr_iv, encode_b64 iv)]"
    by (simp only: collect_attribute spelled simple_names collect_attrs.simps option.map)
  have start: "collect_attrs [attribute attr_start_key_name sha256_url, attribute attr_key_size (dec_string 32)]
     = Some [(attr_start_key_name, sha256_url), (attr_key_size, dec_string 32)]"
    by (simp only: collect_attribute spelled simple_names collect_attrs.simps option.map)
  have kdf: "collect_attrs [attribute attr_key_derivation_name argon2id_url_lo,
       attribute attr_argon2_t_lo (int_string (ap_t ps)), attribute attr_argon2_m_lo (int_string (ap_m_kib ps)),
       attribute attr_argon2_p_lo (int_string (ap_p ps)), attribute attr_salt (encode_b64 salt),
       attribute attr_key_size (dec_string 32)]
     = Some [(attr_key_derivation_name, argon2id_url_lo), (attr_argon2_t_lo, int_string (ap_t ps)),
       (attr_argon2_m_lo, int_string (ap_m_kib ps)), (attr_argon2_p_lo, int_string (ap_p ps)),
       (attr_salt, encode_b64 salt), (attr_key_size, dec_string 32)]"
    by (simp only: collect_attribute spelled simple_names collect_attrs.simps option.map)
  have empty: "collect_attrs [] = Some []" by simp
  have writes: "0 \<le> sz" "sz \<le> i64_max" "in_i32 (ap_t ps)" "in_i32 (ap_m_kib ps)" "in_i32 (ap_p ps)"
    "0 < ap_t ps" "0 < ap_m_kib ps" "0 < ap_p ps" using assms(1) by (simp_all add: writable_def)
  have nodigest: "bag_digest_alg (entry_bag sz (map_option read_back media_type)) = None" by (simp add: entry_bag_def empty_bag_def)
  define bag where "bag = (entry_bag sz (map_option read_back media_type))\<lparr>bag_enc_alg := Some AesGcmW3c, bag_iv := Some iv,
     bag_start_key_alg := Some Sha256, bag_kdf := Some IdArgon2id,
     bag_argon2_args := Some (ap_t ps, ap_m_kib ps, ap_p ps), bag_salt := Some salt, bag_derived_key_size := Some 32\<rparr>"
  have "import_events (raw_view (build_manifest sz iv salt media_type ps)) import_new
      = Some (end_element element_manifest (end_element element_file_entry (end_element element_encryption_data
          (at_level [element_encryption_data, element_file_entry] bag 32))))"
    unfolding build_manifest_def Let_def raw_view_def list.map concat.simps wholesome_profile_def profile.simps
    by (simp only: import_written(4) import_written(1) [OF root element_text(1)]
        import_written(1) [OF entry element_text(2)] import_written(1) [OF empty element_text(3)]
        import_written(2) [OF algorithm element_text(4)] import_written(2) [OF start element_text(5)]
        import_written(2) [OF kdf element_text(6)] import_written(3) [OF element_text(1)]
        import_written(3) [OF element_text(2)] import_written(3) [OF element_text(3)] import_events.simps
        start_root in_root_level file_entry_step [OF writes(1,2)] encryption_data_step [OF nodigest] algorithm_step
        start_key_step key_derivation_step [OF writes(3-8)])
       (simp add: bag_def)
  also have "end_element element_encryption_data (at_level [element_encryption_data, element_file_entry] bag 32)
      = at_level [element_file_entry] bag 32"
    by (rule end_at_level [OF _ manifest_names(3)]) simp_all
  finally show ?thesis
    by (simp add: parse_manifest_def end_manifest bag_def manifest_bag_def entry_bag_def empty_bag_def in_root_def
        import_new_def)
qed

text \<open>
  What is written is ordinary, for an escaped value holds no double quote: a reader that keeps
  \<^const>\<open>reads_tags_back\<close> reports these tags, which is what \<^const>\<open>raw_view\<close> stands for below.
\<close>

lemma escape_no_dquote: "dquote \<notin> set (xml_escape v)"
proof (induction v)
  case (Cons c v)
  have "dquote \<notin> set (case xml_entity c of None \<Rightarrow> [c] | Some name \<Rightarrow> CHR ''&'' # name @ [CHR '';''])"
    by (auto simp: xml_entity_def dquote_def)
  then show ?case using Cons by simp
qed simp

lemma built_manifest_ordinary:
  "\<forall>e \<in> set (build_manifest sz iv salt media_type ps). ordinary e \<and> complete e"
proof -
  have keys: "markup_free s" if "s \<in> {''xmlns:manifest'', ''xmlns:loext'', attr_version, attr_full_path, attr_size, attr_media_type,
      attr_algorithm_name, attr_iv, attr_start_key_name, attr_key_size, attr_key_derivation_name, attr_argon2_t_lo,
      attr_argon2_m_lo, attr_argon2_p_lo, attr_salt, element_manifest, element_file_entry, element_encryption_data,
      element_algorithm, element_start_key_generation, element_key_derivation}" for s
    using that by (auto simp: uri_strings markup_free_def dquote_def utf8_ascii_valid)
  have differ: "distinct [''xmlns:manifest'', ''xmlns:loext'', attr_version]"
    "distinct [attr_full_path, attr_size, attr_media_type]" "distinct [attr_algorithm_name, attr_iv]"
    "distinct [attr_start_key_name, attr_key_size]"
    "distinct [attr_key_derivation_name, attr_argon2_t_lo, attr_argon2_m_lo, attr_argon2_p_lo, attr_salt, attr_key_size]"
    by (simp_all add: uri_strings)
  have attrs: "ordinary_attrs (map (\<lambda>(key, v). attribute key v) kvs) \<longleftrightarrow>
      distinct (map fst kvs) \<and> list_all markup_free (map fst kvs)" for kvs
    using escape_no_dquote by (auto simp: ordinary_attrs_def attribute_def list_all_iff case_prod_beta comp_def)
  have nil: "ordinary_attrs []" by (simp add: ordinary_attrs_def)
  have one: "ordinary_attrs [attribute a u, attribute b v] \<longleftrightarrow> distinct [a, b] \<and> list_all markup_free [a, b]" for a b u v
    using attrs [of "[(a, u), (b, v)]"] by simp
  have three: "ordinary_attrs [attribute a u, attribute b v, attribute c w]
      \<longleftrightarrow> distinct [a, b, c] \<and> list_all markup_free [a, b, c]" for a b c u v w
    using attrs [of "[(a, u), (b, v), (c, w)]"] by simp
  have six: "ordinary_attrs [attribute a u, attribute b v, attribute c w, attribute d x, attribute e y, attribute f z]
      \<longleftrightarrow> distinct [a, b, c, d, e, f] \<and> list_all markup_free [a, b, c, d, e, f]" for a b c d e f u v w x y z
    using attrs [of "[(a, u), (b, v), (c, w), (d, x), (e, y), (f, z)]"] by simp
  show ?thesis
    using keys differ
    by (cases media_type) (simp_all add: build_manifest_def Let_def nil one three six, simp_all add: attribute_def)
qed

lemma parse_built:
  assumes "writable sz ps" "\<forall>mt. media_type = Some mt \<longrightarrow> utf8_valid mt \<and> read_back mt = mt"
  shows "parse_manifest (raw_view (build_manifest sz iv salt media_type ps)) = [manifest_bag sz iv salt media_type ps]"
proof -
  have "map_option read_back media_type = media_type" using assms(2) by (cases media_type) auto
  then show ?thesis using parse_written [OF assms(1)] assms(2) by auto
qed

text \<open>An attribute's text as it is read back: each CR LF pair one space, then each remaining break and tab.\<close>

fun join_crlf :: "string \<Rightarrow> string" where
  "join_crlf [] = []"
| "join_crlf [c] = [c]"
| "join_crlf (c # d # cs) = (if c = CHR 13 \<and> d = CHR 10 then c # join_crlf cs else c # join_crlf (d # cs))"

definition spaced :: "string \<Rightarrow> string" where
  "spaced v = map (\<lambda>c. if c \<in> {CHR 9, CHR 10, CHR 13} then CHR '' '' else c) (join_crlf v)"

lemma escape_hd: "xml_escape (d # cs) \<noteq> [] \<and> (hd (xml_escape (d # cs)) = CHR 10 \<longleftrightarrow> d = CHR 10)"
  by (auto simp: xml_entity_def split: option.split)

lemma escape_step:
  "normalize_attr_value (xml_escape (c # cs)) = (if c = CHR 13
     then CHR '' '' # normalize_attr_value (if cs \<noteq> [] \<and> hd cs = CHR 10 then xml_escape (tl cs) else xml_escape cs)
     else (if c \<in> {CHR 9, CHR 10} then CHR '' '' else c) # normalize_attr_value (xml_escape cs))"
proof (cases "xml_entity c")
  case None
  show ?thesis
  proof (cases cs)
    case Nil
    then show ?thesis using None xml_entity_None [OF None] by simp
  next
    case (Cons d ds)
    have "xml_entity (CHR 10) = None" by (simp add: xml_entity_def)
    then show ?thesis using None xml_entity_None [OF None] escape_hd [of d ds] Cons by auto
  qed
next
  case (Some name)
  then have "c \<notin> {CHR 9, CHR 10, CHR 13}" by (auto simp: xml_entity_def split: if_splits)
  then show ?thesis using Some xml_entity_Some [OF Some] normalize_ref [of name "xml_escape cs"] by simp
qed

lemma read_back_spaced: "read_back v = spaced v"
  unfolding read_back_def spaced_def
proof (induction v rule: join_crlf.induct)
  case (2 c)
  then show ?case by (subst escape_step) simp
next
  case (3 c d cs)
  then show ?case by (subst escape_step) auto
qed simp

lemma spaced_same: "spaced v = v \<longleftrightarrow> set v \<inter> {CHR 9, CHR 10, CHR 13} = {}"
proof
  assume "spaced v = v"
  moreover have "set (spaced v) \<inter> {CHR 9, CHR 10, CHR 13} = {}" by (auto simp: spaced_def)
  ultimately show "set v \<inter> {CHR 9, CHR 10, CHR 13} = {}" by simp
next
  assume "set v \<inter> {CHR 9, CHR 10, CHR 13} = {}"
  then show "spaced v = v"
    unfolding read_back_spaced [symmetric] read_back_def by (intro normalize_xml_escape) auto
qed

section \<open>The write key\<close>

lemma derive_write_key_at:
  assumes "crypto_documented cr" "argon2_new t m p = Inr ps" "length salt = pf_salt_len wholesome_profile"
  obtains blocks key where "length key = 32"
    "derive_write_key cr h password salt ps =
      (if \<not> host_reserves h (blocks * block_size) then Inl (EncHostCannotAllocate (min (blocks * block_size) u64_max))
       else if host_spawns h (max 1 (min (nat p) (host_cores h))) \<or> host_spawns h 1 then Inr key
       else Inl (EncHostCannotAllocate lane_thread_stack))"
proof -
  have salt: "length salt = 16" using assms(3) by (simp add: wholesome_profile_def)
  define sk where "sk = start_key (lib_sha1 cr) (lib_sha256 cr) (as_bytes password) Sha256"
  have screen: "argon2_screen write_limits (ap_t ps) (ap_m_kib ps) (ap_p ps) (length salt) = Inr (nat t, nat m, nat p)"
    using new_params_screened [OF assms(2) salt] .
  note bounds = screen [unfolded argon2_screen_Ok]
  have "\<exists>k. params_new (lib_argon2 cr) (nat m) (nat t) (nat p) 32 = Inr k"
    using assms(1) bounds unfolding crypto_documented_def by simp
  then obtain k where k: "params_new (lib_argon2 cr) (nat m) (nat t) (nat p) 32 = Inr k" by blast
  have "\<exists>out. hash_argon2 (lib_argon2 cr) sk salt (nat t) (nat m) (nat p) 32 = Inr out \<and> length out = 32"
    using assms(1) bounds unfolding crypto_documented_def by simp
  then obtain out where out: "hash_argon2 (lib_argon2 cr) sk salt (nat t) (nat m) (nat p) 32 = Inr out" "length out = 32"
    by blast
  show thesis
    by (rule that [OF out(2), of k])
       (simp add: derive_write_key_def Let_def derive_argon2id_def screen k out on_lane_threads_def wholesome_profile_def
         flip: sk_def)
qed

lemma write_key_derived:
  assumes "crypto_documented cr" "argon2_new t m p = Inr ps" "length salt = pf_salt_len wholesome_profile"
    and "\<forall>n. host_reserves h n \<and> host_spawns h n"
  shows "\<exists>key. derive_write_key cr h password salt ps = Inr key \<and> length key = 32"
  using derive_write_key_at [OF assms(1-3), where h = h and password = password] assms(4) by metis

section \<open>Properties\<close>

definition encrypt_row :: "int \<Rightarrow> bytes \<Rightarrow> bytes \<Rightarrow> argon2_params \<Rightarrow> entry_encryption" where
  "encrypt_row sz iv salt ps = \<lparr>ee_path = encrypted_package, ee_cipher = AesGcmW3c,
     ee_kdf = Argon2id (ap_t ps) (ap_m_kib ps) (ap_p ps) salt, ee_start_key = Sha256, ee_checksum = NoChecksum,
     ee_size = sz, ee_iv = iv, ee_derived_key_len = 32\<rparr>"

lemma accept_built:
  "accept_row (manifest_bag sz iv salt media_type ps) False encrypted_package = Some (encrypt_row sz iv salt ps)"
  by (simp add: accept_row_def password_entry_def password_kdf_def manifest_bag_def entry_bag_def empty_bag_def
      checksum_present_or_unneeded_def checksum_of_def encrypt_row_def)

lemma new_params_writable: "argon2_new t m p = Inr ps \<Longrightarrow> 0 \<le> sz \<Longrightarrow> sz \<le> i64_max \<Longrightarrow> writable sz ps"
  unfolding argon2_new_Ok writable_def by (auto simp: in_i32_def int_limits)

text \<open>
  C35. The manifest \<^verbatim>\<open>encrypt\<close> writes is read back as what it was written for: Stage A reads one bag, with the
  validated media type, and Stage B accepts it as the row that carries the cost tuple, salt, IV and size the
  key was derived and the package sealed with.
\<close>

theorem manifest_round_trip:
  assumes "argon2_new t m p = Inr ps" "0 \<le> sz" "sz \<le> i64_max"
    and "media_type = None \<or> (\<exists>raw mt. validate_media_type raw = Inr mt \<and> media_type = Some mt)"
  shows "\<exists>bag. parse_manifest (raw_view (build_manifest sz iv salt media_type ps)) = [bag]
    \<and> bag_media_type bag = Some (case media_type of Some mt \<Rightarrow> mt | None \<Rightarrow> []) \<and> bag_version bag = Some ''1.4''
    \<and> bag_full_path bag = encrypted_package
    \<and> accept_row bag False encrypted_package = Some (encrypt_row sz iv salt ps)"
proof -
  have "\<forall>mt. media_type = Some mt \<longrightarrow> utf8_valid mt \<and> read_back mt = mt"
    using assms(4) media_type_spelled validate_media_type_Ok(2) by (auto simp: read_back_def)
  from parse_built [OF new_params_writable [OF assms(1-3)] this] accept_built show ?thesis
    by (auto simp: manifest_bag_def entry_bag_def empty_bag_def)
qed

theorem manifest_round_trip_witness:
  "\<exists>bag. parse_manifest (raw_view (build_manifest 100 [1] [2] (Some ''application/x&y'') libreoffice_default)) = [bag]
    \<and> bag_media_type bag = Some ''application/x&y''
    \<and> accept_row bag False encrypted_package = Some (encrypt_row 100 [1] [2] libreoffice_default)"
proof -
  have new: "argon2_new 3 65536 4 = Inr libreoffice_default"
    by (simp add: argon2_new_Ok libreoffice_default_def wholesome_profile_def int_limits)
  have "validate_media_type ''application/x&y'' = Inr ''application/x&y''"
    by (simp add: validate_media_type_def utf8_ascii_valid is_xml_char_def)
  then have "Some ''application/x&y'' = None
    \<or> (\<exists>raw mt. validate_media_type raw = Inr mt \<and> Some ''application/x&y'' = Some mt)" by blast
  from manifest_round_trip [OF new _ _ this, of 100 "[1]" "[2]"] show ?thesis by (auto simp: int_limits)
qed

text \<open>
  C36. A cost tuple the constructor admitted never fails on its validity: the derivation for writing gives a key
  of 32 bytes or the host lacks the memory or the thread.
\<close>

theorem admitted_params_derive:
  assumes "crypto_documented cr" "argon2_new t m p = Inr ps" "length salt = pf_salt_len wholesome_profile"
  shows "case derive_write_key cr h password salt ps of
      Inr key \<Rightarrow> length key = 32 | Inl (EncHostCannotAllocate n) \<Rightarrow> True | _ \<Rightarrow> False"
proof -
  obtain blocks key where "length key = 32" "derive_write_key cr h password salt ps =
      (if \<not> host_reserves h (blocks * block_size) then Inl (EncHostCannotAllocate (min (blocks * block_size) u64_max))
       else if host_spawns h (max 1 (min (nat p) (host_cores h))) \<or> host_spawns h 1 then Inr key
       else Inl (EncHostCannotAllocate lane_thread_stack))"
    by (rule derive_write_key_at [OF assms])
  then show ?thesis by simp
qed

theorem admitted_params_derive_witness:
  "length (as_bytes ''0123456789abcdef'') = 16 \<and>
    (case derive_write_key sample_crypto rich_host ''pw'' (as_bytes ''0123456789abcdef'') \<lparr>ap_t = 1, ap_m_kib = 8, ap_p = 1\<rparr> of
      Inr key \<Rightarrow> length key = 32 | Inl (EncHostCannotAllocate n) \<Rightarrow> True | _ \<Rightarrow> False)"
proof -
  have "argon2_new 1 8 1 = Inr \<lparr>ap_t = 1, ap_m_kib = 8, ap_p = 1\<rparr>" by (simp add: argon2_new_Ok int_limits)
  from admitted_params_derive [OF sample_crypto_documented this, of "as_bytes ''0123456789abcdef''" rich_host "''pw''"]
  show ?thesis by (simp add: wholesome_profile_def as_bytes_def)
qed

text \<open>
  C37. Not everything \<^verbatim>\<open>encrypt\<close> may write is read back by default: of the tuples the constructor admits, the
  screen of a decryption under the default limits passes exactly those with at most 10 passes, 1 GiB and 16
  lanes.
\<close>

theorem admitted_params_read_back:
  assumes "argon2_new t m p = Inr ps" "length salt = pf_salt_len wholesome_profile"
  shows "(\<exists>r. argon2_screen default_limits (ap_t ps) (ap_m_kib ps) (ap_p ps) (length salt) = Inr r)
    \<longleftrightarrow> t \<le> int (argon2_max_t default_limits) \<and> m \<le> int (argon2_max_m_kib default_limits)
      \<and> p \<le> int (argon2_max_p default_limits)"
proof -
  have ps: "ap_t ps = t" "ap_m_kib ps = m" "ap_p ps = p" and
    r: "1 \<le> t" "t \<le> i32_max" "1 \<le> m" "m \<le> i32_max" "1 \<le> p" "p \<le> 0xFFFFFF" "8 * p \<le> m"
    using assms(1) unfolding argon2_new_Ok by auto
  have "argon2_screen default_limits t m p (length salt) = Inr (a, b, c) \<longleftrightarrow>
      a = nat t \<and> b = nat m \<and> c = nat p \<and> t \<le> int (argon2_max_t default_limits)
      \<and> m \<le> int (argon2_max_m_kib default_limits) \<and> p \<le> int (argon2_max_p default_limits)" for a b c
    using r assms(2) unfolding argon2_screen_Ok by (auto simp: int_limits u32_max_def wholesome_profile_def)
  then show ?thesis unfolding ps by (simp add: split_paired_Ex)
qed

theorem admitted_params_read_back_witness:
  "\<exists>ps. argon2_new 11 65536 4 = Inr ps
    \<and> \<not> (\<exists>r. argon2_screen default_limits (ap_t ps) (ap_m_kib ps) (ap_p ps) 16 = Inr r)"
proof -
  have new: "argon2_new 11 65536 4 = Inr \<lparr>ap_t = 11, ap_m_kib = 65536, ap_p = 4\<rparr>"
    by (simp add: argon2_new_Ok int_limits)
  from admitted_params_read_back [OF new, of "replicate 16 0"] show ?thesis
    by (auto simp: new wholesome_profile_def default_limits_def limit_defs)
qed

text \<open>
  C38. A media type that is only in the manifest is not validated: without a mimetype member any text goes
  through, what the check accepts being the text that reads back unchanged and holds only XML characters;
  and the manifest that is written reads back with a space for every tab, line feed and carriage return.
\<close>

theorem fallback_media_type_unchecked:
  assumes "by_mimetype_name archive = None" "utf8_valid mt"
    and "argon2_new t m p = Inr ps" "0 \<le> sz" "sz \<le> i64_max"
  shows "resolve_mimetype archive (Some mt) = Inr (Some mt)
   \<and> map bag_media_type (parse_manifest (raw_view (build_manifest sz iv salt (Some mt) ps))) = [Some (spaced mt)]
   \<and> ((\<exists>mt'. validate_media_type mt = Inr mt') \<longleftrightarrow> spaced mt = mt \<and> (\<forall>u \<in> set (utf8_chars mt). is_xml_char u))"
proof (intro conjI)
  show "resolve_mimetype archive (Some mt) = Inr (Some mt)"
    using assms(1) by (simp add: resolve_mimetype_def read_input_mimetype_member_def)
  show "map bag_media_type (parse_manifest (raw_view (build_manifest sz iv salt (Some mt) ps))) = [Some (spaced mt)]"
    using parse_written [OF new_params_writable [OF assms(3-5)], of "Some mt"] assms(2)
    by (simp add: read_back_spaced manifest_bag_def entry_bag_def)
  show "(\<exists>mt'. validate_media_type mt = Inr mt') \<longleftrightarrow> spaced mt = mt \<and> (\<forall>u \<in> set (utf8_chars mt). is_xml_char u)"
    using assms(2) by (auto simp: validate_media_type_iff spaced_same)
qed

definition tabbed :: string where "tabbed = ''application/vnd.a'' @ CHR 9 # ''b''"

theorem fallback_witness:
  "resolve_mimetype [] (Some tabbed) = Inr (Some tabbed) \<and> (\<exists>e. validate_media_type tabbed = Inl e)
   \<and> map bag_media_type (parse_manifest (raw_view (build_manifest 100 [1] [2] (Some tabbed) libreoffice_default)))
      = [Some ''application/vnd.a b'']"
proof -
  have none: "by_mimetype_name [] = None" by (simp add: by_mimetype_name_def)
  have valid: "utf8_valid tabbed" by (simp add: tabbed_def utf8_ascii_valid)
  have new: "argon2_new 3 65536 4 = Inr libreoffice_default"
    by (simp add: argon2_new_Ok libreoffice_default_def wholesome_profile_def int_limits)
  have spaced: "spaced tabbed = ''application/vnd.a b''" by (simp add: spaced_def tabbed_def)
  have size: "0 \<le> (100 :: int)" "(100 :: int) \<le> i64_max" by (simp_all add: int_limits)
  have "spaced tabbed \<noteq> tabbed" unfolding spaced by (simp add: tabbed_def)
  moreover note all = fallback_media_type_unchecked [OF none valid new size, of "[1]" "[2]"]
  ultimately have "\<not> (\<exists>mt'. validate_media_type tabbed = Inr mt')" by blast
  then have "\<exists>e. validate_media_type tabbed = Inl e" by (cases "validate_media_type tabbed") auto
  then show ?thesis using all by (simp add: spaced)
qed

end
