(* ===== verification/Io_Write.thy ===== *)
theory Io_Write
  imports Io_Latch
begin

text \<open>
  Writing, as the streaming paths do it: the standard library's \<^verbatim>\<open>write_all\<close>, the fixed-size
  \<^verbatim>\<open>SliceWriter\<close> of \<^verbatim>\<open>src/decrypt_stream.rs\<close>, and \<^verbatim>\<open>LatchedWrite\<close> of \<^verbatim>\<open>src/decrypt_entries.rs\<close>, which keeps
  the output's own failure apart from a reader's.  The locale \<^verbatim>\<open>sink\<close> is the contract of \<^verbatim>\<open>Write\<close>: what
  a writer reports as taken is appended to what it has taken before, and a refusal takes nothing.
\<close>

section \<open>Writers\<close>

type_synonym 'w writer = "'w \<Rightarrow> bytes \<Rightarrow> ((io_error + nat) \<times> 'w) option"

definition write_zero :: io_error where
  "write_zero = WriteZero ''failed to write whole buffer''"

text \<open>\<^verbatim>\<open>io::Write::write_all\<close>.\<close>

partial_function (option) write_all :: "'w writer \<Rightarrow> 'w \<Rightarrow> bytes \<Rightarrow> ((io_error + unit) \<times> 'w) option" where
  "write_all wr w d =
    (if d = [] then Some (Inr (), w)
     else (case wr w d of
        None \<Rightarrow> None
      | Some (q, w') \<Rightarrow> (case q of
          Inr k \<Rightarrow> if k = 0 then Some (Inl write_zero, w') else write_all wr w' (drop k d)
        | Inl e \<Rightarrow> if e = Interrupted then write_all wr w' d else Some (Inl e, w'))))"

declare write_all.simps [code]

lemma write_all_nil [simp]: "write_all wr w [] = Some (Inr (), w)"
  by (simp add: write_all.simps)

locale sink =
  fixes wr :: "'w writer"
    and wgood :: "'w \<Rightarrow> bool"
    and written :: "'w \<Rightarrow> bytes"
    and wpatience :: "'w \<Rightarrow> nat"
  assumes wreturns: "wgood w \<Longrightarrow> d \<noteq> [] \<Longrightarrow> \<exists>q w'. wr w d = Some (q, w')"
    and took: "wgood w \<Longrightarrow> d \<noteq> [] \<Longrightarrow> wr w d = Some (Inr k, w') \<Longrightarrow>
      wgood w' \<and> k \<le> length d \<and> written w' = written w @ take k d \<and> wpatience w' \<le> wpatience w"
    and winterrupted: "wgood w \<Longrightarrow> d \<noteq> [] \<Longrightarrow> wr w d = Some (Inl Interrupted, w') \<Longrightarrow>
      wgood w' \<and> written w' = written w \<and> wpatience w' < wpatience w"
    and wfails: "wgood w \<Longrightarrow> d \<noteq> [] \<Longrightarrow> wr w d = Some (Inl e, w') \<Longrightarrow>
      \<exists>k \<le> length d. written w' = written w @ take k d"
begin

text \<open>\<^verbatim>\<open>write_all\<close> returns; on success everything was taken, on failure a prefix.\<close>

lemma write_all_result:
  assumes "wgood w"
  shows "\<exists>q w'. write_all wr w d = Some (q, w')
    \<and> (case q of
         Inr _ \<Rightarrow> wgood w' \<and> written w' = written w @ d \<and> wpatience w' \<le> wpatience w
       | Inl e \<Rightarrow> e \<noteq> Interrupted \<and> (\<exists>k \<le> length d. written w' = written w @ take k d))"
  using assms
proof (induction "length d + wpatience w" arbitrary: w d rule: less_induct)
  case less
  show ?case
  proof (cases "d = []")
    case False
    obtain q w1 where step: "wr w d = Some (q, w1)" using wreturns [OF less(2) False] by blast
    show ?thesis
    proof (cases q)
      case (Inr k)
      note law = took [OF less(2) False step [unfolded Inr]]
      show ?thesis
      proof (cases "k = 0")
        case True
        then show ?thesis
          using False law by (auto simp: write_all.simps [of wr w] step Inr write_zero_def)
      next
        case pos: False
        then have shorter: "length (drop k d) + wpatience w1 < length d + wpatience w"
          using law False by (cases d) auto
        obtain q' w' where rest: "write_all wr w1 (drop k d) = Some (q', w')"
          "case q' of Inr _ \<Rightarrow> wgood w' \<and> written w' = written w1 @ drop k d \<and> wpatience w' \<le> wpatience w1
            | Inl e \<Rightarrow> e \<noteq> Interrupted \<and> (\<exists>j \<le> length (drop k d). written w' = written w1 @ take j (drop k d))"
          using less(1) [OF shorter] law by blast
        have now: "write_all wr w d = Some (q', w')"
          using False pos rest(1) by (simp add: write_all.simps [of wr w] step Inr)
        show ?thesis
        proof (cases q')
          case (Inl e)
          then obtain j where j: "j \<le> length d - k" "written w' = written w @ take k d @ take j (drop k d)"
              "e \<noteq> Interrupted"
            using rest(2) law by auto
          have "take k d @ take j (drop k d) = take (k + j) d" by (simp add: take_add)
          then show ?thesis using j law by (auto simp: now Inl intro!: exI [of _ "k + j"])
        next
          case (Inr u)
          then show ?thesis using rest(2) law now by auto
        qed
      qed
    next
      case (Inl e)
      show ?thesis
      proof (cases "e = Interrupted")
        case True
        note law = winterrupted [OF less(2) False step [unfolded Inl True]]
        then have "length d + wpatience w1 < length d + wpatience w" by simp
        from less(1) [OF this] law show ?thesis
          using False True by (auto simp: write_all.simps [of wr w] step Inl split: sum.splits)
      next
        case kind: False
        then show ?thesis
          using False wfails [OF less(2) False step [unfolded Inl]]
          by (simp add: write_all.simps [of wr w] step Inl)
      qed
    qed
  qed (use less in simp)
qed

text \<open>A writer that never refuses.\<close>

definition takes_all :: bool where
  "takes_all \<longleftrightarrow> (\<forall>w d. wgood w \<longrightarrow> (\<exists>w'. write_all wr w d = Some (Inr (), w')))"

lemma write_all_cases:
  assumes "wgood w"
  obtains (ok) w' where "write_all wr w d = Some (Inr (), w')" "wgood w'" "written w' = written w @ d"
      "wpatience w' \<le> wpatience w"
  | (stop) e k w' where "write_all wr w d = Some (Inl e, w')" "e \<noteq> Interrupted"
      "written w' = written w @ take k d" "k \<le> length d" "\<not> takes_all"
proof -
  obtain q w' where q: "write_all wr w d = Some (q, w')" "case q of
         Inr _ \<Rightarrow> wgood w' \<and> written w' = written w @ d \<and> wpatience w' \<le> wpatience w
       | Inl e \<Rightarrow> e \<noteq> Interrupted \<and> (\<exists>k \<le> length d. written w' = written w @ take k d)"
    using write_all_result [OF assms, of d] by blast
  show thesis
  proof (cases q)
    case (Inl e)
    have "\<not> takes_all"
    proof
      assume "takes_all"
      then obtain w1 where "write_all wr w d = Some (Inr (), w1)" using assms unfolding takes_all_def by blast
      then show False using q(1) Inl by simp
    qed
    then show thesis using q Inl that(2) by auto
  qed (use q that(1) in auto)
qed

end

section \<open>Writers that follow a script\<close>

text \<open>
  A writer of the caller's: it takes as many bytes at a time as it likes, may be interrupted, and may
  fail; past the end of its script it takes all it is given.
\<close>

datatype slot = Takes nat | WInterrupt | WFails io_error

fun write_slots :: "(slot list \<times> bytes) writer" where
  "write_slots ([], out) d = Some (Inr (length d), ([], out @ d))"
| "write_slots (Takes k # ss, out) d = Some (Inr (min k (length d)), (ss, out @ take (min k (length d)) d))"
| "write_slots (WInterrupt # ss, out) d = Some (Inl Interrupted, (ss, out))"
| "write_slots (WFails e # ss, out) d = Some (Inl e, (ss, out))"

definition slots_good :: "slot list \<times> bytes \<Rightarrow> bool" where
  "slots_good w \<longleftrightarrow> WFails Interrupted \<notin> set (fst w)"

interpretation slots: sink write_slots slots_good snd "\<lambda>w. length (fst w)"
proof unfold_locales
  fix w :: "slot list \<times> bytes" and d
  show "\<exists>q w'. write_slots w d = Some (q, w')" by (cases "(w, d)" rule: write_slots.cases) auto
next
  fix w w' :: "slot list \<times> bytes" and d k
  assume "slots_good w" "write_slots w d = Some (Inr k, w')"
  then show "slots_good w' \<and> k \<le> length d \<and> snd w' = snd w @ take k d \<and> length (fst w') \<le> length (fst w)"
    by (cases "(w, d)" rule: write_slots.cases) (auto simp: slots_good_def)
next
  fix w w' :: "slot list \<times> bytes" and d
  assume "slots_good w" "write_slots w d = Some (Inl Interrupted, w')"
  then show "slots_good w' \<and> snd w' = snd w \<and> length (fst w') < length (fst w)"
    by (cases "(w, d)" rule: write_slots.cases) (auto simp: slots_good_def)
next
  fix w w' :: "slot list \<times> bytes" and d e
  assume "write_slots w d = Some (Inl e, w')"
  then have "snd w' = snd w" by (cases "(w, d)" rule: write_slots.cases) auto
  then show "\<exists>k \<le> length d. snd w' = snd w @ take k d" by (intro exI [of _ 0]) simp
qed

text \<open>
  \<^verbatim>\<open>io::Sink\<close>, the tap of an inflater made without one: it takes everything.  The model keeps what it was
  given, which nothing reads.
\<close>

definition sink_write :: "bytes writer" where
  "sink_write w d = Some (Inr (length d), w @ d)"

interpretation sunk: sink sink_write "\<lambda>_. True" "\<lambda>w. w" "\<lambda>_. 0"
  by unfold_locales (auto simp: sink_write_def)

lemma sink_takes_all: "sunk.takes_all"
  unfolding sunk.takes_all_def
proof (intro allI impI)
  fix w :: bytes and d
  show "\<exists>w'. write_all sink_write w d = Some (Inr (), w')"
    by (cases "d = []") (simp_all add: write_all.simps [of sink_write w d] sink_write_def)
qed

section \<open>The fixed slice\<close>

record slice_writer =
  sl_buf :: bytes
  sl_pos :: nat
  sl_len :: nat

definition slice_new :: "bytes \<Rightarrow> slice_writer" where
  "slice_new buf = \<lparr>sl_buf = buf, sl_pos = 0, sl_len = 0\<rparr>"

definition slice_write :: "slice_writer writer" where
  "slice_write s d =
    (let end = sl_pos s + length d in
     if \<not> (end \<le> u64_max \<and> end \<le> length (sl_buf s)) then
       Some (Inl (WriteZero ''output bound exceeded''), s)
     else
       Some (Inr (length d),
         s\<lparr>sl_buf := take (sl_pos s) (sl_buf s) @ d @ drop end (sl_buf s), sl_pos := end,
           sl_len := max (sl_len s) end\<rparr>))"

datatype seek_from = SeekStart nat | SeekEnd int | SeekCurrent int

definition checked_add_signed :: "nat \<Rightarrow> int \<Rightarrow> nat option" where
  "checked_add_signed n d = (if 0 \<le> int n + d \<and> int n + d \<le> int u64_max then Some (nat (int n + d)) else None)"

definition slice_seek :: "slice_writer \<Rightarrow> seek_from \<Rightarrow> (io_error + nat) \<times> slice_writer" where
  "slice_seek s to =
    (let base = (case to of
         SeekStart n \<Rightarrow> Some n
       | SeekEnd d \<Rightarrow> checked_add_signed (sl_len s) d
       | SeekCurrent d \<Rightarrow> checked_add_signed (sl_pos s) d)
     in case base of
          Some n \<Rightarrow> if n \<le> length (sl_buf s) then (Inr n, s\<lparr>sl_pos := n\<rparr>)
                   else (Inl (InvalidInput ''seek outside the output''), s)
        | None \<Rightarrow> (Inl (InvalidInput ''seek outside the output''), s))"

definition slice_ok :: "slice_writer \<Rightarrow> bool" where
  "slice_ok s \<longleftrightarrow> sl_pos s \<le> length (sl_buf s) \<and> sl_len s \<le> length (sl_buf s)
     \<and> length (sl_buf s) \<le> u64_max"

definition slice_output :: "slice_writer \<Rightarrow> bytes" where
  "slice_output s = take (sl_len s) (sl_buf s)"

text \<open>Writing at the end appends: the slice is a sink as long as nothing seeks back.\<close>

interpretation slice: sink slice_write "\<lambda>s. slice_ok s \<and> sl_pos s = sl_len s" slice_output "\<lambda>_. 0"
  by unfold_locales
     (auto simp: slice_write_def slice_ok_def slice_output_def Let_def split: if_splits)

section \<open>The latched writer\<close>

definition write_stand_in :: "io_error \<Rightarrow> io_error" where
  "write_stand_in e = (case e of
      Interrupted \<Rightarrow> Interrupted
    | UnexpectedEof \<Rightarrow> UnexpectedEof
    | WriteZero _ \<Rightarrow> WriteZero ''writing the output failed''
    | InvalidInput _ \<Rightarrow> InvalidInput ''writing the output failed''
    | InvalidData _ \<Rightarrow> InvalidData ''writing the output failed''
    | _ \<Rightarrow> OtherIo ''writing the output failed'')"

definition latched_write :: "'w writer \<Rightarrow> ('w \<times> latch) writer" where
  "latched_write wr = (\<lambda>(w, failed) d. (case wr w d of
      None \<Rightarrow> None
    | Some (Inr k, w') \<Rightarrow> Some (Inr k, (w', failed))
    | Some (Inl e, w') \<Rightarrow>
        Some (Inl (write_stand_in e), (w', Some (case failed of Some first \<Rightarrow> first | None \<Rightarrow> e)))))"

lemma write_stand_in_interrupted [simp]: "write_stand_in e = Interrupted \<longleftrightarrow> e = Interrupted"
  by (cases e) (auto simp: write_stand_in_def)

lemma latched_write_cases:
  assumes "latched_write wr w d = Some (q, w')"
  obtains k where "q = Inr k" "wr (fst w) d = Some (Inr k, fst w')" "snd w' = snd w"
  | e where "q = Inl (write_stand_in e)" "wr (fst w) d = Some (Inl e, fst w')" "snd w' \<noteq> None"
  using assms by (cases w; cases w') (auto simp: latched_write_def split: option.splits sum.splits)

locale latched_sink = sink wr wgood written wpatience
  for wr :: "'w writer" and wgood written wpatience
begin

sublocale lw: sink "latched_write wr" "\<lambda>w. wgood (fst w)" "\<lambda>w. written (fst w)" "\<lambda>w. wpatience (fst w)"
proof unfold_locales
  fix w :: "'w \<times> latch" and d :: bytes
  assume "wgood (fst w)" "d \<noteq> []"
  then obtain q w' where "wr (fst w) d = Some (q, w')" using wreturns by blast
  then show "\<exists>q w'. latched_write wr w d = Some (q, w')"
    by (cases w; cases q) (auto simp: latched_write_def)
next
  fix w w' :: "'w \<times> latch" and d :: bytes and k
  assume *: "wgood (fst w)" "d \<noteq> []" "latched_write wr w d = Some (Inr k, w')"
  from *(3) show "wgood (fst w') \<and> k \<le> length d \<and> written (fst w') = written (fst w) @ take k d
      \<and> wpatience (fst w') \<le> wpatience (fst w)"
    by (cases rule: latched_write_cases) (use took [OF *(1,2)] in auto)
next
  fix w w' :: "'w \<times> latch" and d :: bytes
  assume *: "wgood (fst w)" "d \<noteq> []" "latched_write wr w d = Some (Inl Interrupted, w')"
  from *(3) show "wgood (fst w') \<and> written (fst w') = written (fst w) \<and> wpatience (fst w') < wpatience (fst w)"
    by (cases rule: latched_write_cases) (use winterrupted [OF *(1,2)] in \<open>auto dest: sym\<close>)
next
  fix w w' :: "'w \<times> latch" and d :: bytes and e
  assume *: "wgood (fst w)" "d \<noteq> []" "latched_write wr w d = Some (Inl e, w')"
  from *(3) show "\<exists>k \<le> length d. written (fst w') = written (fst w) @ take k d"
    by (cases rule: latched_write_cases) (use wfails [OF *(1,2)] in auto)
qed

end

interpretation lslots: latched_sink write_slots slots_good snd "\<lambda>w. length (fst w)"
  by (rule latched_sink.intro) (rule slots.sink_axioms)

section \<open>The fixed slice is a file\<close>

text \<open>
  The reference: a file of bytes and a position, where writing past the end first fills the gap with
  zeros.  A capacity and the end of the address range bound it.
\<close>

type_synonym file_state = "bytes \<times> nat"

definition zero_fill :: "bytes \<Rightarrow> nat \<Rightarrow> bytes" where
  "zero_fill xs n = xs @ replicate (n - length xs) 0"

definition file_write :: "nat \<Rightarrow> file_state \<Rightarrow> bytes \<Rightarrow> (io_error + nat) \<times> file_state" where
  "file_write cap f d = (case f of (xs, p) \<Rightarrow>
     if p + length d > cap then (Inl (WriteZero ''output bound exceeded''), f)
     else (Inr (length d),
       (take p (zero_fill xs p) @ d @ drop (p + length d) xs, p + length d)))"

definition file_seek :: "nat \<Rightarrow> file_state \<Rightarrow> seek_from \<Rightarrow> (io_error + nat) \<times> file_state" where
  "file_seek cap f to = (case f of (xs, p) \<Rightarrow>
     (let target = (case to of SeekStart n \<Rightarrow> int n | SeekEnd d \<Rightarrow> int (length xs) + d
                             | SeekCurrent d \<Rightarrow> int p + d)
      in if 0 \<le> target \<and> target \<le> int cap then (Inr (nat target), (xs, nat target))
         else (Inl (InvalidInput ''seek outside the output''), f)))"

datatype file_op = OpWrite bytes | OpSeek seek_from

fun slice_ops :: "slice_writer \<Rightarrow> file_op list \<Rightarrow> (io_error + nat) list \<times> slice_writer" where
  "slice_ops s [] = ([], s)"
| "slice_ops s (OpWrite d # ops) = (case slice_write s d of
      None \<Rightarrow> ([], s)
    | Some (q, s') \<Rightarrow> (let (qs, s'') = slice_ops s' ops in (q # qs, s'')))"
| "slice_ops s (OpSeek to # ops) =
    (let (q, s') = slice_seek s to; (qs, s'') = slice_ops s' ops in (q # qs, s''))"

fun file_ops :: "nat \<Rightarrow> file_state \<Rightarrow> file_op list \<Rightarrow> (io_error + nat) list \<times> file_state" where
  "file_ops cap f [] = ([], f)"
| "file_ops cap f (OpWrite d # ops) =
    (let (q, f') = file_write cap f d; (qs, f'') = file_ops cap f' ops in (q # qs, f''))"
| "file_ops cap f (OpSeek to # ops) =
    (let (q, f') = file_seek cap f to; (qs, f'') = file_ops cap f' ops in (q # qs, f''))"

definition slice_file :: "slice_writer \<Rightarrow> file_state" where
  "slice_file s = (slice_output s, sl_pos s)"

definition slice_inv :: "slice_writer \<Rightarrow> bool" where
  "slice_inv s \<longleftrightarrow> slice_ok s \<and> sl_buf s = zero_fill (slice_output s) (length (sl_buf s))"

lemma slice_write_file:
  assumes "slice_inv s"
  shows "\<exists>q s'. slice_write s d = Some (q, s') \<and> slice_inv s' \<and> length (sl_buf s') = length (sl_buf s)
    \<and> file_write (length (sl_buf s)) (slice_file s) d = (q, slice_file s')"
proof -
  define cap xs p where "cap = length (sl_buf s)" and "xs = slice_output s" and "p = sl_pos s"
  have ok: "p \<le> cap" "length xs = sl_len s" "length xs \<le> cap" "cap \<le> u64_max"
    and buf: "sl_buf s = xs @ replicate (cap - length xs) 0"
    using assms by (auto simp: slice_inv_def slice_ok_def slice_output_def cap_def p_def xs_def zero_fill_def)
  have state: "slice_file s = (xs, p)" by (simp add: slice_file_def xs_def p_def)
  show ?thesis
  proof (cases "p + length d \<le> cap")
    case False
    then show ?thesis using assms
      by (auto simp: slice_write_def Let_def file_write_def state simp flip: cap_def p_def)
  next
    case True
    define s' where "s' = s\<lparr>sl_buf := take p (sl_buf s) @ d @ drop (p + length d) (sl_buf s),
      sl_pos := p + length d, sl_len := max (sl_len s) (p + length d)\<rparr>"
    have step: "slice_write s d = Some (Inr (length d), s')"
      using True ok by (simp add: slice_write_def Let_def s'_def flip: cap_def p_def)
    have len: "length (sl_buf s') = cap" using True ok by (simp add: s'_def cap_def)
    define body where "body = take p (zero_fill xs p) @ d @ drop (p + length d) xs"
    have body: "length body = max (length xs) (p + length d)" by (simp add: body_def zero_fill_def)
    have buf': "sl_buf s' = body @ replicate (cap - length body) 0"
    proof -
      have "take p (sl_buf s) = take p (zero_fill xs p)" using ok by (simp add: buf zero_fill_def)
      moreover have "drop (p + length d) (sl_buf s)
          = drop (p + length d) xs @ replicate (cap - max (length xs) (p + length d)) 0"
        using True ok by (simp add: buf max_def)
      ultimately show ?thesis by (simp only: body) (simp add: s'_def body_def)
    qed
    have "sl_len s' = length body" using ok by (simp add: s'_def body)
    then have out: "slice_output s' = body" by (simp add: slice_output_def buf')
    have "slice_inv s'"
      unfolding slice_inv_def slice_ok_def len out
      using True ok body by (simp add: buf' zero_fill_def) (simp add: s'_def)
    moreover have "file_write cap (slice_file s) d = (Inr (length d), slice_file s')"
      using True by (simp add: file_write_def state) (simp add: slice_file_def out, simp add: s'_def body_def)
    ultimately show ?thesis using step len by (simp add: cap_def)
  qed
qed

lemma slice_seek_file:
  assumes "slice_inv s"
  shows "\<exists>q s'. slice_seek s to = (q, s') \<and> slice_inv s' \<and> length (sl_buf s') = length (sl_buf s)
    \<and> file_seek (length (sl_buf s)) (slice_file s) to = (q, slice_file s')"
proof -
  define cap where "cap = length (sl_buf s)"
  have len: "length (slice_output s) = sl_len s" and cap: "cap \<le> u64_max"
    using assms by (simp_all add: slice_inv_def slice_ok_def slice_output_def cap_def)
  define target where "target = (case to of SeekStart n \<Rightarrow> int n | SeekEnd d \<Rightarrow> int (sl_len s) + d
    | SeekCurrent d \<Rightarrow> int (sl_pos s) + d)"
  have spec: "file_seek cap (slice_file s) to =
    (if 0 \<le> target \<and> target \<le> int cap then (Inr (nat target), (slice_output s, nat target))
     else (Inl (InvalidInput ''seek outside the output''), slice_file s))"
    by (cases to) (simp_all add: file_seek_def slice_file_def len target_def Let_def)
  have code: "slice_seek s to =
    (if 0 \<le> target \<and> target \<le> int cap then (Inr (nat target), s\<lparr>sl_pos := nat target\<rparr>)
     else (Inl (InvalidInput ''seek outside the output''), s))"
    using cap unfolding slice_seek_def target_def cap_def
    by (cases to) (auto simp: checked_add_signed_def Let_def)
  have inv: "slice_inv (s\<lparr>sl_pos := nat target\<rparr>)" if "target \<le> int cap"
    using assms that by (simp add: slice_inv_def slice_ok_def slice_output_def flip: cap_def)
  show ?thesis
    unfolding cap_def [symmetric] code spec using assms inv
    by (auto simp: slice_file_def slice_output_def cap_def)
qed

lemma slice_ops_file:
  assumes "slice_inv s" "length (sl_buf s) = cap"
  shows "fst (slice_ops s ops) = fst (file_ops cap (slice_file s) ops)
    \<and> slice_file (snd (slice_ops s ops)) = snd (file_ops cap (slice_file s) ops)
    \<and> slice_inv (snd (slice_ops s ops))"
  using assms
proof (induction ops arbitrary: s)
  case (Cons op ops)
  show ?case
  proof (cases op)
    case (OpWrite d)
    obtain q s' where "slice_write s d = Some (q, s')" "slice_inv s'" "length (sl_buf s') = cap"
      "file_write cap (slice_file s) d = (q, slice_file s')"
      using slice_write_file [OF Cons(2), of d] Cons(3) by auto
    with Cons(1) [of s'] show ?thesis by (simp add: OpWrite split_beta)
  next
    case (OpSeek to)
    obtain q s' where "slice_seek s to = (q, s')" "slice_inv s'" "length (sl_buf s') = cap"
      "file_seek cap (slice_file s) to = (q, slice_file s')"
      using slice_seek_file [OF Cons(2), of to] Cons(3) by auto
    with Cons(1) [of s'] show ?thesis by (simp add: OpSeek split_beta)
  qed
qed simp

section \<open>Properties\<close>

text \<open>
  C27. The fixed output buffer behaves as a file: on every sequence of writes and seeks it gives the
  results of a zero-filled file of the same capacity and holds that file's bytes, and its end is the
  furthest byte written, never the capacity.
\<close>

theorem slice_writer_is_a_file:
  fixes ops :: "file_op list"
  assumes "cap \<le> u64_max"
  defines "run \<equiv> slice_ops (slice_new (replicate cap 0)) ops"
  shows "fst run = fst (file_ops cap ([], 0) ops)
    \<and> (take (sl_len (snd run)) (sl_buf (snd run)), sl_pos (snd run)) = snd (file_ops cap ([], 0) ops)"
proof -
  have "slice_inv (slice_new (replicate cap 0))" "slice_file (slice_new (replicate cap 0)) = ([], 0)"
    using assms(1)
    by (simp_all add: slice_new_def slice_inv_def slice_ok_def slice_output_def slice_file_def zero_fill_def)
  then show ?thesis
    using slice_ops_file [of "slice_new (replicate cap 0)" cap ops]
    unfolding run_def slice_file_def slice_output_def by (auto simp: slice_new_def)
qed

theorem slice_writer_witness:
  "take (sl_len (snd (slice_ops (slice_new (replicate 4 0)) [OpWrite [1, 2], OpSeek (SeekEnd 1), OpWrite [3]])))
     (sl_buf (snd (slice_ops (slice_new (replicate 4 0)) [OpWrite [1, 2], OpSeek (SeekEnd 1), OpWrite [3]])))
   = [1, 2, 0, 3]"
proof -
  have "(4 :: nat) \<le> u64_max" by (simp add: u64_max_def)
  from slice_writer_is_a_file [OF this, of "[OpWrite [1, 2], OpSeek (SeekEnd 1), OpWrite [3]]"]
  show ?thesis by (simp add: file_write_def file_seek_def zero_fill_def)
qed

text \<open>
  \<^verbatim>\<open>write_all\<close> over any writer of the caller's returns: it has written everything, or it reports the
  error and has written a prefix, and an interruption is never the answer.
\<close>

theorem write_all_slots:
  assumes "slots_good (ss, out)"
  shows "\<exists>q w'. write_all write_slots (ss, out) d = Some (q, w')
    \<and> (case q of
         Inr _ \<Rightarrow> snd w' = out @ d
       | Inl e \<Rightarrow> e \<noteq> Interrupted \<and> (\<exists>k \<le> length d. snd w' = out @ take k d))"
proof (cases rule: slots.write_all_cases [OF assms, of d, case_names ok stop])
  case (ok w')
  then show ?thesis by auto
next
  case (stop e k w')
  then show ?thesis by auto
qed

theorem write_all_slots_witness:
  "\<exists>q w'. write_all write_slots ([Takes 1, WInterrupt, WFails UnexpectedEof], []) [1, 2] = Some (q, w')
    \<and> (case q of
         Inr _ \<Rightarrow> snd w' = [1, 2]
       | Inl e \<Rightarrow> e \<noteq> Interrupted \<and> (\<exists>k \<le> 2. snd w' = take k [1, 2]))"
proof -
  have "slots_good ([Takes 1, WInterrupt, WFails UnexpectedEof], [])" by (simp add: slots_good_def)
  note run = write_all_slots [OF this, of "[1, 2]", unfolded append_Nil]
  have "length [1, 2 :: byte] = 2" by simp
  from run [unfolded this] show ?thesis .
qed

end
