(* ===== verification/Deflate_Writer.thy ===== *)
theory Deflate_Writer
  imports Io_Write
begin

text \<open>
  \<^verbatim>\<open>DeflateWriter\<close> of \<^verbatim>\<open>src/stream.rs\<close>: raw DEFLATE written a chunk at a time, with chunks that are
  already compressed stored instead.  miniz's \<^verbatim>\<open>compress\<close> is the parameter \<^verbatim>\<open>deflate_lib\<close> and the
  floating-point verdict on a histogram the parameter \<^verbatim>\<open>dense\<close>.  The lemmas show that, whatever that
  verdict is, the bytes written decode to the bytes taken.
\<close>

section \<open>The writer\<close>

datatype deflate_flush = FlushNone | FlushFull | FlushFinish

datatype deflate_status = DeflDone | DeflOkay | DeflOther string

record 'c deflate_lib =
  def_init :: 'c
  def_step :: "'c \<Rightarrow> bytes \<Rightarrow> nat \<Rightarrow> deflate_flush \<Rightarrow> deflate_status \<times> nat \<times> bytes \<times> 'c"

record held_chunk =
  hd_buf :: bytes
  hd_len :: nat
  hd_compressing :: bool

record ('c, 'w) deflater =
  df_dst :: 'w
  df_comp :: 'c
  df_consumed :: nat
  df_held :: "held_chunk option"

definition stored_block_max :: nat where "stored_block_max = 0xFFFF"

definition deflate_new :: "'c deflate_lib \<Rightarrow> host \<Rightarrow> 'w \<Rightarrow> fault + ('c, 'w) deflater" where
  "deflate_new lib h dst =
    and_then (chunk_buffer h chunk) (\<lambda>out.
      Ok \<lparr>df_dst = dst, df_comp = def_init lib, df_consumed = 0, df_held = None\<rparr>)"

definition deflate_adaptive :: "'c deflate_lib \<Rightarrow> host \<Rightarrow> 'w \<Rightarrow> fault + ('c, 'w) deflater" where
  "deflate_adaptive lib h dst =
    and_then (deflate_new lib h dst) (\<lambda>w.
    and_then (chunk_buffer h chunk) (\<lambda>buf.
      Ok (w\<lparr>df_held := Some \<lparr>hd_buf = buf, hd_len = 0, hd_compressing = False\<rparr>\<rparr>)))"

text \<open>\<^verbatim>\<open>pump\<close>: call the compressor until it has taken the input, or has finished.\<close>

definition no_progress :: io_error where
  "no_progress = into_io (FaultDeflate ''no progress'')"

partial_function (option) pump ::
    "'c deflate_lib \<Rightarrow> 'w writer \<Rightarrow> 'w \<Rightarrow> 'c \<Rightarrow> bytes \<Rightarrow> deflate_flush
      \<Rightarrow> ((io_error + unit) \<times> 'w \<times> 'c) option" where
  "pump lib wr dst cmp input flush =
    (case def_step lib cmp input chunk flush of (status, used, made, cmp') \<Rightarrow>
       (case write_all wr dst made of
          None \<Rightarrow> None
        | Some (q, dst') \<Rightarrow> (case q of
            Inl e \<Rightarrow> Some (Inl e, dst', cmp')
          | Inr _ \<Rightarrow> (case status of
              DeflDone \<Rightarrow> Some (Inr (), dst', cmp')
            | DeflOkay \<Rightarrow>
                if drop used input = [] \<and> length made < chunk \<and> flush \<noteq> FlushFinish then Some (Inr (), dst', cmp')
                else if used = 0 \<and> made = [] \<and> flush \<noteq> FlushFinish then Some (Inl no_progress, dst', cmp')
                else pump lib wr dst' cmp' (drop used input) flush
            | DeflOther other \<Rightarrow> Some (Inl (into_io (FaultDeflate other)), dst', cmp')))))"

declare pump.simps [code]

text \<open>
  \<^verbatim>\<open>entropy_bits\<close>: the histogram; the sum over it is floating point, and \<^verbatim>\<open>dense counts n\<close> stands for the
  comparison of its result with the threshold.
\<close>

definition byte_counts :: "bytes \<Rightarrow> nat list" where
  "byte_counts bs = foldl (\<lambda>counts b. counts[unat b := counts ! unat b + 1]) (replicate 256 0) bs"

type_synonym density = "nat list \<Rightarrow> nat \<Rightarrow> bool"

definition incompressible :: "density \<Rightarrow> bytes \<Rightarrow> bool" where
  "incompressible dense bs = dense (byte_counts bs) (length bs)"

text \<open>One stored block, and the loop over \<^verbatim>\<open>chunks(STORED_BLOCK_MAX)\<close>.\<close>

definition stored_header :: "nat \<Rightarrow> bytes" where
  "stored_header n = [0] @ le_bytes 2 n @ map (\<lambda>b. NOT b) (le_bytes 2 n)"

function store_blocks :: "'w writer \<Rightarrow> 'w \<Rightarrow> bytes \<Rightarrow> ((io_error + unit) \<times> 'w) option" where
  "store_blocks wr dst data =
    (if data = [] then Some (Inr (), dst)
     else
       (let block = take stored_block_max data in
        case write_all wr dst (stored_header (length block)) of
          None \<Rightarrow> None
        | Some (Inl e, dst') \<Rightarrow> Some (Inl e, dst')
        | Some (Inr _, dst') \<Rightarrow> (case write_all wr dst' block of
            None \<Rightarrow> None
          | Some (Inl e, dst'') \<Rightarrow> Some (Inl e, dst'')
          | Some (Inr _, dst'') \<Rightarrow> store_blocks wr dst'' (drop stored_block_max data))))"
  by pat_completeness auto
termination by (relation "measure (\<lambda>(wr, dst, data). length data)") (auto simp: stored_block_max_def)

declare store_blocks.simps [simp del]

text \<open>\<^verbatim>\<open>release\<close>: decide the held chunk.\<close>

definition release ::
    "'c deflate_lib \<Rightarrow> density \<Rightarrow> 'w writer \<Rightarrow> ('c, 'w) deflater \<Rightarrow> held_chunk
      \<Rightarrow> ((io_error + unit) \<times> ('c, 'w) deflater \<times> held_chunk) option" where
  "release lib dense wr w held =
    (let data = take (hd_len held) (hd_buf held) in
     if hd_len held = 0 then Some (Inr (), w, held)
     else
       (let held = held\<lparr>hd_len := 0\<rparr> in
        if \<not> incompressible dense data then
          (case pump lib wr (df_dst w) (df_comp w) data FlushNone of
             None \<Rightarrow> None
           | Some (q, dst', cmp') \<Rightarrow>
               Some (q, w\<lparr>df_dst := dst', df_comp := cmp'\<rparr>, held\<lparr>hd_compressing := True\<rparr>))
        else
          (case (if hd_compressing held then pump lib wr (df_dst w) (df_comp w) [] FlushFull
                 else Some (Inr (), df_dst w, df_comp w)) of
             None \<Rightarrow> None
           | Some (Inl e, dst', cmp') \<Rightarrow> Some (Inl e, w\<lparr>df_dst := dst', df_comp := cmp'\<rparr>, held)
           | Some (Inr _, dst', cmp') \<Rightarrow>
              (case store_blocks wr dst' data of
                 None \<Rightarrow> None
               | Some (q, dst'') \<Rightarrow>
                   Some (q, w\<lparr>df_dst := dst'', df_comp := cmp'\<rparr>, held\<lparr>hd_compressing := False\<rparr>)))))"

text \<open>\<^verbatim>\<open>write\<close>: gather chunks and release each one that is full.\<close>

partial_function (option) gather ::
    "'c deflate_lib \<Rightarrow> density \<Rightarrow> 'w writer \<Rightarrow> ('c, 'w) deflater \<Rightarrow> held_chunk \<Rightarrow> bytes
      \<Rightarrow> ((io_error + unit) \<times> ('c, 'w) deflater \<times> held_chunk) option" where
  "gather lib dense wr w held rest =
    (let n = min (chunk - hd_len held) (length rest);
         held' = held\<lparr>hd_buf := take (hd_len held) (hd_buf held) @ take n rest
                    @ drop (hd_len held + n) (hd_buf held), hd_len := hd_len held + n\<rparr>
     in if hd_len held' < chunk then Some (Inr (), w, held')
        else (case release lib dense wr w held' of
            None \<Rightarrow> None
          | Some (q, w', held'') \<Rightarrow> (case q of
              Inl e \<Rightarrow> Some (Inl e, w', held'')
            | Inr _ \<Rightarrow> gather lib dense wr w' held'' (drop n rest))))"

declare gather.simps [code]

definition deflate_write ::
    "'c deflate_lib \<Rightarrow> density \<Rightarrow> 'w writer \<Rightarrow> ('c, 'w) deflater writer" where
  "deflate_write lib dense wr w0 buf =
    (let w = w0\<lparr>df_consumed := df_consumed w0 + length buf\<rparr> in
     case df_held w of
       None \<Rightarrow>
         (case pump lib wr (df_dst w) (df_comp w) buf FlushNone of
            None \<Rightarrow> None
          | Some (q, dst', cmp') \<Rightarrow>
              Some (map_sum id (\<lambda>_. length buf) q, w\<lparr>df_dst := dst', df_comp := cmp'\<rparr>))
     | Some held \<Rightarrow>
         (case gather lib dense wr w held buf of
            None \<Rightarrow> None
          | Some (q, w', held') \<Rightarrow> Some (map_sum id (\<lambda>_. length buf) q, w'\<lparr>df_held := Some held'\<rparr>)))"

definition deflate_finish ::
    "'c deflate_lib \<Rightarrow> density \<Rightarrow> 'w writer \<Rightarrow> ('c, 'w) deflater \<Rightarrow> ((io_error + unit) \<times> 'w) option" where
  "deflate_finish lib dense wr w =
    (case (case df_held w of
             None \<Rightarrow> Some (Inr (), w)
           | Some held \<Rightarrow> map_option (\<lambda>(q, w', _). (q, w')) (release lib dense wr w held)) of
       None \<Rightarrow> None
     | Some (Inl e, w') \<Rightarrow> Some (Inl e, df_dst w')
     | Some (Inr _, w') \<Rightarrow>
         map_option (\<lambda>(q, dst', _). (q, dst')) (pump lib wr (df_dst w') (df_comp w') [] FlushFinish))"

section \<open>The compressor\<close>

text \<open>
  \<^verbatim>\<open>dec hist xs\<close> decodes the stream \<^verbatim>\<open>xs\<close> from a block boundary after \<^verbatim>\<open>hist\<close>: the bytes and the length up
  to the end of the final block.  A stored block decodes to its bytes (RFC 1951, 3.2.4).
\<close>

type_synonym decoder = "bytes \<Rightarrow> bytes \<Rightarrow> (bytes \<times> nat) option"

definition shifted :: "bytes \<Rightarrow> nat \<Rightarrow> (bytes \<times> nat) option \<Rightarrow> (bytes \<times> nat) option" where
  "shifted out k = map_option (\<lambda>(o', n). (out @ o', k + n))"

lemma shifted_shifted [simp]: "shifted a j (shifted b k d) = shifted (a @ b) (j + k) d"
  by (cases d) (auto simp: shifted_def add.assoc)

lemma shifted_none [simp]: "shifted [] 0 d = d"
  by (cases d) (auto simp: shifted_def)

lemma shifted_some [simp]: "shifted out k (Some (o', n)) = Some (out @ o', k + n)"
  by (simp add: shifted_def)

definition stored_documented :: "decoder \<Rightarrow> bool" where
  "stored_documented dec \<longleftrightarrow> (\<forall>hist block rest. length block \<le> stored_block_max \<longrightarrow>
     dec hist (stored_header (length block) @ block @ rest)
       = shifted block (5 + length block) (dec (hist @ block) rest))"

text \<open>
  The documented behaviour of \<^verbatim>\<open>compress\<close>.  \<^verbatim>\<open>opened c x e\<close>: since its last boundary the compressor has
  taken \<^verbatim>\<open>x\<close> and given out \<^verbatim>\<open>e\<close>; \<^verbatim>\<open>pending c\<close> bounds the output it still holds.  A full flush ends at a
  boundary with an empty dictionary; a finished stream decodes to what was taken since the boundary.
\<close>

definition closes :: "decoder \<Rightarrow> bytes \<Rightarrow> bytes \<Rightarrow> bool" where
  "closes dec x e \<longleftrightarrow> (\<forall>hist rest. dec hist (e @ rest) = shifted x (length e) (dec (hist @ x) rest))"

definition ends :: "decoder \<Rightarrow> bytes \<Rightarrow> bytes \<Rightarrow> bool" where
  "ends dec x e \<longleftrightarrow> (\<forall>hist rest. dec hist (e @ rest) = Some (x, length e))"

definition deflate_documented ::
    "'c deflate_lib \<Rightarrow> decoder \<Rightarrow> ('c \<Rightarrow> bytes \<Rightarrow> bytes \<Rightarrow> bool) \<Rightarrow> ('c \<Rightarrow> nat) \<Rightarrow> bool" where
  "deflate_documented lib dec opened pending \<longleftrightarrow>
     opened (def_init lib) [] []
   \<and> (\<forall>c x e inp. opened c x e \<longrightarrow> (case def_step lib c inp chunk FlushNone of (st, used, made, c') \<Rightarrow>
        st = DeflOkay \<and> used \<le> length inp \<and> opened c' (x @ take used inp) (e @ made)
      \<and> (used = 0 \<longrightarrow> made = [] \<longrightarrow> inp = []) \<and> (used = 0 \<longrightarrow> made \<noteq> [] \<longrightarrow> pending c' < pending c)))
   \<and> (\<forall>c x e. opened c x e \<longrightarrow> (case def_step lib c [] chunk FlushFull of (st, used, made, c') \<Rightarrow>
        st = DeflOkay \<and> used = 0
      \<and> (if length made < chunk then opened c' [] [] \<and> closes dec x (e @ made)
         else opened c' x (e @ made) \<and> pending c' < pending c)))
   \<and> (\<forall>c x e. opened c x e \<longrightarrow> (case def_step lib c [] chunk FlushFinish of (st, used, made, c') \<Rightarrow>
        used = 0 \<and> (if st = DeflDone then ends dec x (e @ made)
                    else st = DeflOkay \<and> opened c' x (e @ made) \<and> pending c' < pending c)))"

definition codec_documented ::
    "'c deflate_lib \<Rightarrow> decoder \<Rightarrow> ('c \<Rightarrow> bytes \<Rightarrow> bytes \<Rightarrow> bool) \<Rightarrow> ('c \<Rightarrow> nat) \<Rightarrow> bool" where
  "codec_documented lib dec opened pending \<longleftrightarrow>
     deflate_documented lib dec opened pending \<and> stored_documented dec"

locale deflate_over = sink wr wgood written wpatience
  for wr :: "'w writer" and wgood written wpatience +
  fixes lib :: "'c deflate_lib" and dec :: decoder
    and opened :: "'c \<Rightarrow> bytes \<Rightarrow> bytes \<Rightarrow> bool" and pending :: "'c \<Rightarrow> nat"
begin

lemma laws:
  assumes "codec_documented lib dec opened pending" "opened c x e"
  shows "def_step lib c inp chunk FlushNone = (st, used, made, c') \<Longrightarrow>
      st = DeflOkay \<and> used \<le> length inp \<and> opened c' (x @ take used inp) (e @ made)
      \<and> (used = 0 \<longrightarrow> made = [] \<longrightarrow> inp = []) \<and> (used = 0 \<longrightarrow> made \<noteq> [] \<longrightarrow> pending c' < pending c)"
    and "def_step lib c [] chunk FlushFull = (st, used, made, c') \<Longrightarrow> st = DeflOkay \<and> used = 0
      \<and> (if length made < chunk then opened c' [] [] \<and> closes dec x (e @ made)
         else opened c' x (e @ made) \<and> pending c' < pending c)"
    and "def_step lib c [] chunk FlushFinish = (st, used, made, c') \<Longrightarrow> used = 0
      \<and> (if st = DeflDone then ends dec x (e @ made)
          else st = DeflOkay \<and> opened c' x (e @ made) \<and> pending c' < pending c)"
proof -
  note D = assms(1) [unfolded codec_documented_def deflate_documented_def, THEN conjunct1, THEN conjunct2]
  show "def_step lib c inp chunk FlushNone = (st, used, made, c') \<Longrightarrow>
      st = DeflOkay \<and> used \<le> length inp \<and> opened c' (x @ take used inp) (e @ made)
      \<and> (used = 0 \<longrightarrow> made = [] \<longrightarrow> inp = []) \<and> (used = 0 \<longrightarrow> made \<noteq> [] \<longrightarrow> pending c' < pending c)"
    using D [THEN conjunct1, rule_format, OF assms(2), of inp] by simp
  show "def_step lib c [] chunk FlushFull = (st, used, made, c') \<Longrightarrow> st = DeflOkay \<and> used = 0
      \<and> (if length made < chunk then opened c' [] [] \<and> closes dec x (e @ made)
         else opened c' x (e @ made) \<and> pending c' < pending c)"
    using D [THEN conjunct2, THEN conjunct1, rule_format, OF assms(2)] by simp
  show "def_step lib c [] chunk FlushFinish = (st, used, made, c') \<Longrightarrow> used = 0
      \<and> (if st = DeflDone then ends dec x (e @ made)
          else st = DeflOkay \<and> opened c' x (e @ made) \<and> pending c' < pending c)"
    using D [THEN conjunct2, THEN conjunct2, rule_format, OF assms(2)] by simp
qed

lemma pump_none:
  assumes "codec_documented lib dec opened pending" "wgood dst" "opened c x e"
  shows "\<exists>q dst' c'. pump lib wr dst c inp FlushNone = Some (q, dst', c')
    \<and> (takes_all \<longrightarrow> q = Inr ()) \<and> (\<forall>u. q = Inr u \<longrightarrow> (\<exists>m. wgood dst' \<and> written dst' = written dst @ m \<and> opened c' (x @ inp) (e @ m)))"
  using assms(2,3)
proof (induction "(length inp, pending c)" arbitrary: dst c x e inp rule: wf_induct_rule [OF wf_lex_prod [OF wf_less wf_less]])
  case (1 c inp dst x e)
  obtain st used made c1 where call: "def_step lib c inp chunk FlushNone = (st, used, made, c1)"
    by (metis prod_cases4)
  have law: "st = DeflOkay" "used \<le> length inp" "opened c1 (x @ take used inp) (e @ made)"
    "used = 0 \<Longrightarrow> made = [] \<Longrightarrow> inp = []" "used = 0 \<Longrightarrow> made \<noteq> [] \<Longrightarrow> pending c1 < pending c"
    using laws(1) [OF assms(1) 1(3) call] by blast+
  note unfold = pump.simps [of lib wr dst c inp]
  show ?case
  proof (cases rule: write_all_cases [OF 1(2), of made, case_names ok stop])
    case (stop e' k dst')
    then show ?thesis by (simp add: unfold call)
  next
    case (ok dst1)
    show ?thesis
    proof (cases "drop used inp = [] \<and> length made < chunk")
      case True
      then have "take used inp = inp" by simp
      then show ?thesis using True ok law(1,3) by (auto simp: unfold call intro!: exI [of _ made])
    next
      case False
      show ?thesis
      proof (cases "used = 0 \<and> made = []")
        case True
        then show ?thesis using law(4) False by (simp add: chunk_def)
      next
        case busy: False
        have less: "((length (drop used inp), pending c1), (length inp, pending c)) \<in> {(x, y). x < y} <*lex*> {(x, y). x < y}"
          using busy law(2,5) by (cases "used = 0") auto
        obtain q dst' c' where rest: "pump lib wr dst1 c1 (drop used inp) FlushNone = Some (q, dst', c')"
          "takes_all \<longrightarrow> q = Inr ()" "\<forall>u. q = Inr u \<longrightarrow> (\<exists>m. wgood dst' \<and> written dst' = written dst1 @ m
             \<and> opened c' ((x @ take used inp) @ drop used inp) ((e @ made) @ m))"
          using 1(1) [OF less ok(2) law(3)] by blast
        have "pump lib wr dst c inp FlushNone = Some (q, dst', c')"
          using ok(1) law(1) False busy rest(1) by (auto simp: unfold call)
        moreover have "\<exists>m. wgood dst' \<and> written dst' = written dst @ m \<and> opened c' (x @ inp) (e @ m)"
          if w: "q = Inr u" for u
        proof -
          obtain m where "wgood dst'" "written dst' = written dst1 @ m" "opened c' (x @ inp) (e @ made @ m)"
            using rest(3) w by auto
          then show ?thesis using ok(3) by (intro exI [of _ "made @ m"]) simp
        qed
        ultimately show ?thesis using rest(2) by blast
      qed
    qed
  qed
qed

lemma pump_full:
  assumes "codec_documented lib dec opened pending" "wgood dst" "opened c x e"
  shows "\<exists>q dst' c'. pump lib wr dst c [] FlushFull = Some (q, dst', c')
    \<and> (takes_all \<longrightarrow> q = Inr ()) \<and> (\<forall>u. q = Inr u \<longrightarrow> (\<exists>m. wgood dst' \<and> written dst' = written dst @ m \<and> opened c' [] [] \<and> closes dec x (e @ m)))"
  using assms(2,3)
proof (induction "pending c" arbitrary: dst c e rule: less_induct)
  case less
  obtain st used made c1 where call: "def_step lib c [] chunk FlushFull = (st, used, made, c1)"
    by (metis prod_cases4)
  have law: "st = DeflOkay" "used = 0"
    "if length made < chunk then opened c1 [] [] \<and> closes dec x (e @ made)
     else opened c1 x (e @ made) \<and> pending c1 < pending c"
    using laws(2) [OF assms(1) less(3) call] by blast+
  note unfold = pump.simps [of lib wr dst c "[]"]
  show ?case
  proof (cases rule: write_all_cases [OF less(2), of made, case_names ok stop])
    case (stop e' k dst')
    then show ?thesis by (simp add: unfold call)
  next
    case (ok dst1)
    show ?thesis
    proof (cases "length made < chunk")
      case True
      then show ?thesis using ok law by (auto simp: unfold call intro!: exI [of _ made])
    next
      case False
      then have nonempty: "made \<noteq> []" by (auto simp: chunk_def)
      have onward: "pending c1 < pending c" "opened c1 x (e @ made)" using law(3) False by simp_all
      obtain q dst' c' where rest: "pump lib wr dst1 c1 [] FlushFull = Some (q, dst', c')"
        "takes_all \<longrightarrow> q = Inr ()" "\<forall>u. q = Inr u \<longrightarrow> (\<exists>m. wgood dst' \<and> written dst' = written dst1 @ m \<and> opened c' [] []
            \<and> closes dec x ((e @ made) @ m))"
        using less(1) [OF onward(1) ok(2) onward(2)] by blast
      have "pump lib wr dst c [] FlushFull = Some (q, dst', c')"
        using ok(1) law(1) False nonempty rest(1) by (auto simp: unfold call)
      moreover have "\<forall>u. q = Inr u \<longrightarrow> (\<exists>m. wgood dst' \<and> written dst' = written dst @ made @ m \<and> opened c' [] []
          \<and> closes dec x (e @ made @ m))"
        using rest(3) ok(3) by simp
      ultimately show ?thesis using rest(2) by blast
    qed
  qed
qed

lemma pump_finish:
  assumes "codec_documented lib dec opened pending" "wgood dst" "opened c x e"
  shows "\<exists>q dst' c'. pump lib wr dst c [] FlushFinish = Some (q, dst', c')
    \<and> (takes_all \<longrightarrow> q = Inr ()) \<and> (\<forall>u. q = Inr u \<longrightarrow> (\<exists>m. wgood dst' \<and> written dst' = written dst @ m \<and> ends dec x (e @ m)))"
  using assms(2,3)
proof (induction "pending c" arbitrary: dst c e rule: less_induct)
  case less
  obtain st used made c1 where call: "def_step lib c [] chunk FlushFinish = (st, used, made, c1)"
    by (metis prod_cases4)
  have law: "used = 0" "if st = DeflDone then ends dec x (e @ made)
     else st = DeflOkay \<and> opened c1 x (e @ made) \<and> pending c1 < pending c"
    using laws(3) [OF assms(1) less(3) call] by blast+
  note unfold = pump.simps [of lib wr dst c "[]"]
  show ?case
  proof (cases rule: write_all_cases [OF less(2), of made, case_names ok stop])
    case (stop e' k dst')
    then show ?thesis by (simp add: unfold call)
  next
    case (ok dst1)
    show ?thesis
    proof (cases "st = DeflDone")
      case True
      then show ?thesis using ok law by (auto simp: unfold call intro!: exI [of _ made])
    next
      case False
      then have onward: "st = DeflOkay" "pending c1 < pending c" "opened c1 x (e @ made)" using law(2) by simp_all
      obtain q dst' c' where rest: "pump lib wr dst1 c1 [] FlushFinish = Some (q, dst', c')"
        "takes_all \<longrightarrow> q = Inr ()" "\<forall>u. q = Inr u \<longrightarrow> (\<exists>m. wgood dst' \<and> written dst' = written dst1 @ m \<and> ends dec x ((e @ made) @ m))"
        using less(1) [OF onward(2) ok(2) onward(3)] by blast
      have "pump lib wr dst c [] FlushFinish = Some (q, dst', c')"
        using ok(1) onward(1) rest(1) by (auto simp: unfold call)
      moreover have "\<forall>u. q = Inr u \<longrightarrow> (\<exists>m. wgood dst' \<and> written dst' = written dst @ made @ m
          \<and> ends dec x (e @ made @ m))"
        using rest(3) ok(3) by simp
      ultimately show ?thesis using rest(2) by blast
    qed
  qed
qed

text \<open>Stored blocks.\<close>

lemma closes_append: "closes dec x a \<Longrightarrow> closes dec y b \<Longrightarrow> closes dec (x @ y) (a @ b)"
  by (simp add: closes_def)

lemma closes_nil [simp]: "closes dec [] []"
  by (simp add: closes_def)

lemma length_stored_header [simp]: "length (stored_header n) = 5"
  by (simp add: stored_header_def)

lemma closes_stored:
  "codec_documented lib dec opened pending \<Longrightarrow> length block \<le> stored_block_max \<Longrightarrow> closes dec block (stored_header (length block) @ block)"
  by (simp add: codec_documented_def stored_documented_def closes_def)

lemma store_blocks_result:
  assumes "codec_documented lib dec opened pending" "wgood dst"
  shows "\<exists>q dst'. store_blocks wr dst data = Some (q, dst') \<and> (takes_all \<longrightarrow> q = Inr ())
    \<and> (\<forall>u. q = Inr u \<longrightarrow> (\<exists>m. wgood dst' \<and> written dst' = written dst @ m \<and> closes dec data m))"
  using assms(2)
proof (induction "length data" arbitrary: data dst rule: less_induct)
  case less
  note unfold = store_blocks.simps [of wr dst data]
  show ?case
  proof (cases "data = []")
    case True
    have "store_blocks wr dst data = Some (Inr (), dst)" unfolding True by (simp add: store_blocks.simps)
    moreover have "written dst = written dst @ []" "closes dec data []" by (simp_all add: True)
    ultimately show ?thesis using less(2) by blast
  next
    case False
    define block where "block = take stored_block_max data"
    have block: "length block \<le> stored_block_max" by (simp add: block_def)
    show ?thesis
    proof (cases rule: write_all_cases [OF less(2), of "stored_header (length block)", case_names head stop])
      case (stop e k dst')
      then show ?thesis using False by (simp add: unfold Let_def flip: block_def)
    next
      case (head dst1)
      show ?thesis
      proof (cases rule: write_all_cases [OF head(2), of block, case_names body stop])
        case (stop e k dst')
        then show ?thesis using False head by (simp add: unfold Let_def flip: block_def)
      next
        case (body dst2)
        define rest where "rest = drop stored_block_max data"
        have "length rest < length data" using False by (simp add: rest_def stored_block_max_def)
        then obtain q dst' where q: "store_blocks wr dst2 rest = Some (q, dst')" "takes_all \<longrightarrow> q = Inr ()"
          "\<forall>u. q = Inr u \<longrightarrow> (\<exists>m. wgood dst' \<and> written dst' = written dst2 @ m \<and> closes dec rest m)"
          using less(1) [OF _ body(2)] by blast
        have "store_blocks wr dst data = Some (q, dst')"
          using False head(1) body(1) q(1) by (simp add: unfold Let_def flip: block_def rest_def)
        moreover have "\<exists>m. wgood dst' \<and> written dst' = written dst @ m \<and> closes dec data m" if w: "q = Inr u" for u
        proof -
          obtain m where m: "wgood dst'" "written dst' = written dst2 @ m" "closes dec rest m"
            using q(3) w by blast
          have "closes dec (block @ rest) ((stored_header (length block) @ block) @ m)"
            by (rule closes_append [OF closes_stored [OF assms(1) block] m(3)])
          moreover have "block @ rest = data" by (simp add: block_def rest_def)
          ultimately show ?thesis using m body(3) head(3)
            by (intro exI [of _ "(stored_header (length block) @ block) @ m"]) simp
        qed
        ultimately show ?thesis using q(2) by blast
      qed
    qed
  qed
qed

text \<open>
  What the destination holds of the bytes \<^verbatim>\<open>taken\<close> so far: \<^verbatim>\<open>pre\<close> decodes to \<^verbatim>\<open>y\<close> up to a boundary, and the
  compressor has the rest \<^verbatim>\<open>x\<close>; none, unless it is marked as compressing.
\<close>

definition encodes :: "bytes \<Rightarrow> ('c, 'w) deflater \<Rightarrow> bool \<Rightarrow> bytes \<Rightarrow> bool" where
  "encodes base w compressing taken \<longleftrightarrow> (\<exists>y pre x e.
     wgood (df_dst w) \<and> written (df_dst w) = base @ pre @ e \<and> opened (df_comp w) x e
   \<and> (\<forall>rest. dec [] (pre @ rest) = shifted y (length pre) (dec y rest)) \<and> taken = y @ x
   \<and> (\<not> compressing \<longrightarrow> x = [] \<and> e = []))"

lemma encodes_pump:
  assumes "codec_documented lib dec opened pending" "encodes base w cf taken"
  shows "\<exists>q dst' c'. pump lib wr (df_dst w) (df_comp w) data FlushNone = Some (q, dst', c')
    \<and> (takes_all \<longrightarrow> q = Inr ())
    \<and> (\<forall>u. q = Inr u \<longrightarrow> encodes base (w\<lparr>df_dst := dst', df_comp := c'\<rparr>) True (taken @ data))"
proof -
  obtain y pre x e where a: "wgood (df_dst w)" "written (df_dst w) = base @ pre @ e" "opened (df_comp w) x e"
    "\<forall>rest. dec [] (pre @ rest) = shifted y (length pre) (dec y rest)" "taken = y @ x"
    using assms(2) by (auto simp: encodes_def)
  obtain q dst' c' where q: "pump lib wr (df_dst w) (df_comp w) data FlushNone = Some (q, dst', c')"
    "takes_all \<longrightarrow> q = Inr ()"
    "\<forall>u. q = Inr u \<longrightarrow> (\<exists>m. wgood dst' \<and> written dst' = written (df_dst w) @ m \<and> opened c' (x @ data) (e @ m))"
    using pump_none [OF assms(1) a(1,3)] by blast
  have "encodes base (w\<lparr>df_dst := dst', df_comp := c'\<rparr>) True (taken @ data)" if w: "q = Inr u" for u
  proof -
    obtain m where m: "wgood dst'" "written dst' = written (df_dst w) @ m" "opened c' (x @ data) (e @ m)"
      using q(3) w by blast
    show ?thesis unfolding encodes_def
      by (rule exI [of _ y], rule exI [of _ pre], rule exI [of _ "x @ data"], rule exI [of _ "e @ m"])
         (use a m in simp)
  qed
  then show ?thesis using q by blast
qed

lemma encodes_store:
  assumes "codec_documented lib dec opened pending" "encodes base w cf taken"
  shows "\<exists>q dst' c'. (if cf then pump lib wr (df_dst w) (df_comp w) [] FlushFull
                    else Some (Inr (), df_dst w, df_comp w)) = Some (q, dst', c')
    \<and> (takes_all \<longrightarrow> q = Inr ())
    \<and> (\<forall>u. q = Inr u \<longrightarrow> (\<exists>q' dst''. store_blocks wr dst' data = Some (q', dst'')
         \<and> (takes_all \<longrightarrow> q' = Inr ())
         \<and> (\<forall>u. q' = Inr u \<longrightarrow> encodes base (w\<lparr>df_dst := dst'', df_comp := c'\<rparr>) False (taken @ data))))"
proof -
  obtain y pre x e where a: "wgood (df_dst w)" "written (df_dst w) = base @ pre @ e" "opened (df_comp w) x e"
    "\<forall>rest. dec [] (pre @ rest) = shifted y (length pre) (dec y rest)" "taken = y @ x"
    "\<not> cf \<longrightarrow> x = [] \<and> e = []"
    using assms(2) by (auto simp: encodes_def)
  have "\<exists>q dst' c'. (if cf then pump lib wr (df_dst w) (df_comp w) [] FlushFull
                    else Some (Inr (), df_dst w, df_comp w)) = Some (q, dst', c')
    \<and> (takes_all \<longrightarrow> q = Inr ())
    \<and> (\<forall>u. q = Inr u \<longrightarrow> (\<exists>m. wgood dst' \<and> written dst' = written (df_dst w) @ m \<and> opened c' [] []
          \<and> closes dec x (e @ m)))"
    using pump_full [OF assms(1) a(1,3)] a by (cases cf) (auto intro!: exI [of _ "[]"])
  then obtain q dst' c' where q: "(if cf then pump lib wr (df_dst w) (df_comp w) [] FlushFull
                    else Some (Inr (), df_dst w, df_comp w)) = Some (q, dst', c')"
    "takes_all \<longrightarrow> q = Inr ()"
    "\<forall>u. q = Inr u \<longrightarrow> (\<exists>m. wgood dst' \<and> written dst' = written (df_dst w) @ m \<and> opened c' [] []
          \<and> closes dec x (e @ m))" by blast
  have "\<exists>q' dst''. store_blocks wr dst' data = Some (q', dst'') \<and> (takes_all \<longrightarrow> q' = Inr ())
         \<and> (\<forall>u. q' = Inr u \<longrightarrow> encodes base (w\<lparr>df_dst := dst'', df_comp := c'\<rparr>) False (taken @ data))"
    if w: "q = Inr u" for u
  proof -
    obtain m where m: "wgood dst'" "written dst' = written (df_dst w) @ m" "opened c' [] []"
      "closes dec x (e @ m)" using q(3) w by blast
    obtain q' dst'' where q': "store_blocks wr dst' data = Some (q', dst'')" "takes_all \<longrightarrow> q' = Inr ()"
      "\<forall>u. q' = Inr u \<longrightarrow> (\<exists>n. wgood dst'' \<and> written dst'' = written dst' @ n \<and> closes dec data n)"
      using store_blocks_result [OF assms(1) m(1)] by blast
    have "encodes base (w\<lparr>df_dst := dst'', df_comp := c'\<rparr>) False (taken @ data)" if v: "q' = Inr v" for v
    proof -
      obtain n where n: "wgood dst''" "written dst'' = written dst' @ n" "closes dec data n"
        using q'(3) v by blast
      have closed: "closes dec (x @ data) ((e @ m) @ n)" by (rule closes_append [OF m(4) n(3)])
      have "dec [] ((pre @ e @ m @ n) @ rest)
          = shifted (y @ x @ data) (length (pre @ e @ m @ n)) (dec (y @ x @ data) rest)" for rest
        using a(4) [rule_format, of "((e @ m) @ n) @ rest"] closed by (simp add: closes_def)
      then show ?thesis unfolding encodes_def
        by (intro exI [of _ "y @ x @ data"] exI [of _ "pre @ e @ m @ n"] exI [of _ "[]"])
           (use a m n in simp)
    qed
    then show ?thesis using q' by blast
  qed
  then show ?thesis using q by blast
qed

lemma release_result:
  assumes "codec_documented lib dec opened pending" "encodes base w (hd_compressing h) taken"
  shows "\<exists>q w' h'. release lib dense wr w h = Some (q, w', h') \<and> (takes_all \<longrightarrow> q = Inr ())
    \<and> df_held w' = df_held w \<and> df_consumed w' = df_consumed w
    \<and> (\<forall>u. q = Inr u \<longrightarrow> encodes base w' (hd_compressing h') (taken @ take (hd_len h) (hd_buf h))
         \<and> hd_len h' = 0 \<and> hd_buf h' = hd_buf h)"
proof (cases "hd_len h = 0")
  case True
  then show ?thesis using assms(2) by (simp add: release_def)
next
  case False
  define data where "data = take (hd_len h) (hd_buf h)"
  show ?thesis
  proof (cases "incompressible dense data")
    case dense: True
    define flushed where "flushed = (if hd_compressing h then pump lib wr (df_dst w) (df_comp w) [] FlushFull
          else Some (Inr (), df_dst w, df_comp w))"
    obtain q dst' c' where q: "flushed = Some (q, dst', c')" "takes_all \<longrightarrow> q = Inr ()"
      "\<forall>u. q = Inr u \<longrightarrow> (\<exists>q' dst''. store_blocks wr dst' data = Some (q', dst'')
         \<and> (takes_all \<longrightarrow> q' = Inr ())
         \<and> (\<forall>u. q' = Inr u \<longrightarrow> encodes base (w\<lparr>df_dst := dst'', df_comp := c'\<rparr>) False (taken @ data)))"
      using encodes_store [OF assms, of data, folded flushed_def] by blast
    show ?thesis
    proof (cases q)
      case (Inl e)
      have "release lib dense wr w h = Some (Inl e, w\<lparr>df_dst := dst', df_comp := c'\<rparr>, h\<lparr>hd_len := 0\<rparr>)"
        using False dense q(1) Inl unfolding release_def Let_def data_def [symmetric]
        by (simp flip: flushed_def)
      then show ?thesis using q(2) Inl by simp
    next
      case (Inr u)
      then obtain q' dst'' where "store_blocks wr dst' data = Some (q', dst'')" "takes_all \<longrightarrow> q' = Inr ()"
         "\<forall>u. q' = Inr u \<longrightarrow> encodes base (w\<lparr>df_dst := dst'', df_comp := c'\<rparr>) False (taken @ data)"
        using q(3) by blast
      moreover have "release lib dense wr w h = Some (q', w\<lparr>df_dst := dst'', df_comp := c'\<rparr>,
          h\<lparr>hd_len := 0, hd_compressing := False\<rparr>)"
        using False dense q(1) Inr calculation(1) unfolding release_def Let_def data_def [symmetric]
        by (simp flip: flushed_def)
      ultimately show ?thesis by (simp flip: data_def)
    qed
  next
    case sparse: False
    obtain q dst' c' where "pump lib wr (df_dst w) (df_comp w) data FlushNone = Some (q, dst', c')"
      "takes_all \<longrightarrow> q = Inr ()"
      "\<forall>u. q = Inr u \<longrightarrow> encodes base (w\<lparr>df_dst := dst', df_comp := c'\<rparr>) True (taken @ data)"
      using encodes_pump [OF assms] by blast
    moreover have "release lib dense wr w h = Some (q, w\<lparr>df_dst := dst', df_comp := c'\<rparr>,
        h\<lparr>hd_len := 0, hd_compressing := True\<rparr>)"
      using False sparse calculation(1) unfolding release_def Let_def data_def [symmetric] by simp
    ultimately show ?thesis by (simp flip: data_def)
  qed
qed

lemma encodes_held [simp]: "encodes base (w\<lparr>df_held := held\<rparr>) cf t \<longleftrightarrow> encodes base w cf t"
  by (simp add: encodes_def)

lemma encodes_consumed [simp]: "encodes base (w\<lparr>df_consumed := n\<rparr>) cf t \<longleftrightarrow> encodes base w cf t"
  by (simp add: encodes_def)

lemma gather_result:
  assumes "codec_documented lib dec opened pending" "encodes base w (hd_compressing h) t" "length (hd_buf h) = chunk" "hd_len h < chunk"
  shows "\<exists>q w' h'. gather lib dense wr w h rest = Some (q, w', h') \<and> (takes_all \<longrightarrow> q = Inr ())
    \<and> df_held w' = df_held w \<and> df_consumed w' = df_consumed w
    \<and> (\<forall>u. q = Inr u \<longrightarrow> length (hd_buf h') = chunk \<and> hd_len h' < chunk
         \<and> (\<exists>t'. encodes base w' (hd_compressing h') t'
              \<and> t' @ take (hd_len h') (hd_buf h') = t @ take (hd_len h) (hd_buf h) @ rest))"
  using assms(2-4)
proof (induction "length rest" arbitrary: w h t rest rule: less_induct)
  case less
  define n where "n = min (chunk - hd_len h) (length rest)"
  define h1 where "h1 = h\<lparr>hd_buf := take (hd_len h) (hd_buf h) @ take n rest @ drop (hd_len h + n) (hd_buf h),
    hd_len := hd_len h + n\<rparr>"
  have n: "n \<le> length rest" "hd_len h + n \<le> chunk" using less(4) by (auto simp: n_def)
  have h1: "length (hd_buf h1) = chunk" "hd_len h1 = hd_len h + n" "hd_compressing h1 = hd_compressing h"
    "take (hd_len h1) (hd_buf h1) = take (hd_len h) (hd_buf h) @ take n rest"
    using n less(3,4) by (simp_all add: h1_def)
  note unfold = gather.simps [of lib dense wr w h rest, unfolded Let_def, folded n_def, folded h1_def]
  show ?case
  proof (cases "hd_len h1 < chunk")
    case True
    then have "n = length rest" using n by (auto simp: n_def h1(2))
    then show ?thesis using True less(2) h1 by (simp add: unfold)
  next
    case False
    then have full: "0 < n" using less(4) h1(2) by simp
    obtain q w1 h2 where r: "release lib dense wr w h1 = Some (q, w1, h2)" "takes_all \<longrightarrow> q = Inr ()"
      "df_held w1 = df_held w" "df_consumed w1 = df_consumed w"
      "\<forall>u. q = Inr u \<longrightarrow> encodes base w1 (hd_compressing h2) (t @ take (hd_len h1) (hd_buf h1))
         \<and> hd_len h2 = 0 \<and> hd_buf h2 = hd_buf h1"
      using release_result [OF assms(1), of base w h1 t dense] less(2) h1(3) by auto
    show ?thesis
    proof (cases q)
      case (Inl e)
      then show ?thesis using False r by (simp add: unfold)
    next
      case (Inr u)
      then have enc: "encodes base w1 (hd_compressing h2) (t @ take (hd_len h) (hd_buf h) @ take n rest)"
        and h2: "hd_len h2 = 0" "length (hd_buf h2) = chunk" using r(5) h1 by simp_all
      have "length (drop n rest) < length rest" "hd_len h2 < chunk" using full n h2 by (auto simp: chunk_def)
      then obtain q' w' h' where g: "gather lib dense wr w1 h2 (drop n rest) = Some (q', w', h')"
        "takes_all \<longrightarrow> q' = Inr ()" "df_held w' = df_held w1" "df_consumed w' = df_consumed w1"
        "\<forall>u. q' = Inr u \<longrightarrow> length (hd_buf h') = chunk \<and> hd_len h' < chunk
           \<and> (\<exists>t'. encodes base w' (hd_compressing h') t'
              \<and> t' @ take (hd_len h') (hd_buf h') = (t @ take (hd_len h) (hd_buf h) @ take n rest)
                  @ take (hd_len h2) (hd_buf h2) @ drop n rest)"
        using less(1) [OF _ enc h2(2)] by blast
      have "gather lib dense wr w h rest = Some (q', w', h')"
        using False r(1) Inr g(1) by (simp add: unfold)
      moreover have "(t @ take (hd_len h) (hd_buf h) @ take n rest) @ take (hd_len h2) (hd_buf h2) @ drop n rest
          = t @ take (hd_len h) (hd_buf h) @ rest" using h2(1) by simp
      ultimately show ?thesis using g(2-5) r(3,4) by simp
    qed
  qed
qed

text \<open>The writer's invariant, through writes and to the end.\<close>

definition writer_at :: "bytes \<Rightarrow> ('c, 'w) deflater \<Rightarrow> bytes \<Rightarrow> bool" where
  "writer_at base w taken \<longleftrightarrow> (case df_held w of
      None \<Rightarrow> encodes base w True taken
    | Some h \<Rightarrow> length (hd_buf h) = chunk \<and> hd_len h < chunk
        \<and> (\<exists>t. encodes base w (hd_compressing h) t \<and> taken = t @ take (hd_len h) (hd_buf h)))"

lemma deflate_write_result:
  assumes "codec_documented lib dec opened pending" "writer_at base w taken"
  shows "\<exists>q w'. deflate_write lib dense wr w d = Some (q, w') \<and> (takes_all \<longrightarrow> q = Inr (length d))
    \<and> df_consumed w' = df_consumed w + length d
    \<and> (\<forall>k. q = Inr k \<longrightarrow> k = length d \<and> writer_at base w' (taken @ d))"
proof -
  define w1 where "w1 = w\<lparr>df_consumed := df_consumed w + length d\<rparr>"
  have held: "df_held w1 = df_held w" by (simp add: w1_def)
  note unfold = deflate_write_def [of lib dense wr w d, unfolded Let_def, folded w1_def, unfolded held]
  show ?thesis
  proof (cases "df_held w")
    case None
    then have "encodes base w1 True taken" using assms(2) by (simp add: writer_at_def w1_def)
    then obtain q dst' c' where q: "pump lib wr (df_dst w1) (df_comp w1) d FlushNone = Some (q, dst', c')"
      "takes_all \<longrightarrow> q = Inr ()"
      "\<forall>u. q = Inr u \<longrightarrow> encodes base (w1\<lparr>df_dst := dst', df_comp := c'\<rparr>) True (taken @ d)"
      using encodes_pump [OF assms(1)] by blast
    then show ?thesis using None by (cases q) (simp_all add: unfold writer_at_def w1_def)
  next
    case (Some h)
    then obtain t where t: "encodes base w1 (hd_compressing h) t" "taken = t @ take (hd_len h) (hd_buf h)"
      "length (hd_buf h) = chunk" "hd_len h < chunk"
      using assms(2) by (auto simp: writer_at_def w1_def)
    obtain q w' h' where g: "gather lib dense wr w1 h d = Some (q, w', h')" "takes_all \<longrightarrow> q = Inr ()"
      "df_held w' = df_held w1" "df_consumed w' = df_consumed w1"
      "\<forall>u. q = Inr u \<longrightarrow> length (hd_buf h') = chunk \<and> hd_len h' < chunk
           \<and> (\<exists>t'. encodes base w' (hd_compressing h') t'
              \<and> t' @ take (hd_len h') (hd_buf h') = t @ take (hd_len h) (hd_buf h) @ d)"
      using gather_result [OF assms(1) t(1,3,4), where dense = dense and rest = d] by (elim exE conjE) (rule that)
    have step: "deflate_write lib dense wr w d
        = Some (map_sum id (\<lambda>_. length d) q, w'\<lparr>df_held := Some h'\<rparr>)"
      using Some g(1) by (simp add: unfold)
    show ?thesis
    proof (cases q)
      case (Inl e)
      then show ?thesis using step g(2,4) by (simp add: w1_def)
    next
      case (Inr u)
      then obtain t' where "length (hd_buf h') = chunk" "hd_len h' < chunk" "encodes base w' (hd_compressing h') t'"
        "taken @ d = t' @ take (hd_len h') (hd_buf h')" using g(5) t(2) by auto
      then have "writer_at base (w'\<lparr>df_held := Some h'\<rparr>) (taken @ d)" by (auto simp: writer_at_def)
      then show ?thesis using step g(4) Inr by (simp add: w1_def)
    qed
  qed
qed

lemma deflate_finish_result:
  assumes "codec_documented lib dec opened pending" "writer_at base w taken"
  shows "\<exists>q dst'. deflate_finish lib dense wr w = Some (q, dst') \<and> (takes_all \<longrightarrow> q = Inr ())
    \<and> (\<forall>u. q = Inr u \<longrightarrow> (\<exists>out. wgood dst' \<and> written dst' = base @ out \<and> dec [] out = Some (taken, length out)))"
proof -
  have "\<exists>q w' cf. (case df_held w of
             None \<Rightarrow> Some (Inr (), w)
           | Some held \<Rightarrow> map_option (\<lambda>(q, w', _). (q, w')) (release lib dense wr w held)) = Some (q, w')
      \<and> (takes_all \<longrightarrow> q = Inr ()) \<and> (\<forall>u. q = Inr u \<longrightarrow> encodes base w' cf taken)"
  proof (cases "df_held w")
    case None
    then show ?thesis using assms(2) by (auto simp: writer_at_def)
  next
    case (Some h)
    then obtain t where t: "encodes base w (hd_compressing h) t" "taken = t @ take (hd_len h) (hd_buf h)"
      using assms(2) by (auto simp: writer_at_def)
    obtain q w' h' where "release lib dense wr w h = Some (q, w', h')" "takes_all \<longrightarrow> q = Inr ()"
      "\<forall>u. q = Inr u \<longrightarrow> encodes base w' (hd_compressing h') (t @ take (hd_len h) (hd_buf h))"
      using release_result [OF assms(1) t(1)] by blast
    then show ?thesis using Some t(2) by auto
  qed
  then obtain q w' cf where r: "(case df_held w of
             None \<Rightarrow> Some (Inr (), w)
           | Some held \<Rightarrow> map_option (\<lambda>(q, w', _). (q, w')) (release lib dense wr w held)) = Some (q, w')"
    "takes_all \<longrightarrow> q = Inr ()" "\<forall>u. q = Inr u \<longrightarrow> encodes base w' cf taken" by blast
  show ?thesis
  proof (cases q)
    case (Inl e)
    then show ?thesis using r(1,2) by (simp add: deflate_finish_def)
  next
    case (Inr u)
    then obtain y pre x e where a: "wgood (df_dst w')" "written (df_dst w') = base @ pre @ e"
      "opened (df_comp w') x e" "\<forall>rest. dec [] (pre @ rest) = shifted y (length pre) (dec y rest)" "taken = y @ x"
      using r(3) by (auto simp: encodes_def)
    obtain q' dst' c' where p: "pump lib wr (df_dst w') (df_comp w') [] FlushFinish = Some (q', dst', c')"
      "takes_all \<longrightarrow> q' = Inr ()"
      "\<forall>u. q' = Inr u \<longrightarrow> (\<exists>m. wgood dst' \<and> written dst' = written (df_dst w') @ m \<and> ends dec x (e @ m))"
      using pump_finish [OF assms(1) a(1,3)] by blast
    have "\<exists>out. wgood dst' \<and> written dst' = base @ out \<and> dec [] out = Some (taken, length out)"
      if v: "q' = Inr v" for v
    proof -
      obtain m where m: "wgood dst'" "written dst' = written (df_dst w') @ m" "ends dec x (e @ m)"
        using p(3) v by blast
      have "dec y (e @ m) = Some (x, length (e @ m))"
        using m(3) [unfolded ends_def, rule_format, of y "[]"] by simp
      then have "dec [] (pre @ e @ m) = Some (taken, length (pre @ e @ m))"
        using a(4) [rule_format, of "e @ m"] a(5) by simp
      then show ?thesis using m a(2) by (intro exI [of _ "pre @ e @ m"]) simp
    qed
    then show ?thesis using r(1) Inr p by (simp add: deflate_finish_def)
  qed
qed

end

interpretation dsunk: deflate_over sink_write "\<lambda>_. True" "\<lambda>w. w" "\<lambda>_. 0" lib dec opened pending
  for lib :: "'c deflate_lib" and dec opened pending
  by (rule deflate_over.intro) (rule sunk.sink_axioms)

section \<open>Properties\<close>

text \<open>A stream written in pieces and finished; the count the callers read before finishing.\<close>

fun deflate_pieces ::
    "'c deflate_lib \<Rightarrow> density \<Rightarrow> 'w writer \<Rightarrow> ('c, 'w) deflater \<Rightarrow> bytes list
      \<Rightarrow> ((io_error + nat) \<times> 'w) option" where
  "deflate_pieces lib dense wr w [] =
    map_option (\<lambda>(q, dst). (map_sum id (\<lambda>_. df_consumed w) q, dst)) (deflate_finish lib dense wr w)"
| "deflate_pieces lib dense wr w (d # ds) =
    (case deflate_write lib dense wr w d of
       None \<Rightarrow> None
     | Some (Inl e, w') \<Rightarrow> Some (Inl e, df_dst w')
     | Some (Inr _, w') \<Rightarrow> deflate_pieces lib dense wr w' ds)"

lemma deflate_pieces_result:
  assumes doc: "codec_documented lib dec opened pending"
    and "dsunk.writer_at dec opened base w taken"
  shows "\<exists>out. deflate_pieces lib dense sink_write w ds
      = Some (Inr (df_consumed w + length (concat ds)), base @ out)
    \<and> dec [] out = Some (taken @ concat ds, length out)"
  using assms(2)
proof (induction ds arbitrary: w taken)
  case Nil
  obtain q dst' where "deflate_finish lib dense sink_write w = Some (q, dst')"
    "sunk.takes_all \<longrightarrow> q = Inr ()"
    "\<forall>u. q = Inr u \<longrightarrow> (\<exists>out. True \<and> dst' = base @ out \<and> dec [] out = Some (taken, length out))"
    using dsunk.deflate_finish_result [OF doc Nil, where dense = dense] by (elim exE conjE) (rule that)
  then show ?case using sink_takes_all by auto
next
  case (Cons d ds)
  obtain q w' where q: "deflate_write lib dense sink_write w d = Some (q, w')"
    "sunk.takes_all \<longrightarrow> q = Inr (length d)" "df_consumed w' = df_consumed w + length d"
    "\<forall>k. q = Inr k \<longrightarrow> k = length d \<and> dsunk.writer_at dec opened base w' (taken @ d)"
    using dsunk.deflate_write_result [OF doc Cons(2), where dense = dense and d = d] by (elim exE conjE) (rule that)
  have ok: "q = Inr (length d)" using q(2) sink_takes_all by (rule mp)
  have w': "deflate_write lib dense sink_write w d = Some (Inr (length d), w')"
    "df_consumed w' = df_consumed w + length d" "dsunk.writer_at dec opened base w' (taken @ d)"
    using q(1,3) q(4) [rule_format, OF ok] unfolding ok by simp_all
  from Cons(1) [OF w'(3)] show ?case by (simp add: w'(1,2) add.assoc)
qed

text \<open>
  C28. Whatever is judged compressible, and however the bytes arrive, what the writer writes is one
  DEFLATE stream that decodes to exactly those bytes, and the count read before finishing is theirs.
\<close>

theorem deflate_writer_round_trip:
  assumes "deflate_documented lib dec opened pending" "stored_documented dec"
    and "w \<in> {w. deflate_new lib h [] = Ok w \<or> deflate_adaptive lib h [] = Ok w}"
  shows "\<exists>out. deflate_pieces lib dense sink_write w ds = Some (Inr (length (concat ds)), out)
    \<and> dec [] out = Some (concat ds, length out)"
proof -
  have doc: "codec_documented lib dec opened pending"
    using assms(1,2) by (simp add: codec_documented_def)
  have start: "opened (def_init lib) [] []" using assms(1) by (simp add: deflate_documented_def)
  have "dsunk.encodes dec opened [] \<lparr>df_dst = [], df_comp = def_init lib, df_consumed = 0, df_held = held\<rparr> cf []"
    for cf held
    unfolding dsunk.encodes_def
    by (rule exI [of _ "[]"], rule exI [of _ "[]"], rule exI [of _ "[]"], rule exI [of _ "[]"]) (simp add: start)
  then have "dsunk.writer_at dec opened [] w [] \<and> df_consumed w = 0"
    using assms(3)
    by (auto simp: deflate_new_def deflate_adaptive_def chunk_buffer_def dsunk.writer_at_def chunk_def
        split: if_splits)
  then show ?thesis using deflate_pieces_result [OF doc, of "[]" w "[]" dense ds] by auto
qed

text \<open>A codec with stored blocks only shows that the documented behaviour can hold.\<close>

function stored_dec :: decoder where
  "stored_dec hist xs =
    (case xs of
       b0 # b1 # b2 # b3 # b4 # ys \<Rightarrow>
         (let n = unat b1 + 256 * unat b2 in
          if b3 = NOT b1 \<and> b4 = NOT b2 \<and> n \<le> length ys then
            (if b0 = 0 then shifted (take n ys) (5 + n) (stored_dec (hist @ take n ys) (drop n ys))
             else if b0 = 1 then Some (take n ys, 5 + n) else None)
          else None)
     | _ \<Rightarrow> None)"
  by pat_completeness auto
termination by (relation "measure (\<lambda>(hist, xs). length xs)") auto

declare stored_dec.simps [simp del]

definition stored_deflate :: "unit deflate_lib" where
  "stored_deflate = \<lparr>def_init = (),
     def_step = (\<lambda>c inp cap flush. case flush of
         FlushFinish \<Rightarrow> (DeflDone, 0, [1, 0, 0, 255, 255], ())
       | FlushFull \<Rightarrow> (DeflOkay, 0, [], ())
       | FlushNone \<Rightarrow> (let block = take (min (cap - 5) stored_block_max) inp in
           (DeflOkay, length block, if inp = [] then [] else stored_header (length block) @ block, ())))\<rparr>"

lemma stored_dec_documented: "stored_documented stored_dec"
proof (unfold stored_documented_def, intro allI impI)
  fix hist block rest :: bytes
  assume "length block \<le> stored_block_max"
  then have len: "length block < 65536" by (simp add: stored_block_max_def)
  define n where "n = length block"
  have "le_value (le_bytes 2 n) = n" using len by (simp add: n_def)
  then have n: "unat (of_nat n :: byte) + 256 * unat (of_nat (n div 256) :: byte) = n"
    by (simp add: numeral_2_eq_2)
  show "stored_dec hist (stored_header (length block) @ block @ rest)
       = shifted block (5 + length block) (stored_dec (hist @ block) rest)"
    unfolding n_def [symmetric]
    using n by (subst stored_dec.simps)
      (simp add: stored_header_def numeral_2_eq_2 n_def Let_def)
qed

lemma stored_deflate_documented:
  "deflate_documented stored_deflate stored_dec (\<lambda>c x e. closes stored_dec x e) (\<lambda>_. 0)"
proof -
  have fin: "stored_dec hist ([1, 0, 0, 255, 255] @ rest) = Some ([], 5)" for hist rest
    by (subst stored_dec.simps) (simp add: Let_def)
  have ends: "ends stored_dec x (e @ [1, 0, 0, 255, 255])" if "closes stored_dec x e" for x e
    using that fin by (simp add: ends_def closes_def)
  have block: "closes stored_dec (x @ b) (e @ stored_header (length b) @ b)"
    if "closes stored_dec x e" "length b \<le> stored_block_max" for x e b
  proof -
    have "closes stored_dec b (stored_header (length b) @ b)"
      using stored_dec_documented that(2)
      by (simp add: stored_documented_def closes_def dsunk.length_stored_header)
    then show ?thesis using that(1) by (simp add: closes_def)
  qed
  have take_more: "take (min (length inp) k) inp = take k inp" for k and inp :: bytes
    by (cases "length inp \<le> k") simp_all
  have blocks: "closes stored_dec (x @ take k inp) (e @ stored_header (min (length inp) k) @ take k inp)"
    if "closes stored_dec x e" "k \<le> stored_block_max" for x e k and inp :: bytes
    using block [OF that(1), of "take k inp"] that(2) by simp
  show ?thesis
    unfolding deflate_documented_def
    using ends blocks
    by (auto simp: stored_deflate_def closes_def [of _ "[]" "[]"] Let_def take_more chunk_def stored_block_max_def)
qed

theorem deflate_writer_witness:
  "\<exists>w out. deflate_adaptive stored_deflate rich_host [] = Ok w
    \<and> deflate_pieces stored_deflate (\<lambda>counts n. True) sink_write w [[1, 2], [3]] = Some (Inr 3, out)
    \<and> stored_dec [] out = Some ([1, 2, 3], length out)"
proof -
  obtain w where w: "deflate_adaptive stored_deflate rich_host ([] :: bytes) = Ok w"
    by (auto simp: deflate_adaptive_def deflate_new_def chunk_buffer_def rich_host_def)
  then have "w \<in> {w. deflate_new stored_deflate rich_host [] = Ok w \<or> deflate_adaptive stored_deflate rich_host [] = Ok w}"
    by simp
  from deflate_writer_round_trip [OF stored_deflate_documented stored_dec_documented this,
      of "\<lambda>counts n. True" "[[1, 2], [3]]"] w
  show ?thesis by auto
qed

end
