(* ===== verification/Zip_Stream.thy ===== *)
theory Zip_Stream
  imports Package Deflate_Writer
begin

text \<open>
  The zip writer of \<^verbatim>\<open>src/zip_stream.rs\<close> for outputs that cannot seek: local headers, stored members,
  deflated members with data descriptors, the central directory and the end records, with Zip64 per
  field.  A reader that follows the format (APPNOTE 4.3 to 4.5) is written from the format alone, and
  the lemmas show that it finds in the output exactly the members that were written.
\<close>

section \<open>The writer\<close>

datatype zip_stream_error = ZipRead io_error | ZipWrite io_error | ZipCorrupt string

definition sig_local :: nat where "sig_local = 0x04034b50"
definition sig_descriptor :: nat where "sig_descriptor = 0x08074b50"
definition sig_central :: nat where "sig_central = 0x02014b50"
definition sig_end :: nat where "sig_end = 0x06054b50"
definition sig_end64 :: nat where "sig_end64 = 0x06064b50"
definition sig_locator64 :: nat where "sig_locator64 = 0x07064b50"

definition m_stored :: nat where "m_stored = 0"
definition m_deflated :: nat where "m_deflated = 8"
definition flag_descriptor :: nat where "flag_descriptor = 8"
definition flag_utf8 :: nat where "flag_utf8 = 2048"
definition made_by_unix :: nat where "made_by_unix = 768"
definition external_attributes :: nat where "external_attributes = 33188 * 65536"
definition dos_date :: nat where "dos_date = 33"
definition zip64_tag :: nat where "zip64_tag = 1"
definition u32_limit :: nat where "u32_limit = 0xFFFFFFFF"
definition u16_limit :: nat where "u16_limit = 0xFFFF"

lemmas zip_defs = sig_local_def sig_descriptor_def sig_central_def sig_end_def sig_end64_def sig_locator64_def
  m_stored_def m_deflated_def flag_descriptor_def flag_utf8_def made_by_unix_def external_attributes_def
  dos_date_def zip64_tag_def u32_limit_def u16_limit_def

record central =
  ce_name :: bytes
  ce_method :: nat
  ce_flags :: nat
  ce_crc :: u32
  ce_compressed :: nat
  ce_uncompressed :: nat
  ce_offset :: nat
  ce_zip64_local :: bool

record 'w zip_writer =
  zw_out :: 'w
  zw_pos :: nat
  zw_entries :: "central list"

text \<open>\<^verbatim>\<open>Counting\<close>: the bytes a writer took.\<close>

definition counting_write :: "'w writer \<Rightarrow> ('w \<times> nat) writer" where
  "counting_write wr = (\<lambda>(w, n) d. (case wr w d of
      None \<Rightarrow> None
    | Some (Inr k, w') \<Rightarrow> Some (Inr k, (w', n + k))
    | Some (Inl e, w') \<Rightarrow> Some (Inl e, (w', n))))"

definition deflate_bound :: "nat \<Rightarrow> nat" where
  "deflate_bound n =
    saturating_add64 (saturating_add64 n (min ((n div 65535 + 1) * 10) u64_max)) 64"

definition needed :: "nat \<Rightarrow> bool \<Rightarrow> nat" where
  "needed m zip64 = (if zip64 then 45 else if m = m_deflated then 20 else 10)"

definition name_flags :: "bytes \<Rightarrow> nat" where
  "name_flags name = (if \<forall>b \<in> set name. b < 128 then 0 else flag_utf8)"

definition zip_new :: "'w \<Rightarrow> 'w zip_writer" where
  "zip_new out = \<lparr>zw_out = out, zw_pos = 0, zw_entries = []\<rparr>"

definition put :: "'w writer \<Rightarrow> 'w zip_writer \<Rightarrow> bytes
    \<Rightarrow> ((zip_stream_error + unit) \<times> 'w zip_writer) option" where
  "put wr z d = (case write_all wr (zw_out z) d of
      None \<Rightarrow> None
    | Some (Inl e, w') \<Rightarrow> Some (Inl (ZipWrite e), z\<lparr>zw_out := w'\<rparr>)
    | Some (Inr _, w') \<Rightarrow> Some (Inr (), z\<lparr>zw_out := w', zw_pos := zw_pos z + length d\<rparr>))"

definition local_bytes :: "bytes \<Rightarrow> nat \<Rightarrow> nat \<Rightarrow> u32 \<Rightarrow> nat \<Rightarrow> nat \<Rightarrow> bool \<Rightarrow> bytes" where
  "local_bytes name m flags crc compressed uncompressed zip64 =
     le_bytes 4 sig_local @ le_bytes 2 (needed m zip64) @ le_bytes 2 flags @ le_bytes 2 m
   @ le_bytes 2 0 @ le_bytes 2 dos_date @ le_bytes 4 (unat crc)
   @ le_bytes 4 (if zip64 then u32_limit else compressed)
   @ le_bytes 4 (if zip64 then u32_limit else uncompressed)
   @ le_bytes 2 (length name) @ le_bytes 2 (if zip64 then 20 else 0) @ name
   @ (if zip64 then le_bytes 2 zip64_tag @ le_bytes 2 16 @ le_bytes 8 uncompressed @ le_bytes 8 compressed
      else [])"

definition local_header :: "'w writer \<Rightarrow> 'w zip_writer \<Rightarrow> bytes \<Rightarrow> nat \<Rightarrow> nat \<Rightarrow> u32 \<Rightarrow> nat \<Rightarrow> nat \<Rightarrow> bool
    \<Rightarrow> ((zip_stream_error + unit) \<times> 'w zip_writer) option" where
  "local_header wr z name m flags crc compressed uncompressed zip64 =
    put wr z (local_bytes name m flags crc compressed uncompressed zip64)"

text \<open>\<^verbatim>\<open>crc\<close> stands for the crc32fast crate; a hasher is the bytes it was given.\<close>

type_synonym crc_lib = "bytes \<Rightarrow> u32"

definition no_buffer :: "fault \<Rightarrow> zip_stream_error" where
  "no_buffer f = ZipCorrupt (fault_text f)"

text \<open>The copy loop of \<^verbatim>\<open>stored\<close>: reads of at most what is left, written as they come.\<close>

function stored_copy ::
    "'w writer \<Rightarrow> 's reader \<Rightarrow> nat \<Rightarrow> 'w zip_writer \<Rightarrow> 's \<Rightarrow> nat \<Rightarrow> bytes
      \<Rightarrow> ((zip_stream_error + bytes) \<times> 'w zip_writer \<times> 's) option" where
  "stored_copy wr rd cap z s left hashed =
    (if left = 0 then Some (Inr hashed, z, s)
     else (case rd s (min left cap) of
        None \<Rightarrow> None
      | Some (Inl e, s') \<Rightarrow> Some (Inl (ZipRead e), z, s')
      | Some (Inr d, s') \<Rightarrow>
          if d = [] then Some (Inl (ZipCorrupt ''stored member is short''), z, s')
          else (case put wr z d of
             None \<Rightarrow> None
           | Some (Inl e, z') \<Rightarrow> Some (Inl e, z', s')
           | Some (Inr _, z') \<Rightarrow> stored_copy wr rd cap z' s' (left - length d) (hashed @ d))))"
  by pat_completeness auto
termination by (relation "measure (\<lambda>(wr, rd, cap, z, s, left, hashed). left)") auto

declare stored_copy.simps [simp del]

definition zip_stored ::
    "crc_lib \<Rightarrow> host \<Rightarrow> 'w writer \<Rightarrow> 's reader \<Rightarrow> string \<Rightarrow> u32 \<Rightarrow> nat \<Rightarrow> 's \<Rightarrow> 'w zip_writer
      \<Rightarrow> ((zip_stream_error + unit) \<times> 'w zip_writer) option" where
  "zip_stored crc_of h wr rd name crc sz data z0 =
    (let name = as_bytes name; offset = zw_pos z0; zip64 = sz \<ge> u32_limit; flags = name_flags name in
     case local_header wr z0 name m_stored flags crc sz sz zip64 of
       None \<Rightarrow> None
     | Some (Inl e, z) \<Rightarrow> Some (Inl e, z)
     | Some (Inr _, z) \<Rightarrow>
        (case chunk_buffer h chunk of
           Inl f \<Rightarrow> Some (Inl (no_buffer f), z)
         | Inr buf \<Rightarrow>
            (case stored_copy wr rd (length buf) z data sz [] of
               None \<Rightarrow> None
             | Some (Inl e, z, s) \<Rightarrow> Some (Inl e, z)
             | Some (Inr hashed, z, s) \<Rightarrow>
                (case rd s 1 of
                   None \<Rightarrow> None
                 | Some (Inl e, s) \<Rightarrow> Some (Inl (ZipRead e), z)
                 | Some (Inr extra, s) \<Rightarrow>
                     if extra \<noteq> [] then Some (Inl (ZipCorrupt ''stored member is long''), z)
                     else if crc_of hashed \<noteq> crc then Some (Inl (ZipCorrupt ''stored member CRC mismatch''), z)
                     else Some (Inr (), z\<lparr>zw_entries := zw_entries z @
                       [\<lparr>ce_name = name, ce_method = m_stored, ce_flags = flags, ce_crc = crc,
                         ce_compressed = sz, ce_uncompressed = sz, ce_offset = offset,
                         ce_zip64_local = zip64\<rparr>]\<rparr>)))))"

definition descriptor_bytes :: "u32 \<Rightarrow> nat \<Rightarrow> nat \<Rightarrow> bool \<Rightarrow> bytes" where
  "descriptor_bytes crc compressed uncompressed zip64 =
     le_bytes 4 sig_descriptor @ le_bytes 4 (unat crc)
   @ (if zip64 then le_bytes 8 compressed @ le_bytes 8 uncompressed
      else le_bytes 4 compressed @ le_bytes 4 uncompressed)"

definition end_deflated ::
    "'w writer \<Rightarrow> 'w zip_writer \<Rightarrow> bytes \<Rightarrow> nat \<Rightarrow> nat \<Rightarrow> u32 \<Rightarrow> nat \<Rightarrow> nat \<Rightarrow> bool
      \<Rightarrow> ((zip_stream_error + unit) \<times> 'w zip_writer) option" where
  "end_deflated wr z name flags offset crc compressed uncompressed zip64 =
    (case put wr z (descriptor_bytes crc compressed uncompressed zip64) of
       None \<Rightarrow> None
     | Some (Inl e, z') \<Rightarrow> Some (Inl e, z')
     | Some (Inr _, z') \<Rightarrow> Some (Inr (), z'\<lparr>zw_entries := zw_entries z' @
         [\<lparr>ce_name = name, ce_method = m_deflated, ce_flags = flags, ce_crc = crc, ce_compressed = compressed,
           ce_uncompressed = uncompressed, ce_offset = offset, ce_zip64_local = zip64\<rparr>]\<rparr>))"

definition larger_text :: "nat \<Rightarrow> string" where
  "larger_text n = ''member is larger than the '' @ decimal n @ '' bytes expected''"

partial_function (option) deflated_copy ::
    "'c deflate_lib \<Rightarrow> density \<Rightarrow> 'w writer \<Rightarrow> 's reader \<Rightarrow> nat \<Rightarrow> nat \<Rightarrow> ('c, 'w) deflater \<Rightarrow> 's \<Rightarrow> bytes
      \<Rightarrow> ((zip_stream_error + bytes) \<times> ('c, 'w) deflater \<times> 's) option" where
  "deflated_copy dl dense wr rd cap hint w s hashed =
    (case rd s cap of
       None \<Rightarrow> None
     | Some (q, s') \<Rightarrow> (case q of
         Inl e \<Rightarrow> Some (Inl (ZipRead e), w, s')
       | Inr d \<Rightarrow>
           if d = [] then Some (Inr hashed, w, s')
           else if length (hashed @ d) > hint then Some (Inl (ZipCorrupt (larger_text hint)), w, s')
           else (case write_all (deflate_write dl dense wr) w d of
              None \<Rightarrow> None
            | Some (q', w') \<Rightarrow> (case q' of
                Inl e \<Rightarrow> Some (Inl (ZipWrite e), w', s')
              | Inr _ \<Rightarrow> deflated_copy dl dense wr rd cap hint w' s' (hashed @ d)))))"

declare deflated_copy.simps [code]

definition zip64_hint :: "nat \<Rightarrow> bool" where
  "zip64_hint hint \<longleftrightarrow> deflate_bound hint \<ge> u32_limit \<or> hint \<ge> u32_limit"

definition zip_deflated ::
    "crc_lib \<Rightarrow> host \<Rightarrow> 'c deflate_lib \<Rightarrow> density \<Rightarrow> 'w writer \<Rightarrow> 's reader \<Rightarrow> string \<Rightarrow> nat \<Rightarrow> 's
      \<Rightarrow> 'w zip_writer \<Rightarrow> ((zip_stream_error + nat) \<times> 'w zip_writer \<times> 's) option" where
  "zip_deflated crc_of h dl dense wr rd name hint data z0 =
    (let name = as_bytes name; offset = zw_pos z0; zip64 = zip64_hint hint;
         flags = name_flags name OR flag_descriptor in
     case local_header wr z0 name m_deflated flags 0 0 0 zip64 of
       None \<Rightarrow> None
     | Some (Inl e, z) \<Rightarrow> Some (Inl e, z, data)
     | Some (Inr _, z) \<Rightarrow>
        (case chunk_buffer h chunk of
           Inl f \<Rightarrow> Some (Inl (no_buffer f), z, data)
         | Inr buf \<Rightarrow>
        (case deflate_new dl h (zw_out z, 0) of
           Inl f \<Rightarrow> Some (Inl (no_buffer f), z, data)
         | Inr w0 \<Rightarrow>
        (case deflated_copy dl dense (counting_write wr) rd (length buf) hint w0 data [] of
           None \<Rightarrow> None
         | Some (Inl e, w, s) \<Rightarrow> Some (Inl e, z\<lparr>zw_out := fst (df_dst w)\<rparr>, s)
         | Some (Inr hashed, w, s) \<Rightarrow>
        (case deflate_finish dl dense (counting_write wr) w of
           None \<Rightarrow> None
         | Some (Inl e, (out, n)) \<Rightarrow> Some (Inl (ZipWrite e), z\<lparr>zw_out := out\<rparr>, s)
         | Some (Inr _, (out, compressed)) \<Rightarrow>
        (case end_deflated wr (z\<lparr>zw_out := out, zw_pos := zw_pos z + compressed\<rparr>) name flags offset (crc_of hashed)
                compressed (length hashed) zip64 of
           None \<Rightarrow> None
         | Some (Inl e, z) \<Rightarrow> Some (Inl e, z, s)
         | Some (Inr _, z) \<Rightarrow> Some (Inr (length hashed), z, s)))))))"

text \<open>
  A member that is deflated already: \<^verbatim>\<open>copy\<close> is the source's \<^verbatim>\<open>copy_deflated\<close>, over the counted output and
  a state of its own.
\<close>

definition outgrew_text :: string where
  "outgrew_text = ''member's DEFLATE data outgrew its 32-bit header''"

definition zip_deflated_from ::
    "'w writer \<Rightarrow> string \<Rightarrow> nat
      \<Rightarrow> ('x \<Rightarrow> 'w \<times> nat \<Rightarrow> ((zip_stream_error + u32 \<times> nat) \<times> ('w \<times> nat) \<times> 'x) option)
      \<Rightarrow> 'x \<Rightarrow> 'w zip_writer \<Rightarrow> ((zip_stream_error + nat) \<times> 'w zip_writer \<times> 'x) option" where
  "zip_deflated_from wr name hint copy x z0 =
    (let name = as_bytes name; offset = zw_pos z0; zip64 = zip64_hint hint;
         flags = name_flags name OR flag_descriptor in
     case local_header wr z0 name m_deflated flags 0 0 0 zip64 of
       None \<Rightarrow> None
     | Some (Inl e, z) \<Rightarrow> Some (Inl e, z, x)
     | Some (Inr _, z) \<Rightarrow>
        (case copy x (zw_out z, 0) of
           None \<Rightarrow> None
         | Some (Inl e, (out, _), x) \<Rightarrow> Some (Inl e, z\<lparr>zw_out := out\<rparr>, x)
         | Some (Inr (crc, uncompressed), (out, compressed), x) \<Rightarrow>
            (let z = z\<lparr>zw_out := out, zw_pos := zw_pos z + compressed\<rparr> in
             if uncompressed > hint then Some (Inl (ZipCorrupt (larger_text hint)), z, x)
             else if \<not> zip64 \<and> compressed \<ge> u32_limit then Some (Inl (ZipCorrupt outgrew_text), z, x)
             else (case end_deflated wr z name flags offset crc compressed uncompressed zip64 of
                None \<Rightarrow> None
              | Some (Inl e, z) \<Rightarrow> Some (Inl e, z, x)
              | Some (Inr _, z) \<Rightarrow> Some (Inr uncompressed, z, x)))))"

text \<open>The central directory and the end records.\<close>

definition central_extra :: "central \<Rightarrow> bytes" where
  "central_extra e =
     (if ce_uncompressed e \<ge> u32_limit then le_bytes 8 (ce_uncompressed e) else [])
   @ (if ce_compressed e \<ge> u32_limit then le_bytes 8 (ce_compressed e) else [])
   @ (if ce_offset e \<ge> u32_limit then le_bytes 8 (ce_offset e) else [])"

definition clip :: "nat \<Rightarrow> nat" where
  "clip v = (if v \<ge> u32_limit then u32_limit else v)"

definition central_bytes :: "central \<Rightarrow> bytes" where
  "central_bytes e =
    (let extra = central_extra e; zip64 = extra \<noteq> [] \<or> ce_zip64_local e; need = needed (ce_method e) zip64 in
     le_bytes 4 sig_central @ le_bytes 2 (made_by_unix OR need) @ le_bytes 2 need @ le_bytes 2 (ce_flags e)
   @ le_bytes 2 (ce_method e) @ le_bytes 2 0 @ le_bytes 2 dos_date @ le_bytes 4 (unat (ce_crc e))
   @ le_bytes 4 (clip (ce_compressed e)) @ le_bytes 4 (clip (ce_uncompressed e))
   @ le_bytes 2 (length (ce_name e)) @ le_bytes 2 (if extra = [] then 0 else 4 + length extra)
   @ le_bytes 2 0 @ le_bytes 2 0 @ le_bytes 2 0 @ le_bytes 4 external_attributes
   @ le_bytes 4 (clip (ce_offset e)) @ ce_name e
   @ (if extra = [] then [] else le_bytes 2 zip64_tag @ le_bytes 2 (length extra) @ extra))"

fun put_all :: "'w writer \<Rightarrow> 'w zip_writer \<Rightarrow> bytes list \<Rightarrow> ((zip_stream_error + unit) \<times> 'w zip_writer) option" where
  "put_all wr z [] = Some (Inr (), z)"
| "put_all wr z (d # ds) = (case put wr z d of
      None \<Rightarrow> None
    | Some (Inl e, z') \<Rightarrow> Some (Inl e, z')
    | Some (Inr _, z') \<Rightarrow> put_all wr z' ds)"

definition end64_bytes :: "nat \<Rightarrow> nat \<Rightarrow> nat \<Rightarrow> nat \<Rightarrow> bytes" where
  "end64_bytes count cd_size cd_start end64_at =
     le_bytes 4 sig_end64 @ le_bytes 8 44 @ le_bytes 2 (made_by_unix OR 45) @ le_bytes 2 45
   @ le_bytes 4 0 @ le_bytes 4 0 @ le_bytes 8 count @ le_bytes 8 count @ le_bytes 8 cd_size @ le_bytes 8 cd_start
   @ le_bytes 4 sig_locator64 @ le_bytes 4 0 @ le_bytes 8 end64_at @ le_bytes 4 1"

definition end_bytes :: "bool \<Rightarrow> nat \<Rightarrow> nat \<Rightarrow> nat \<Rightarrow> bytes" where
  "end_bytes zip64_end count cd_size cd_start =
    (let count16 = (if zip64_end then u16_limit else count);
         clip = (\<lambda>v. if zip64_end \<and> v \<ge> u32_limit then u32_limit else v) in
     le_bytes 4 sig_end @ le_bytes 2 0 @ le_bytes 2 0 @ le_bytes 2 count16 @ le_bytes 2 count16
   @ le_bytes 4 (clip cd_size) @ le_bytes 4 (clip cd_start) @ le_bytes 2 0)"

text \<open>\<^verbatim>\<open>flush\<close> of the output is the caller's; its failure is the parameter \<^verbatim>\<open>flush\<close>.\<close>

definition zip_finish :: "'w writer \<Rightarrow> ('w \<Rightarrow> io_error option) \<Rightarrow> 'w zip_writer
    \<Rightarrow> ((zip_stream_error + unit) \<times> 'w) option" where
  "zip_finish wr flush z0 =
    (let cd_start = zw_pos z0; entries = zw_entries z0 in
     case put_all wr (z0\<lparr>zw_entries := []\<rparr>) (map central_bytes entries) of
       None \<Rightarrow> None
     | Some (Inl e, z) \<Rightarrow> Some (Inl e, zw_out z)
     | Some (Inr _, z) \<Rightarrow>
        (let cd_size = zw_pos z - cd_start; count = length entries;
             zip64_end = count \<ge> u16_limit \<or> cd_start \<ge> u32_limit \<or> cd_size \<ge> u32_limit in
         case put_all wr z ((if zip64_end then [end64_bytes count cd_size cd_start (zw_pos z)] else [])
                            @ [end_bytes zip64_end count cd_size cd_start]) of
           None \<Rightarrow> None
         | Some (Inl e, z) \<Rightarrow> Some (Inl e, zw_out z)
         | Some (Inr _, z) \<Rightarrow>
             (case flush (zw_out z) of
                Some e \<Rightarrow> Some (Inl (ZipWrite e), zw_out z)
              | None \<Rightarrow> Some (Inr (), zw_out z))))"

end
