(* ===== verification/Zip_Layout.thy ===== *)
theory Zip_Layout
  imports Zip_Stream
begin

text \<open>
  A strict zip reader written from the format (APPNOTE 4.3 to 4.5), and the layout of what the writer of
  \<^verbatim>\<open>src/zip_stream.rs\<close> puts out: members one after another, the directory, the end records.  The reader
  finds in such a layout exactly its members.
\<close>

section \<open>The reader\<close>

text \<open>Little-endian fields from the front of the input, with what follows them.\<close>

definition pop :: "nat \<Rightarrow> bytes \<Rightarrow> (nat \<times> bytes) option" where
  "pop k bs = (if k \<le> length bs then Some (le_value (take k bs), drop k bs) else None)"

fun pops :: "nat list \<Rightarrow> bytes \<Rightarrow> (nat list \<times> bytes) option" where
  "pops [] bs = Some ([], bs)"
| "pops (k # ks) bs = (case pop k bs of
      None \<Rightarrow> None
    | Some (v, bs') \<Rightarrow> map_option (\<lambda>(vs, rest). (v # vs, rest)) (pops ks bs'))"

text \<open>APPNOTE 4.5.3: the Zip64 block of an extra field, and the values it replaces, in order.\<close>

function zip64_block :: "bytes \<Rightarrow> bytes option" where
  "zip64_block extra = (case pops [2, 2] extra of
      None \<Rightarrow> None
    | Some (vs, rest) \<Rightarrow>
        if vs ! 0 = zip64_tag then Some (take (vs ! 1) rest)
        else if length extra \<le> length (drop (vs ! 1) rest) then None
        else zip64_block (drop (vs ! 1) rest))"
  by pat_completeness auto
termination by (relation "measure length") auto

declare zip64_block.simps [simp del]

fun widen :: "nat list \<Rightarrow> bytes \<Rightarrow> nat list option" where
  "widen [] x = Some []"
| "widen (v # vs) x =
    (if v = u32_limit then (case pop 8 x of
        None \<Rightarrow> None
      | Some (v', x') \<Rightarrow> map_option ((#) v') (widen vs x'))
     else map_option ((#) v) (widen vs x))"

definition block_or_none :: "bytes option \<Rightarrow> bytes" where
  "block_or_none b = (case b of Some x \<Rightarrow> x | None \<Rightarrow> [])"

record dir_entry =
  de_name :: bytes
  de_flags :: nat
  de_method :: nat
  de_crc :: nat
  de_compressed :: nat
  de_uncompressed :: nat
  de_offset :: nat

text \<open>APPNOTE 4.3.12: one central directory record.\<close>

definition read_central :: "bytes \<Rightarrow> (dir_entry \<times> bytes) option" where
  "read_central bs = (case pops [4, 2, 2, 2, 2, 2, 2, 4, 4, 4, 2, 2, 2, 2, 2, 4, 4] bs of
      None \<Rightarrow> None
    | Some (vs, rest) \<Rightarrow>
       (let nl = vs ! 10; xl = vs ! 11; cl = vs ! 12 in
        if vs ! 0 \<noteq> sig_central \<or> length rest < nl + xl + cl then None
        else (case widen [vs ! 9, vs ! 8, vs ! 16] (block_or_none (zip64_block (take xl (drop nl rest)))) of
            None \<Rightarrow> None
          | Some ws \<Rightarrow> Some
             (\<lparr>de_name = take nl rest, de_flags = vs ! 3, de_method = vs ! 4, de_crc = vs ! 7,
               de_compressed = ws ! 1, de_uncompressed = ws ! 0, de_offset = ws ! 2\<rparr>,
              drop (nl + xl + cl) rest))))"

fun read_directory :: "nat \<Rightarrow> bytes \<Rightarrow> dir_entry list option" where
  "read_directory 0 bs = (if bs = [] then Some [] else None)"
| "read_directory (Suc n) bs = (case read_central bs of
      None \<Rightarrow> None
    | Some (e, rest) \<Rightarrow> map_option ((#) e) (read_directory n rest))"

record unzipped =
  uz_name :: bytes
  uz_method :: nat
  uz_crc :: nat
  uz_size :: nat
  uz_data :: bytes

text \<open>
  APPNOTE 4.3.7 to 4.3.9: the local header where the directory says, then the data, then the descriptor
  if bit 3 is set, its sizes 8 bytes wide when the local header has a Zip64 block.  Everything said twice
  must agree.
\<close>

definition read_member :: "bytes \<Rightarrow> dir_entry \<Rightarrow> unzipped option" where
  "read_member bs e = (case pops [4, 2, 2, 2, 2, 2, 4, 4, 4, 2, 2] (drop (de_offset e) bs) of
      None \<Rightarrow> None
    | Some (vs, rest) \<Rightarrow>
       (let nl = vs ! 9; xl = vs ! 10; block = zip64_block (take xl (drop nl rest));
            body = drop (nl + xl) rest; data = take (de_compressed e) body;
            descriptor = bit (de_flags e) 3;
            same = (vs ! 0 = sig_local \<and> vs ! 2 = de_flags e \<and> vs ! 3 = de_method e
                    \<and> take nl rest = de_name e \<and> length data = de_compressed e);
            sizes = (if descriptor then
                (let w = (if block = None then 4 else 8) in
                 map_option (\<lambda>(ds, _). ds ! 0 = sig_descriptor \<and> ds ! 1 = de_crc e
                     \<and> ds ! 2 = de_compressed e \<and> ds ! 3 = de_uncompressed e)
                   (pops [4, 4, w, w] (drop (de_compressed e) body)))
              else
                map_option (\<lambda>ws. vs ! 6 = de_crc e \<and> ws = [de_uncompressed e, de_compressed e])
                  (widen [vs ! 8, vs ! 7] (block_or_none block)))
        in if same \<and> sizes = Some True then
             Some \<lparr>uz_name = de_name e, uz_method = de_method e, uz_crc = de_crc e,
               uz_size = de_uncompressed e, uz_data = data\<rparr>
           else None))"

text \<open>APPNOTE 4.3.14 to 4.3.16: the end records of an archive without a comment.\<close>

definition read_end :: "bytes \<Rightarrow> (nat \<times> nat \<times> nat) option" where
  "read_end bs = (let at = length bs - 22 in
     case pops [4, 2, 2, 2, 2, 4, 4, 2] (drop at bs) of
       None \<Rightarrow> None
     | Some (vs, _) \<Rightarrow>
         if vs ! 0 \<noteq> sig_end \<or> vs ! 7 \<noteq> 0 then None
         else if vs ! 4 \<noteq> u16_limit \<and> vs ! 5 \<noteq> u32_limit \<and> vs ! 6 \<noteq> u32_limit then
           Some (vs ! 4, vs ! 5, vs ! 6)
         else (case pops [4, 4, 8, 4] (drop (at - 20) bs) of
             None \<Rightarrow> None
           | Some (ls, _) \<Rightarrow>
              (case pops [4, 8, 2, 2, 4, 4, 8, 8, 8, 8] (drop (ls ! 2) bs) of
                 None \<Rightarrow> None
               | Some (zs, _) \<Rightarrow>
                   if ls ! 0 = sig_locator64 \<and> zs ! 0 = sig_end64 then Some (zs ! 7, zs ! 8, zs ! 9) else None)))"

fun read_members :: "bytes \<Rightarrow> dir_entry list \<Rightarrow> unzipped list option" where
  "read_members bs [] = Some []"
| "read_members bs (e # es) = (case read_member bs e of
      None \<Rightarrow> None
    | Some m \<Rightarrow> map_option ((#) m) (read_members bs es))"

definition unzip :: "bytes \<Rightarrow> unzipped list option" where
  "unzip bs = (case read_end bs of
      None \<Rightarrow> None
    | Some (count, sz, start) \<Rightarrow> (case read_directory count (take sz (drop start bs)) of
        None \<Rightarrow> None
      | Some es \<Rightarrow> read_members bs es))"

section \<open>Fields\<close>

lemma pop_le_bytes [simp]: "pop k (le_bytes k n @ rest) = Some (n mod 256 ^ k, rest)"
  by (simp add: pop_def le_value_le_bytes)

lemma pops_le_bytes [simp]:
  "pops (k # ks) (le_bytes k n @ rest) = map_option (\<lambda>(vs, rest). (n mod 256 ^ k # vs, rest)) (pops ks rest)"
  by (simp add: prod.case_eq_if)

lemma pops_last [simp]: "pops [k] (le_bytes k n) = Some ([n mod 256 ^ k], [])"
  using pops_le_bytes [of k "[]" n "[]"] by simp

declare pops.simps(2) [simp del]

section \<open>The layout\<close>

text \<open>One member as the writer lays it out, and what its directory record may hold.\<close>

definition member_bytes :: "central \<Rightarrow> bytes \<Rightarrow> bytes" where
  "member_bytes e d = (if ce_method e = m_deflated
     then local_bytes (ce_name e) (ce_method e) (ce_flags e) 0 0 0 (ce_zip64_local e) @ d
       @ descriptor_bytes (ce_crc e) (ce_compressed e) (ce_uncompressed e) (ce_zip64_local e)
     else local_bytes (ce_name e) (ce_method e) (ce_flags e) (ce_crc e) (ce_compressed e) (ce_uncompressed e)
         (ce_zip64_local e) @ d)"

definition sound_entry :: "central \<Rightarrow> bytes \<Rightarrow> bool" where
  "sound_entry e d \<longleftrightarrow> ce_compressed e = length d
   \<and> (ce_method e = m_stored \<and> ce_flags e = name_flags (ce_name e) \<and> ce_uncompressed e = length d
        \<and> (ce_zip64_local e \<longleftrightarrow> length d \<ge> u32_limit)
      \<or> ce_method e = m_deflated \<and> ce_flags e = name_flags (ce_name e) OR flag_descriptor
        \<and> (\<not> ce_zip64_local e \<longrightarrow> ce_uncompressed e < u32_limit))"

text \<open>
  A deflated member whose data no longer fits the 32-bit sizes its header promised: its descriptor then holds
  the size modulo 4 GiB.
\<close>

definition outgrown :: "central \<Rightarrow> bool" where
  "outgrown e \<longleftrightarrow> ce_method e = m_deflated \<and> \<not> ce_zip64_local e \<and> 2 ^ 32 \<le> ce_compressed e"


definition fits_fields :: "central \<Rightarrow> bool" where
  "fits_fields e \<longleftrightarrow> length (ce_name e) < 2 ^ 16 \<and> ce_uncompressed e < 2 ^ 64 \<and> ce_compressed e < 2 ^ 64
     \<and> ce_offset e < 2 ^ 64"

definition members_bytes :: "(central \<times> bytes) list \<Rightarrow> bytes" where
  "members_bytes ms = concat (map (\<lambda>(e, d). member_bytes e d) ms)"

fun placed :: "nat \<Rightarrow> (central \<times> bytes) list \<Rightarrow> bool" where
  "placed at [] \<longleftrightarrow> True"
| "placed at ((e, d) # ms) \<longleftrightarrow> ce_offset e = at \<and> sound_entry e d \<and> placed (at + length (member_bytes e d)) ms"

definition entry_of :: "central \<Rightarrow> dir_entry" where
  "entry_of e = \<lparr>de_name = ce_name e, de_flags = ce_flags e, de_method = ce_method e, de_crc = unat (ce_crc e),
     de_compressed = ce_compressed e, de_uncompressed = ce_uncompressed e, de_offset = ce_offset e\<rparr>"

definition member_of :: "central \<Rightarrow> bytes \<Rightarrow> unzipped" where
  "member_of e d = \<lparr>uz_name = ce_name e, uz_method = ce_method e, uz_crc = unat (ce_crc e),
     uz_size = ce_uncompressed e, uz_data = d\<rparr>"

lemma name_flags_cases: "name_flags name = 0 \<or> name_flags name = 2048"
  by (simp add: name_flags_def flag_utf8_def)

lemma flags_bit [simp]:
  "bit (name_flags name) 3 = False" "bit (name_flags name OR flag_descriptor) 3 = True"
  by (auto simp: name_flags_def flag_utf8_def flag_descriptor_def bit_simps)

lemma flags_small [simp]:
  "name_flags name mod 65536 = name_flags name"
  "(name_flags name OR flag_descriptor) mod 65536 = name_flags name OR flag_descriptor"
  by (auto simp: name_flags_def flag_utf8_def flag_descriptor_def)

lemma crc_mod [simp]: "unat (c :: u32) mod 4294967296 = unat c"
  by (rule mod_less) (use unsigned_less [of c] in simp)

lemma zip64_block_written [simp]:
  "n < 65536 \<Longrightarrow> length x = n \<Longrightarrow> zip64_block (le_bytes 2 zip64_tag @ le_bytes 2 n @ x) = Some x"
  by (subst zip64_block.simps) (simp add: zip64_tag_def pops.simps)

lemma zip64_block_nil [simp]: "zip64_block [] = None"
  by (subst zip64_block.simps) (simp add: pops.simps pop_def)

text \<open>A directory record reads back.\<close>

lemma pop_le_bytes_last [simp]: "pop k (le_bytes k n) = Some (n mod 256 ^ k, [])"
  using pop_le_bytes [of k n "[]"] by simp

lemma widen_clipped:
  assumes "u < 2 ^ 64" "c < 2 ^ 64" "off < 2 ^ 64"
  shows "widen [clip u, clip c, clip off]
     ((if u \<ge> u32_limit then le_bytes 8 u else []) @ (if c \<ge> u32_limit then le_bytes 8 c else [])
       @ (if off \<ge> u32_limit then le_bytes 8 off else [])) = Some [u, c, off]"
  using assms by (auto simp: clip_def)

lemma clip_small: "clip v mod 4294967296 = clip v"
  by (simp add: clip_def u32_limit_def)

lemma length_central_extra: "length (central_extra e) \<le> 24"
  by (simp add: central_extra_def)

lemma read_central_bytes:
  assumes "fits_fields e" "sound_entry e d"
  shows "read_central (central_bytes e @ rest) = Some (entry_of e, rest)"
proof -
  define x where "x = central_extra e"
  have x: "length x \<le> 24" by (simp add: x_def length_central_extra)
  have flags: "ce_flags e mod 65536 = ce_flags e" "ce_method e mod 65536 = ce_method e"
    using assms(2) by (auto simp: sound_entry_def m_stored_def m_deflated_def)
  have name: "length (ce_name e) mod 65536 = length (ce_name e)"
    using assms(1) by (simp add: fits_fields_def)
  have wide: "widen [clip (ce_uncompressed e), clip (ce_compressed e), clip (ce_offset e)] x
      = Some [ce_uncompressed e, ce_compressed e, ce_offset e]"
    using widen_clipped [of "ce_uncompressed e" "ce_compressed e" "ce_offset e"] assms(1)
    by (simp add: fits_fields_def x_def central_extra_def)
  have none: "x = [] \<Longrightarrow> block_or_none None = x" by (simp add: block_or_none_def)
  show ?thesis
    unfolding read_central_def central_bytes_def Let_def x_def [symmetric]
    using x wide
    by (cases "x = []")
       (simp_all add: flags name clip_small sig_central_def block_or_none_def entry_of_def)
qed

text \<open>A member reads back wherever its bytes stand, and only if it has not outgrown its header.\<close>

lemma zip64_local_block:
  "zip64_block (if zip64 then le_bytes 2 zip64_tag @ le_bytes 2 16 @ le_bytes 8 u @ le_bytes 8 c else [])
    = (if zip64 then Some (le_bytes 8 u @ le_bytes 8 c) else None)"
  by simp

lemma read_member_at:
  assumes "drop (ce_offset e) bs = member_bytes e d @ rest" "sound_entry e d" "fits_fields e"
  shows "read_member bs (entry_of e) = (if outgrown e then None else Some (member_of e d))"
proof -
  have name: "length (ce_name e) mod 65536 = length (ce_name e)"
    using assms(3) by (simp add: fits_fields_def)
  have flags: "ce_flags e mod 65536 = ce_flags e" "ce_method e mod 65536 = ce_method e"
    using assms(2) by (auto simp: sound_entry_def m_stored_def m_deflated_def)
  have wide: "ce_uncompressed e mod 18446744073709551616 = ce_uncompressed e"
    "ce_compressed e mod 18446744073709551616 = ce_compressed e"
    using assms(3) by (simp_all add: fits_fields_def)
  have len: "ce_compressed e = length d" using assms(2) by (simp add: sound_entry_def)
  consider (stored) "ce_method e = m_stored" "ce_flags e = name_flags (ce_name e)" "ce_uncompressed e = length d"
      "ce_zip64_local e \<longleftrightarrow> length d \<ge> u32_limit"
    | (deflated) "ce_method e = m_deflated" "ce_flags e = name_flags (ce_name e) OR flag_descriptor"
      "\<not> ce_zip64_local e \<longrightarrow> ce_uncompressed e < u32_limit"
    using assms(2) by (auto simp: sound_entry_def)
  then show ?thesis
  proof cases
    case stored
    have differ: "m_stored \<noteq> m_deflated" by (simp add: m_stored_def m_deflated_def)
    show ?thesis
      using assms(1) wide stored differ
      by (cases "ce_zip64_local e")
         (simp_all add: read_member_def entry_of_def member_of_def member_bytes_def local_bytes_def len name
            flags [unfolded stored] sig_local_def block_or_none_def u32_limit_def outgrown_def)
  next
    case deflated
    have fits: "length d mod 4294967296 = length d \<longleftrightarrow> length d < 4294967296"
      using mod_less_divisor [of 4294967296 "length d"] by (metis mod_less zero_less_numeral)
    show ?thesis
      using assms(1) wide deflated
      by (cases "ce_zip64_local e")
         (simp_all add: read_member_def entry_of_def member_of_def member_bytes_def local_bytes_def len name
            flags [unfolded deflated] sig_local_def block_or_none_def descriptor_bytes_def sig_descriptor_def
            u32_limit_def outgrown_def fits not_less)
  qed
qed

lemma read_members_placed:
  assumes "bs = before @ members_bytes ms @ rest" "placed (length before) ms"
    and "\<forall>(e, d) \<in> set ms. fits_fields e"
  shows "read_members bs (map (\<lambda>(e, d). entry_of e) ms)
    = (if \<exists>e \<in> set (map fst ms). outgrown e then None else Some (map (\<lambda>(e, d). member_of e d) ms))"
  using assms
proof (induction ms arbitrary: before)
  case (Cons m ms)
  obtain e d where m: "m = (e, d)" by (cases m)
  have e: "ce_offset e = length before" "sound_entry e d" "fits_fields e"
    using Cons.prems by (auto simp: m)
  have "drop (ce_offset e) bs = member_bytes e d @ members_bytes ms @ rest"
    using Cons.prems(1) by (simp add: m e(1) members_bytes_def)
  from read_member_at [OF this e(2,3)]
  have one: "read_member bs (entry_of e) = (if outgrown e then None else Some (member_of e d))" .
  have "read_members bs (map (\<lambda>(e, d). entry_of e) ms)
      = (if \<exists>e \<in> set (map fst ms). outgrown e then None else Some (map (\<lambda>(e, d). member_of e d) ms))"
    by (rule Cons.IH [of "before @ member_bytes e d"]) (use Cons.prems in \<open>auto simp: m members_bytes_def\<close>)
  then show ?case by (simp add: m one)
qed simp

lemma read_directory_bytes:
  assumes "\<forall>(e, d) \<in> set ms. fits_fields e \<and> sound_entry e d"
  shows "read_directory (length ms) (concat (map (\<lambda>(e, d). central_bytes e) ms))
    = Some (map (\<lambda>(e, d). entry_of e) ms)"
  using assms
proof (induction ms)
  case (Cons m ms)
  obtain e d where m: "m = (e, d)" by (cases m)
  have "read_central (central_bytes e @ concat (map (\<lambda>(e, d). central_bytes e) ms))
      = Some (entry_of e, concat (map (\<lambda>(e, d). central_bytes e) ms))"
    by (rule read_central_bytes [of _ d]) (use Cons.prems in \<open>auto simp: m\<close>)
  then show ?case using Cons by (simp add: m)
qed simp

text \<open>The end records read back.\<close>

definition ending_bytes :: "nat \<Rightarrow> nat \<Rightarrow> nat \<Rightarrow> bytes" where
  "ending_bytes count cd_size cd_start =
    (let zip64_end = count \<ge> u16_limit \<or> cd_start \<ge> u32_limit \<or> cd_size \<ge> u32_limit in
     (if zip64_end then end64_bytes count cd_size cd_start (cd_start + cd_size) else [])
     @ end_bytes zip64_end count cd_size cd_start)"

lemma length_end_bytes [simp]: "length (end_bytes z c s b) = 22"
  by (simp add: end_bytes_def Let_def)

lemma length_end64_bytes [simp]: "length (end64_bytes c s b a) = 76"
  by (simp add: end64_bytes_def)

lemma pops_end_bytes:
  "pops [4, 2, 2, 2, 2, 4, 4, 2] (end_bytes z c s b)
    = Some ([sig_end, 0, 0, (if z then u16_limit else c) mod 65536, (if z then u16_limit else c) mod 65536,
        (if z \<and> s \<ge> u32_limit then u32_limit else s) mod 4294967296,
        (if z \<and> b \<ge> u32_limit then u32_limit else b) mod 4294967296, 0], [])"
  by (simp add: end_bytes_def Let_def sig_end_def del: if_split)

lemma read_ending:
  assumes "bs = before @ ending_bytes count cd_size cd_start" "length before = cd_start + cd_size"
    and "count < 2 ^ 64" "cd_start + cd_size < 2 ^ 64"
  shows "read_end bs = Some (count, cd_size, cd_start)"
proof (cases "count \<ge> u16_limit \<or> cd_start \<ge> u32_limit \<or> cd_size \<ge> u32_limit")
  case False
  then show ?thesis
    using assms(1)
    by (simp add: read_end_def ending_bytes_def pops_end_bytes u16_limit_def u32_limit_def Let_def)
next
  case True
  define e64 where "e64 = end64_bytes count cd_size cd_start (cd_start + cd_size)"
  define r where "r = end_bytes True count cd_size cd_start"
  have bs: "bs = before @ e64 @ r" using assms(1) True by (simp add: ending_bytes_def e64_def r_def)
  note ends_so = pops_end_bytes [of True count cd_size cd_start, folded r_def]
  have len: "length bs - 22 = length before + 76" by (simp add: bs e64_def r_def)
  have at: "drop (length bs - 22) bs = r" unfolding len by (simp add: bs e64_def)
  have loc: "drop (length bs - 22 - 20) bs = le_bytes 4 sig_locator64 @ le_bytes 4 0
      @ le_bytes 8 (cd_start + cd_size) @ le_bytes 4 1 @ r"
    unfolding len by (simp add: bs e64_def end64_bytes_def)
  have e: "drop (cd_start + cd_size) bs = e64 @ r" using assms(2) by (simp add: bs)
  have small: "cd_start < 18446744073709551616" "cd_size < 18446744073709551616"
      "cd_start + cd_size < 18446744073709551616" "count < 18446744073709551616"
    using assms(3,4) by simp_all
  show ?thesis
    unfolding read_end_def Let_def at loc
    using small
    by (simp add: ends_so u16_limit_def e e64_def end64_bytes_def
        sig_locator64_def sig_end64_def)
qed

text \<open>What the reader finds in a whole layout.\<close>

definition directory_bytes :: "(central \<times> bytes) list \<Rightarrow> bytes" where
  "directory_bytes ms = concat (map (\<lambda>(e, d). central_bytes e) ms)"

definition archive_bytes :: "(central \<times> bytes) list \<Rightarrow> bytes" where
  "archive_bytes ms = members_bytes ms @ directory_bytes ms
     @ ending_bytes (length ms) (length (directory_bytes ms)) (length (members_bytes ms))"

lemma placed_sound: "placed at ms \<Longrightarrow> (e, d) \<in> set ms \<Longrightarrow> sound_entry e d"
  by (induction at ms rule: placed.induct) auto

lemma placed_within:
  "placed at ms \<Longrightarrow> (e, d) \<in> set ms \<Longrightarrow>
    at \<le> ce_offset e \<and> ce_offset e + length (member_bytes e d) \<le> at + length (members_bytes ms)"
proof (induction at ms rule: placed.induct)
  case (2 at e' d' ms)
  then show ?case by (fastforce simp: members_bytes_def)
qed simp

lemma placed_append:
  "placed at (ms @ [(e, d)]) \<longleftrightarrow>
    placed at ms \<and> ce_offset e = at + length (members_bytes ms) \<and> sound_entry e d"
  by (induction at ms rule: placed.induct) (auto simp: members_bytes_def)

lemma length_member_bytes: "length d \<le> length (member_bytes e d)"
  by (simp add: member_bytes_def)

lemma unzip_archive:
  assumes "placed 0 ms" "\<forall>(e, d) \<in> set ms. length (ce_name e) < 2 ^ 16 \<and> ce_uncompressed e < 2 ^ 64"
    and "length (archive_bytes ms) < 2 ^ 64"
  shows "unzip (archive_bytes ms)
    = (if \<exists>e \<in> set (map fst ms). outgrown e then None else Some (map (\<lambda>(e, d). member_of e d) ms))"
proof -
  have total: "length (members_bytes ms) + length (directory_bytes ms) < 2 ^ 64"
    using assms(3) by (simp add: archive_bytes_def)
  have fits: "\<forall>(e, d) \<in> set ms. fits_fields e \<and> sound_entry e d"
  proof clarify
    fix e d assume m: "(e, d) \<in> set ms"
    have s: "sound_entry e d" by (rule placed_sound [OF assms(1) m])
    have "ce_offset e + length (member_bytes e d) < 2 ^ 64"
      using placed_within [OF assms(1) m] total by simp
    moreover have "ce_compressed e \<le> length (member_bytes e d)"
      using s length_member_bytes [of d e] by (simp add: sound_entry_def)
    ultimately have "ce_offset e < 2 ^ 64" "ce_compressed e < 2 ^ 64" by linarith+
    then show "fits_fields e \<and> sound_entry e d" using s assms(2) m by (auto simp: fits_fields_def)
  qed
  have "46 * length ms \<le> length (directory_bytes ms)"
    unfolding directory_bytes_def by (induction ms) (auto simp: central_bytes_def Let_def)
  then have count: "length ms < 2 ^ 64" using total by linarith
  have "read_end (archive_bytes ms)
      = Some (length ms, length (directory_bytes ms), length (members_bytes ms))"
    by (rule read_ending [of _ "members_bytes ms @ directory_bytes ms"])
       (use total count in \<open>simp_all add: archive_bytes_def\<close>)
  moreover have "take (length (directory_bytes ms)) (drop (length (members_bytes ms)) (archive_bytes ms))
      = directory_bytes ms"
    by (simp add: archive_bytes_def)
  moreover have "read_directory (length ms) (directory_bytes ms) = Some (map (\<lambda>(e, d). entry_of e) ms)"
    unfolding directory_bytes_def by (rule read_directory_bytes [OF fits])
  moreover have "read_members (archive_bytes ms) (map (\<lambda>(e, d). entry_of e) ms)
      = (if \<exists>e \<in> set (map fst ms). outgrown e then None else Some (map (\<lambda>(e, d). member_of e d) ms))"
    by (rule read_members_placed [of _ "[]"]) (use assms(1) fits in \<open>auto simp: archive_bytes_def\<close>)
  ultimately show ?thesis by (simp add: unzip_def)
qed

end
