(* ===== verification/Zip_Round_Trip.thy ===== *)
theory Zip_Round_Trip
  imports Zip_Layout
begin

text \<open>
  The operations of \<^verbatim>\<open>ZipStreamWriter\<close> keep the layout of \<^verbatim>\<open>Zip_Layout\<close>, over any writer that keeps the
  contract of \<^verbatim>\<open>Write\<close> and any reader that keeps that of \<^verbatim>\<open>Read\<close>; so whatever was written is what a strict
  reader finds.
\<close>

section \<open>Writes that are never interrupted\<close>

text \<open>\<^verbatim>\<open>write_all\<close> answers interruptions itself, so nothing built on it reports one.\<close>

lemma write_all_stops: "write_all wr w d = Some y \<Longrightarrow> fst y \<noteq> Inl Interrupted"
proof (rule write_all.raw_induct [where P = "\<lambda>wr w d y. fst y \<noteq> Inl Interrupted"], goal_cases)
  case (1 call wr w d y)
  from 1(3) show ?case by (auto simp: write_zero_def dest: 1(2) split: if_splits option.splits sum.splits)
qed

lemma write_all_not_interrupted [simp]: "write_all wr w d \<noteq> Some (Inl Interrupted, w')"
  using write_all_stops by fastforce

lemma pump_stops: "pump lib wr dst c inp fl = Some y \<Longrightarrow> fst y \<noteq> Inl Interrupted"
proof (rule pump.raw_induct [where P = "\<lambda>lib wr dst c inp fl y. fst y \<noteq> Inl Interrupted"], goal_cases)
  case (1 call lib wr dst cmp inp fl y)
  then show ?case
    by (auto simp: no_progress_def split: if_splits option.splits sum.splits prod.splits deflate_status.splits)
qed

lemma pump_not_interrupted [simp]: "pump lib wr dst c inp fl \<noteq> Some (Inl Interrupted, dst', c')"
  using pump_stops by fastforce

lemma store_blocks_not_interrupted: "store_blocks wr dst data \<noteq> Some (Inl Interrupted, dst')"
proof (induction wr dst data rule: store_blocks.induct)
  case (1 wr dst data)
  then show ?case
    by (subst store_blocks.simps)
       (auto simp: write_all_not_interrupted Let_def split: option.splits sum.splits prod.splits)
qed

lemma release_not_interrupted: "release lib dense wr w held \<noteq> Some (Inl Interrupted, w', held')"
  by (auto simp: release_def Let_def pump_not_interrupted store_blocks_not_interrupted
      split: option.splits sum.splits prod.splits if_splits)

lemma gather_stops: "gather lib dense wr w held d = Some y \<Longrightarrow> fst y \<noteq> Inl Interrupted"
proof (rule gather.raw_induct [where P = "\<lambda>lib dense wr w held d y. fst y \<noteq> Inl Interrupted"], goal_cases)
  case (1 call lib dense wr w held d y)
  from 1(3) show ?case
    by (auto simp: Let_def release_not_interrupted dest: 1(2) split: if_splits option.splits sum.splits)
qed

lemma deflate_write_not_interrupted: "deflate_write lib dense wr w d \<noteq> Some (Inl Interrupted, w')"
  by (auto simp: deflate_write_def Let_def map_sum_def dest!: gather_stops
      split: option.splits sum.splits prod.splits)

text \<open>A header without Zip64 sizes promises that the input, and the bound computed for it, stay below 4 GiB.\<close>

lemma deflate_bound_mono: "m \<le> n \<Longrightarrow> deflate_bound m \<le> deflate_bound n"
proof -
  assume "m \<le> n"
  moreover from this have "m div 65535 \<le> n div 65535" by (rule div_le_mono)
  ultimately show ?thesis by (simp add: deflate_bound_def saturating_add64_def min_def u64_max_def)
qed

lemma small_without_zip64:
  assumes "\<not> zip64_hint hint" "u \<le> hint"
  shows "u < u32_limit \<and> deflate_bound u < u32_limit"
  using assms deflate_bound_mono [OF assms(2)] by (auto simp: zip64_hint_def)

text \<open>Counting does not show in what a write does.\<close>

lemma counting_write_at:
  "counting_write wr (w, n) d = (case wr w d of
      None \<Rightarrow> None
    | Some (Inr k, w') \<Rightarrow> Some (Inr k, (w', n + k))
    | Some (Inl e, w') \<Rightarrow> Some (Inl e, (w', n)))"
  by (simp add: counting_write_def)

lemma write_all_counting:
  "write_all wr w d = Some y \<Longrightarrow> \<exists>n'. write_all (counting_write wr) (w, n) d = Some (fst y, (snd y, n'))"
proof -
  assume call: "write_all wr w d = Some y"
  have "\<forall>n. \<exists>n'. write_all (counting_write wr) (w, n) d = Some (fst y, (snd y, n'))"
  proof (rule write_all.raw_induct [where P =
      "\<lambda>wr w d y. \<forall>n. \<exists>n'. write_all (counting_write wr) (w, n) d = Some (fst y, (snd y, n'))", OF _ call], goal_cases)
    case (1 call wr w d y)
    show ?case
    proof
      fix n
      show "\<exists>n'. write_all (counting_write wr) (w, n) d = Some (fst y, (snd y, n'))"
        using 1(2)
        by (subst write_all.simps)
           (auto simp: counting_write_at 1(1) [rule_format] split: if_splits option.splits sum.splits)
    qed
  qed
  then show ?thesis by blast
qed

section \<open>The operations keep the layout\<close>

definition stored_entry :: "bytes \<Rightarrow> u32 \<Rightarrow> bytes \<Rightarrow> nat \<Rightarrow> central" where
  "stored_entry name crc d offset = \<lparr>ce_name = name, ce_method = m_stored, ce_flags = name_flags name, ce_crc = crc,
     ce_compressed = length d, ce_uncompressed = length d, ce_offset = offset,
     ce_zip64_local = (length d \<ge> u32_limit)\<rparr>"

definition deflated_entry :: "bytes \<Rightarrow> u32 \<Rightarrow> nat \<Rightarrow> bytes \<Rightarrow> nat \<Rightarrow> bool \<Rightarrow> central" where
  "deflated_entry name crc u raw offset zip64 = \<lparr>ce_name = name, ce_method = m_deflated,
     ce_flags = name_flags name OR flag_descriptor, ce_crc = crc, ce_compressed = length raw, ce_uncompressed = u,
     ce_offset = offset, ce_zip64_local = zip64\<rparr>"

context sink begin

lemma put_cases:
  assumes "wgood (zw_out z)"
  obtains (ok) z' where "put wr z d = Some (Inr (), z')" "wgood (zw_out z')"
      "written (zw_out z') = written (zw_out z) @ d" "zw_pos z' = zw_pos z + length d"
      "zw_entries z' = zw_entries z"
  | (stop) e z' where "put wr z d = Some (Inl (ZipWrite e), z')" "\<not> takes_all"
proof (cases rule: write_all_cases [OF assms, of d, case_names ok stop])
  case (ok w')
  then show thesis using that(1) [of "z\<lparr>zw_out := w', zw_pos := zw_pos z + length d\<rparr>"] by (simp add: put_def)
next
  case (stop e k w')
  then show thesis using that(2) by (simp add: put_def)
qed

text \<open>The writer's invariant: the layout of the members so far, after what the output held before.\<close>

definition zip_holds :: "bytes \<Rightarrow> 'w zip_writer \<Rightarrow> (central \<times> bytes) list \<Rightarrow> bool" where
  "zip_holds base z ms \<longleftrightarrow> wgood (zw_out z) \<and> written (zw_out z) = base @ members_bytes ms
     \<and> zw_pos z = length (members_bytes ms) \<and> zw_entries z = map fst ms \<and> placed 0 ms"

lemma zip_new_holds: "wgood w \<Longrightarrow> zip_holds (written w) (zip_new w) []"
  by (simp add: zip_holds_def zip_new_def members_bytes_def)

lemma holds_more:
  assumes "zip_holds base z ms" "sound_entry e d" "ce_offset e = zw_pos z"
    and "wgood (zw_out z')" "written (zw_out z') = written (zw_out z) @ member_bytes e d"
    and "zw_pos z' = zw_pos z + length (member_bytes e d)" "zw_entries z' = zw_entries z @ [e]"
  shows "zip_holds base z' (ms @ [(e, d)])"
  using assms by (simp add: zip_holds_def placed_append members_bytes_def)

lemma put_all_result:
  assumes "wgood (zw_out z)"
  shows "\<exists>q z'. put_all wr z ds = Some (q, z') \<and> (takes_all \<longrightarrow> q = Inr ())
    \<and> (q = Inr () \<longrightarrow> wgood (zw_out z') \<and> written (zw_out z') = written (zw_out z) @ concat ds
        \<and> zw_pos z' = zw_pos z + length (concat ds))"
  using assms
proof (induction ds arbitrary: z)
  case (Cons d ds)
  show ?case
  proof (cases rule: put_cases [OF Cons.prems, of d, case_names ok stop])
    case (ok z')
    then show ?thesis using Cons.IH [OF ok(2)] by auto
  next
    case (stop e z')
    then show ?thesis by simp
  qed
qed simp

lemma zip_finish_result:
  assumes "zip_holds base z ms"
  shows "\<exists>q w'. zip_finish wr flush z = Some (q, w')
    \<and> (takes_all \<and> (\<forall>w. flush w = None) \<longrightarrow> q = Inr ())
    \<and> (q = Inr () \<longrightarrow> wgood w' \<and> written w' = base @ archive_bytes ms)"
proof -
  define cd where "cd = map (\<lambda>(e, d). central_bytes e) ms"
  have z: "wgood (zw_out z)" "written (zw_out z) = base @ members_bytes ms" "zw_pos z = length (members_bytes ms)"
    "map central_bytes (zw_entries z) = cd" "length (zw_entries z) = length ms"
    using assms by (simp_all add: zip_holds_def cd_def prod.case_eq_if comp_def)
  define z0 where "z0 = z\<lparr>zw_entries := []\<rparr>"
  have "wgood (zw_out z0)" using z(1) by (simp add: z0_def)
  then obtain q z1 where one: "put_all wr z0 cd = Some (q, z1)" "takes_all \<longrightarrow> q = Inr ()"
    "q = Inr () \<longrightarrow> wgood (zw_out z1) \<and> written (zw_out z1) = written (zw_out z0) @ concat cd
       \<and> zw_pos z1 = zw_pos z0 + length (concat cd)"
    using put_all_result by blast
  note unfold = zip_finish_def [of wr flush z, unfolded Let_def z(4), folded z0_def]
  show ?thesis
  proof (cases q)
    case (Inl e)
    then show ?thesis using one by (simp add: unfold)
  next
    case (Inr u)
    then have z1: "wgood (zw_out z1)" "written (zw_out z1) = base @ members_bytes ms @ directory_bytes ms"
      "zw_pos z1 - length (members_bytes ms) = length (directory_bytes ms)"
      "zw_pos z1 = length (members_bytes ms) + length (directory_bytes ms)"
      using one(3) z by (simp_all add: z0_def directory_bytes_def cd_def)
    define zip64 where "zip64 \<longleftrightarrow> length ms \<ge> u16_limit \<or> length (members_bytes ms) \<ge> u32_limit
      \<or> length (directory_bytes ms) \<ge> u32_limit"
    define tail where "tail = (if zip64 then [end64_bytes (length ms) (length (directory_bytes ms))
        (length (members_bytes ms)) (zw_pos z1)] else [])
      @ [end_bytes zip64 (length ms) (length (directory_bytes ms)) (length (members_bytes ms))]"
    obtain q' z2 where two: "put_all wr z1 tail = Some (q', z2)" "takes_all \<longrightarrow> q' = Inr ()"
      "q' = Inr () \<longrightarrow> wgood (zw_out z2) \<and> written (zw_out z2) = written (zw_out z1) @ concat tail"
      using put_all_result [OF z1(1), of tail] by blast
    have run: "zip_finish wr flush z = (case put_all wr z1 tail of
           None \<Rightarrow> None
         | Some (Inl e, z) \<Rightarrow> Some (Inl e, zw_out z)
         | Some (Inr _, z) \<Rightarrow>
             (case flush (zw_out z) of
                Some e \<Rightarrow> Some (Inl (ZipWrite e), zw_out z)
              | None \<Rightarrow> Some (Inr (), zw_out z)))"
      unfolding unfold one(1) Inr option.case prod.case sum.case z(3) z1(3) z(5) tail_def zip64_def ..
    have tail: "concat tail = ending_bytes (length ms) (length (directory_bytes ms)) (length (members_bytes ms))"
      by (simp add: tail_def zip64_def ending_bytes_def Let_def z1(4))
    show ?thesis
      using two z1(2) by (cases q') (auto simp: run tail archive_bytes_def split: option.split)
  qed
qed

end

text \<open>A reader beside the writer; the counted writer is a writer as well.\<close>

locale zipping = source rd good content fate patience + dst: sink wr wgood written wpatience
  for rd :: "'s reader" and good content fate patience and wr :: "'w writer" and wgood written wpatience
begin

sublocale counted: sink "counting_write wr" "\<lambda>c. wgood (fst c) \<and> length (written (fst c)) = base + snd c"
    "\<lambda>c. written (fst c)" "\<lambda>c. wpatience (fst c)" for base :: nat
proof unfold_locales
  fix c :: "'w \<times> nat" and d :: bytes
  assume "wgood (fst c) \<and> length (written (fst c)) = base + snd c" "d \<noteq> []"
  then obtain q w' where "wr (fst c) d = Some (q, w')" using dst.wreturns by blast
  then show "\<exists>q c'. counting_write wr c d = Some (q, c')"
    by (cases c; cases q) (auto simp: counting_write_def)
next
  fix c c' :: "'w \<times> nat" and d :: bytes and k
  assume *: "wgood (fst c) \<and> length (written (fst c)) = base + snd c" "d \<noteq> []"
    "counting_write wr c d = Some (Inr k, c')"
  then have "wr (fst c) d = Some (Inr k, fst c')" "snd c' = snd c + k"
    by (auto simp: counting_write_def split: prod.splits option.splits sum.splits)
  then show "(wgood (fst c') \<and> length (written (fst c')) = base + snd c') \<and> k \<le> length d
      \<and> written (fst c') = written (fst c) @ take k d \<and> wpatience (fst c') \<le> wpatience (fst c)"
    using dst.took [of "fst c" d k "fst c'"] * by auto
next
  fix c c' :: "'w \<times> nat" and d :: bytes
  assume *: "wgood (fst c) \<and> length (written (fst c)) = base + snd c" "d \<noteq> []"
    "counting_write wr c d = Some (Inl Interrupted, c')"
  then have "wr (fst c) d = Some (Inl Interrupted, fst c')" "snd c' = snd c"
    by (auto simp: counting_write_def split: prod.splits option.splits sum.splits)
  then show "(wgood (fst c') \<and> length (written (fst c')) = base + snd c')
      \<and> written (fst c') = written (fst c) \<and> wpatience (fst c') < wpatience (fst c)"
    using dst.winterrupted [of "fst c" d "fst c'"] * by auto
next
  fix c c' :: "'w \<times> nat" and d :: bytes and e
  assume *: "wgood (fst c) \<and> length (written (fst c)) = base + snd c" "d \<noteq> []"
    "counting_write wr c d = Some (Inl e, c')"
  then have "wr (fst c) d = Some (Inl e, fst c')"
    by (auto simp: counting_write_def split: prod.splits option.splits sum.splits)
  then show "\<exists>k \<le> length d. written (fst c') = written (fst c) @ take k d"
    using dst.wfails [of "fst c" d e "fst c'"] * by auto
qed

lemma stored_copy_result:
  assumes "good s" "wgood (zw_out z)" "0 < cap"
  shows "\<exists>q z' s'. stored_copy wr rd cap z s left hashed = Some (q, z', s')
    \<and> (dst.takes_all \<and> patience s = 0 \<and> left \<le> length (content s) \<longrightarrow> (\<exists>d. q = Inr d))
    \<and> (\<forall>out. q = Inr out \<longrightarrow> (\<exists>d. out = hashed @ d \<and> length d = left \<and> content s = d @ content s'
         \<and> good s' \<and> fate s' = fate s \<and> patience s' \<le> patience s \<and> wgood (zw_out z')
         \<and> written (zw_out z') = written (zw_out z) @ d \<and> zw_pos z' = zw_pos z + left
         \<and> zw_entries z' = zw_entries z))"
  using assms(1,2)
proof (induction left arbitrary: z s hashed rule: less_induct)
  case (less left)
  note unfold = stored_copy.simps [of wr rd cap z s left hashed]
  show ?case
  proof (cases "left = 0")
    case True
    have "stored_copy wr rd cap z s left hashed = Some (Inr hashed, z, s)" unfolding unfold using True by simp
    then show ?thesis using less(2,3) True by simp
  next
    case left: False
    then have n: "0 < min left cap" using assms(3) by simp
    obtain q s1 where step: "rd s (min left cap) = Some (q, s1)" using returns [OF less(2) n] by blast
    show ?thesis
    proof (cases q)
      case (Inl e)
      have "\<not> (patience s = 0 \<and> left \<le> length (content s))"
        using interrupted [OF less(2) n] fails [OF less(2) n step [unfolded Inl]] step left unfolding Inl by force
      then show ?thesis using left by (auto simp: unfold step Inl)
    next
      case (Inr d)
      note law = data [OF less(2) n step [unfolded Inr]]
      show ?thesis
      proof (cases "d = []")
        case True
        then show ?thesis using law left by (auto simp: unfold step Inr)
      next
        case False
        show ?thesis
        proof (cases rule: dst.put_cases [OF less(3), of d, case_names ok stop])
          case (stop e z')
          then show ?thesis using left False by (auto simp: unfold step Inr)
        next
          case (ok z1)
          have shorter: "left - length d < left" and within: "length d \<le> left" using False law left by auto
          obtain q' z' s' where rest: "stored_copy wr rd cap z1 s1 (left - length d) (hashed @ d) = Some (q', z', s')"
            "dst.takes_all \<and> patience s1 = 0 \<and> left - length d \<le> length (content s1) \<longrightarrow> (\<exists>d. q' = Inr d)"
            "\<forall>out. q' = Inr out \<longrightarrow> (\<exists>d'. out = (hashed @ d) @ d' \<and> length d' = left - length d
               \<and> content s1 = d' @ content s' \<and> good s' \<and> fate s' = fate s1 \<and> patience s' \<le> patience s1
               \<and> wgood (zw_out z') \<and> written (zw_out z') = written (zw_out z1) @ d'
               \<and> zw_pos z' = zw_pos z1 + (left - length d) \<and> zw_entries z' = zw_entries z1)"
            using less(1) [OF shorter law [THEN conjunct1] ok(2), of "hashed @ d"] by (elim exE conjE) (rule that)
          have now: "stored_copy wr rd cap z s left hashed = Some (q', z', s')"
            using left False rest(1) by (simp add: unfold step Inr ok(1))
          have "\<exists>d. out = hashed @ d \<and> length d = left \<and> content s = d @ content s'
               \<and> good s' \<and> fate s' = fate s \<and> patience s' \<le> patience s \<and> wgood (zw_out z')
               \<and> written (zw_out z') = written (zw_out z) @ d \<and> zw_pos z' = zw_pos z + left
               \<and> zw_entries z' = zw_entries z" if q': "q' = Inr out" for out
          proof -
            obtain d' where "out = (hashed @ d) @ d'" "length d' = left - length d"
               "content s1 = d' @ content s'" "good s'" "fate s' = fate s1" "patience s' \<le> patience s1"
               "wgood (zw_out z')" "written (zw_out z') = written (zw_out z1) @ d'"
               "zw_pos z' = zw_pos z1 + (left - length d)" "zw_entries z' = zw_entries z1"
              using rest(3) q' by blast
            then show ?thesis using law ok(3-5) within by (intro exI [of _ "d @ d'"]) simp
          qed
          moreover have "(\<exists>d. q' = Inr d)" if "dst.takes_all" "patience s = 0" "left \<le> length (content s)"
          proof (rule rest(2) [THEN mp], intro conjI)
            show "dst.takes_all" by (rule that(1))
            show "patience s1 = 0" using law that(2) by linarith
            have "length (content s) = length d + length (content s1)" using law by (metis length_append)
            then show "left - length d \<le> length (content s1)" using that(3) by linarith
          qed
          ultimately show ?thesis
            by (intro exI [of _ q'] exI [of _ z'] exI [of _ s'] conjI allI) (rule now, blast, blast)
        qed
      qed
    qed
  qed
qed

lemma zip_stored_result:
  assumes "dst.zip_holds base z ms" "good s"
  shows "\<exists>q z'. zip_stored crc_of h wr rd name crc sz s z = Some (q, z')
    \<and> (dst.takes_all \<and> patience s = 0 \<and> host_reserves h chunk \<and> length (content s) = sz \<and> fate s = None
         \<and> crc_of (content s) = crc \<longrightarrow> q = Inr ())
    \<and> (q = Inr () \<longrightarrow> length (content s) = sz \<and> fate s = None \<and> crc_of (content s) = crc
         \<and> dst.zip_holds base z' (ms @ [(stored_entry (as_bytes name) crc (content s) (zw_pos z), content s)]))"
proof -
  define bs where "bs = local_bytes (as_bytes name) m_stored (name_flags (as_bytes name)) crc sz sz (sz \<ge> u32_limit)"
  note unfold = zip_stored_def [of crc_of h wr rd name crc sz s z, unfolded Let_def local_header_def,
      folded bs_def]
  have z: "wgood (zw_out z)" using assms(1) by (simp add: dst.zip_holds_def)
  show ?thesis
  proof (cases rule: dst.put_cases [OF z, of bs, case_names ok stop])
    case (stop e z1)
    then show ?thesis by (simp add: unfold)
  next
    case (ok z1)
    show ?thesis
    proof (cases "host_reserves h chunk")
      case False
      then show ?thesis by (simp add: unfold ok(1) chunk_buffer_def)
    next
      case True
      have cap: "0 < chunk" by (simp add: chunk_def)
      have start: "zip_stored crc_of h wr rd name crc sz s z =
          (case stored_copy wr rd chunk z1 s sz [] of
               None \<Rightarrow> None
             | Some (Inl e, z, s) \<Rightarrow> Some (Inl e, z)
             | Some (Inr hashed, z, s) \<Rightarrow>
                (case rd s 1 of
                   None \<Rightarrow> None
                 | Some (Inl e, s) \<Rightarrow> Some (Inl (ZipRead e), z)
                 | Some (Inr extra, s) \<Rightarrow>
                     if extra \<noteq> [] then Some (Inl (ZipCorrupt ''stored member is long''), z)
                     else if crc_of hashed \<noteq> crc then Some (Inl (ZipCorrupt ''stored member CRC mismatch''), z)
                     else Some (Inr (), z\<lparr>zw_entries := zw_entries z @
                       [\<lparr>ce_name = as_bytes name, ce_method = m_stored, ce_flags = name_flags (as_bytes name),
                         ce_crc = crc, ce_compressed = sz, ce_uncompressed = sz, ce_offset = zw_pos z0,
                         ce_zip64_local = (sz \<ge> u32_limit)\<rparr>]\<rparr>)))" if "z0 = z" for z0
        unfolding unfold ok(1) chunk_buffer_def that using True by simp
      obtain q z2 s2 where copy: "stored_copy wr rd chunk z1 s sz [] = Some (q, z2, s2)"
        "dst.takes_all \<and> patience s = 0 \<and> sz \<le> length (content s) \<longrightarrow> (\<exists>d. q = Inr d)"
        "\<forall>out. q = Inr out \<longrightarrow> (\<exists>d. out = [] @ d \<and> length d = sz \<and> content s = d @ content s2
         \<and> good s2 \<and> fate s2 = fate s \<and> patience s2 \<le> patience s \<and> wgood (zw_out z2)
         \<and> written (zw_out z2) = written (zw_out z1) @ d \<and> zw_pos z2 = zw_pos z1 + sz
         \<and> zw_entries z2 = zw_entries z1)"
        using stored_copy_result [OF assms(2) ok(2) cap, of sz "[]"] by (elim exE conjE) (rule that)
      show ?thesis
      proof (cases q)
        case (Inl e)
        then show ?thesis using copy(2) by (auto simp: start [OF refl] copy(1))
      next
        case (Inr out)
        then have d: "length out = sz" "content s = out @ content s2" "good s2" "fate s2 = fate s"
          "patience s2 \<le> patience s" "wgood (zw_out z2)" "written (zw_out z2) = written (zw_out z) @ bs @ out"
          "zw_pos z2 = zw_pos z + length bs + sz" "zw_entries z2 = zw_entries z"
          using copy(3) ok(3-5) by auto
        obtain r s3 where step: "rd s2 1 = Some (r, s3)" using returns [OF d(3), of 1] by auto
        have pos: "0 < (1 :: nat)" by simp
        show ?thesis
        proof (cases r)
          case e: (Inl e)
          have "\<not> (patience s = 0 \<and> fate s = None)"
            using interrupted [OF d(3) pos] fails [OF d(3) pos step [unfolded e]] step d(4,5) unfolding e by force
          then show ?thesis using step by (auto simp: start [OF refl] copy(1) Inr e)
        next
          case more: (Inr extra)
          note law = data [OF d(3) pos step [unfolded more]]
          show ?thesis
          proof (cases "extra = [] \<and> crc_of out = crc")
            case False
            have "\<not> (length (content s) = sz \<and> crc_of (content s) = crc)"
            proof
              assume both: "length (content s) = sz \<and> crc_of (content s) = crc"
              then have "content s2 = []" using d(1,2) by (metis append_eq_conv_conj append_self_conv length_append add_diff_cancel_left' diff_self_eq_0 length_0_conv)
              moreover from this have "content s = out" using d(2) by simp
              ultimately show False using False law both by auto
            qed
            then show ?thesis using False step by (auto simp: start [OF refl] copy(1) Inr more)
          next
            case True
            define e where "e = stored_entry (as_bytes name) crc out (zw_pos z)"
            have c: "content s = out" "fate s = None" using True law d by auto
            have mem: "member_bytes e out = bs @ out"
              by (simp add: e_def stored_entry_def member_bytes_def bs_def d(1) m_stored_def m_deflated_def)
            have run: "zip_stored crc_of h wr rd name crc sz s z = Some (Inr (), z2\<lparr>zw_entries := zw_entries z2 @ [e]\<rparr>)"
              using True step by (simp add: start [OF refl] copy(1) Inr more e_def stored_entry_def d(1))
            have "dst.zip_holds base (z2\<lparr>zw_entries := zw_entries z2 @ [e]\<rparr>) (ms @ [(e, out)])"
              by (rule dst.holds_more [OF assms(1)])
                 (use d mem in \<open>simp_all add: e_def stored_entry_def sound_entry_def\<close>)
            then show ?thesis using run c d(1) True by (simp add: e_def)
          qed
        qed
      qed
    qed
  qed
qed

lemma counted_takes_all:
  assumes "dst.takes_all"
  shows "counted.takes_all base"
  unfolding counted.takes_all_def
proof (intro allI impI)
  fix c :: "'w \<times> nat" and d
  assume "wgood (fst c) \<and> length (written (fst c)) = base + snd c"
  then obtain w' where "write_all wr (fst c) d = Some (Inr (), w')" using assms unfolding dst.takes_all_def by blast
  then show "\<exists>c'. write_all (counting_write wr) c d = Some (Inr (), c')"
    using write_all_counting [of wr "fst c" d _ "snd c"] by fastforce
qed

sublocale cdef: deflate_over "counting_write wr" "\<lambda>c. wgood (fst c) \<and> length (written (fst c)) = base + snd c"
    "\<lambda>c. written (fst c)" "\<lambda>c. wpatience (fst c)" lib dec opened pending
  for base :: nat and lib :: "'c deflate_lib" and dec opened pending
  by (rule deflate_over.intro) (rule counted.sink_axioms)

lemma deflated_copy_result:
  assumes "codec_documented lib dec opened pending" "0 < cap" "good s"
    and "cdef.writer_at base dec opened pre w taken"
  shows "\<exists>q w' s'. deflated_copy lib dense (counting_write wr) rd cap hint w s taken = Some (q, w', s')
    \<and> (dst.takes_all \<and> patience s = 0 \<and> fate s = None \<and> length (taken @ content s) \<le> hint \<longrightarrow> (\<exists>out. q = Inr out))
    \<and> (\<forall>out. q = Inr out \<longrightarrow> out = taken @ content s \<and> fate s = None \<and> (taken \<noteq> out \<longrightarrow> length out \<le> hint)
         \<and> cdef.writer_at base dec opened pre w' out)"
  using assms(3,4)
proof (induction "length (content s)" arbitrary: s w taken rule: less_induct)
  case less
  note unfold = deflated_copy.simps [of lib dense "counting_write wr" rd cap hint w s taken]
  obtain q s1 where step: "rd s cap = Some (q, s1)" using returns [OF less(2) assms(2)] by blast
  show ?case
  proof (cases q)
    case (Inl e)
    have "\<not> (patience s = 0 \<and> fate s = None)"
      using interrupted [OF less(2) assms(2)] fails [OF less(2) assms(2) step [unfolded Inl]] step unfolding Inl by force
    then show ?thesis by (auto simp: unfold step Inl)
  next
    case (Inr d)
    note law = data [OF less(2) assms(2) step [unfolded Inr]]
    show ?thesis
    proof (cases "d = []")
      case True
      then show ?thesis using law less(3) by (auto simp: unfold step Inr)
    next
      case False
      show ?thesis
      proof (cases "length (taken @ d) \<le> hint")
        case over: False
        have "length (taken @ d) \<le> length (taken @ content s)" using law by simp
        then have "\<not> length (taken @ content s) \<le> hint" using over by linarith
        then show ?thesis using over False by (auto simp: unfold step Inr)
      next
        case within: True
        obtain p w1 where wrote: "deflate_write lib dense (counting_write wr) w d = Some (p, w1)"
          "counted.takes_all base \<longrightarrow> p = Inr (length d)"
          "\<forall>k. p = Inr k \<longrightarrow> k = length d \<and> cdef.writer_at base dec opened pre w1 (taken @ d)"
          using cdef.deflate_write_result [OF assms(1) less(3), where dense = dense and d = d]
          by (elim exE conjE) (rule that)
        show ?thesis
        proof (cases p)
          case e: (Inl e)
          then have "e \<noteq> Interrupted" using wrote(1) deflate_write_not_interrupted by blast
          then have "write_all (deflate_write lib dense (counting_write wr)) w d = Some (Inl e, w1)"
            using False wrote(1) e by (simp add: write_all.simps [of _ w])
          moreover have "\<not> dst.takes_all" using wrote(2) e counted_takes_all by auto
          ultimately show ?thesis using False within by (auto simp: unfold step Inr)
        next
          case k: (Inr k)
          then have w1: "k = length d" "cdef.writer_at base dec opened pre w1 (taken @ d)" using wrote(3) by auto
          have all: "write_all (deflate_write lib dense (counting_write wr)) w d = Some (Inr (), w1)"
            using False wrote(1) k w1(1) by (simp add: write_all.simps [of _ w])
          have shorter: "length (content s1) < length (content s)" using law False by (cases d) auto
          obtain q' w' s' where rest: "deflated_copy lib dense (counting_write wr) rd cap hint w1 s1 (taken @ d)
              = Some (q', w', s')"
            "dst.takes_all \<and> patience s1 = 0 \<and> fate s1 = None \<and> length ((taken @ d) @ content s1) \<le> hint
               \<longrightarrow> (\<exists>out. q' = Inr out)"
            "\<forall>out. q' = Inr out \<longrightarrow> out = (taken @ d) @ content s1 \<and> fate s1 = None
               \<and> (taken @ d \<noteq> out \<longrightarrow> length out \<le> hint) \<and> cdef.writer_at base dec opened pre w' out"
            using less(1) [OF shorter law [THEN conjunct1] w1(2)] by (elim exE conjE) (rule that)
          have now: "deflated_copy lib dense (counting_write wr) rd cap hint w s taken = Some (q', w', s')"
            using False within rest(1) by (simp add: unfold step Inr all)
          have same: "content s = d @ content s1" "fate s1 = fate s" "patience s1 \<le> patience s" using law by auto
          have "\<exists>out. q' = Inr out"
            if "dst.takes_all" "patience s = 0" "fate s = None" "length (taken @ content s) \<le> hint"
            by (rule rest(2) [THEN mp]) (use that same in simp)
          moreover have "out = taken @ content s \<and> fate s = None \<and> (taken \<noteq> out \<longrightarrow> length out \<le> hint)
               \<and> cdef.writer_at base dec opened pre w' out" if q': "q' = Inr out" for out
          proof -
            have "out = (taken @ d) @ content s1" "fate s1 = None" "taken @ d \<noteq> out \<longrightarrow> length out \<le> hint"
              "cdef.writer_at base dec opened pre w' out" using rest(3) q' by blast+
            then show ?thesis using same within by (cases "taken @ d = out") auto
          qed
          ultimately show ?thesis
            by (intro exI [of _ q'] exI [of _ w'] exI [of _ s'] conjI allI) (rule now, blast, blast)
        qed
      qed
    qed
  qed
qed

lemma end_deflated_result:
  assumes "dst.zip_holds base z ms" "wgood (zw_out z2)"
    and "written (zw_out z2) = written (zw_out z) @ local_bytes name m_deflated (name_flags name OR flag_descriptor)
           0 0 0 zip64 @ raw"
    and "zw_pos z2 = zw_pos z + length (local_bytes name m_deflated (name_flags name OR flag_descriptor) 0 0 0 zip64)
           + length raw"
    and "zw_entries z2 = zw_entries z" "\<not> zip64 \<longrightarrow> u < u32_limit"
  shows "\<exists>q z'. end_deflated wr z2 name (name_flags name OR flag_descriptor) (zw_pos z) crc (length raw) u zip64
      = Some (q, z')
    \<and> (dst.takes_all \<longrightarrow> q = Inr ())
    \<and> (q = Inr () \<longrightarrow> dst.zip_holds base z' (ms @ [(deflated_entry name crc u raw (zw_pos z) zip64, raw)]))"
proof -
  define e where "e = deflated_entry name crc u raw (zw_pos z) zip64"
  note unfold = end_deflated_def [of wr z2 name "name_flags name OR flag_descriptor" "zw_pos z" crc "length raw" u zip64]
  show ?thesis
  proof (cases rule: dst.put_cases [OF assms(2), of "descriptor_bytes crc (length raw) u zip64", case_names ok stop])
    case (stop e' z')
    then show ?thesis by (simp add: unfold)
  next
    case (ok z3)
    have run: "end_deflated wr z2 name (name_flags name OR flag_descriptor) (zw_pos z) crc (length raw) u zip64
        = Some (Inr (), z3\<lparr>zw_entries := zw_entries z3 @ [e]\<rparr>)"
      by (simp add: unfold ok(1) e_def deflated_entry_def)
    have "dst.zip_holds base (z3\<lparr>zw_entries := zw_entries z3 @ [e]\<rparr>) (ms @ [(e, raw)])"
      by (rule dst.holds_more [OF assms(1)])
         (use ok assms(3-6) in \<open>simp_all add: e_def deflated_entry_def sound_entry_def member_bytes_def\<close>)
    then show ?thesis using run by (simp flip: e_def)
  qed
qed

lemma deflate_new_at:
  assumes "codec_documented lib dec opened pending" "deflate_new lib h (w, 0) = Inr w0" "wgood w"
  shows "cdef.writer_at (length (written w)) dec opened (written w) w0 []"
proof -
  have start: "opened (def_init lib) [] []" using assms(1) by (simp add: codec_documented_def deflate_documented_def)
  have w0: "w0 = \<lparr>df_dst = (w, 0), df_comp = def_init lib, df_consumed = 0, df_held = None\<rparr>"
    using assms(2) by (auto simp: deflate_new_def chunk_buffer_def split: if_splits)
  have "cdef.encodes (length (written w)) dec opened (written w) w0 True []"
    unfolding cdef.encodes_def
    by (rule exI [of _ "[]"], rule exI [of _ "[]"], rule exI [of _ "[]"], rule exI [of _ "[]"])
       (simp add: start w0 assms(3))
  then show ?thesis by (simp add: cdef.writer_at_def w0)
qed

lemma zip_deflated_result:
  assumes "codec_documented lib dec opened pending" "dst.zip_holds base z ms" "good s"
  shows "\<exists>q z' s'. zip_deflated crc_of h lib dense wr rd name hint s z = Some (q, z', s')
    \<and> (dst.takes_all \<and> patience s = 0 \<and> host_reserves h chunk \<and> length (content s) \<le> hint \<and> fate s = None
         \<longrightarrow> (\<exists>n. q = Inr n))
    \<and> (\<forall>n. q = Inr n \<longrightarrow> n = length (content s) \<and> n \<le> hint \<and> fate s = None
         \<and> (\<exists>raw. dec [] raw = Some (content s, length raw) \<and> dst.zip_holds base z' (ms @
                 [(deflated_entry (as_bytes name) (crc_of (content s)) n raw (zw_pos z) (zip64_hint hint), raw)])))"
proof -
  define nm where "nm = as_bytes name"
  define bs where "bs = local_bytes nm m_deflated (name_flags nm OR flag_descriptor) 0 0 0 (zip64_hint hint)"
  note unfold = zip_deflated_def [of crc_of h lib dense wr rd name hint s z, unfolded Let_def local_header_def,
      folded nm_def, folded bs_def]
  have z: "wgood (zw_out z)" using assms(2) by (simp add: dst.zip_holds_def)
  show ?thesis
  proof (cases rule: dst.put_cases [OF z, of bs, case_names ok stop])
    case (stop e z1)
    then show ?thesis by (simp add: unfold)
  next
    case (ok z1)
    show ?thesis
    proof (cases "host_reserves h chunk")
      case False
      then show ?thesis by (simp add: unfold ok(1) chunk_buffer_def)
    next
      case True
      then obtain w0 where w0: "deflate_new lib h (zw_out z1, 0 :: nat) = Inr w0"
        by (simp add: deflate_new_def chunk_buffer_def)
      define pre where "pre = written (zw_out z1)"
      have at: "cdef.writer_at (length pre) dec opened pre w0 []"
        unfolding pre_def by (rule deflate_new_at [OF assms(1) w0 ok(2)])
      have cap: "0 < chunk" by (simp add: chunk_def)
      obtain q w s2 where copy: "deflated_copy lib dense (counting_write wr) rd chunk hint w0 s [] = Some (q, w, s2)"
        "dst.takes_all \<and> patience s = 0 \<and> fate s = None \<and> length ([] @ content s) \<le> hint \<longrightarrow> (\<exists>out. q = Inr out)"
        "\<forall>out. q = Inr out \<longrightarrow> out = [] @ content s \<and> fate s = None \<and> ([] \<noteq> out \<longrightarrow> length out \<le> hint)
           \<and> cdef.writer_at (length pre) dec opened pre w out"
        using deflated_copy_result [OF assms(1) cap assms(3) at, where dense = dense and hint = hint]
        by (elim exE conjE) (rule that)
      have begun: "zip_deflated crc_of h lib dense wr rd name hint s z = (case q of
          Inl e \<Rightarrow> Some (Inl e, z1\<lparr>zw_out := fst (df_dst w)\<rparr>, s2)
        | Inr hashed \<Rightarrow> (case deflate_finish lib dense (counting_write wr) w of
            None \<Rightarrow> None
          | Some (Inl e, (out, n)) \<Rightarrow> Some (Inl (ZipWrite e), z1\<lparr>zw_out := out\<rparr>, s2)
          | Some (Inr _, (out, compressed)) \<Rightarrow>
             (case end_deflated wr (z1\<lparr>zw_out := out, zw_pos := zw_pos z1 + compressed\<rparr>) nm
                 (name_flags nm OR flag_descriptor) (zw_pos z) (crc_of hashed) compressed (length hashed)
                 (zip64_hint hint) of
                None \<Rightarrow> None
              | Some (Inl e, z) \<Rightarrow> Some (Inl e, z, s2)
              | Some (Inr _, z) \<Rightarrow> Some (Inr (length hashed), z, s2))))"
        unfolding unfold using True by (simp add: ok(1) chunk_buffer_def w0 copy(1) split: sum.split)
      show ?thesis
      proof (cases q)
        case (Inl e)
        then show ?thesis using copy(2) by (auto simp: begun)
      next
        case (Inr out)
        have c: "out = content s" "fate s = None" "length (content s) \<le> hint"
          "cdef.writer_at (length pre) dec opened pre w (content s)"
          using copy(3) Inr by (cases "out = []"; auto)+
        obtain p d' where fin: "deflate_finish lib dense (counting_write wr) w = Some (p, d')"
          "counted.takes_all (length pre) \<longrightarrow> p = Inr ()"
          "\<forall>u. p = Inr u \<longrightarrow> (\<exists>raw. (wgood (fst d') \<and> length (written (fst d')) = length pre + snd d')
             \<and> written (fst d') = pre @ raw \<and> dec [] raw = Some (content s, length raw))"
          using cdef.deflate_finish_result [OF assms(1) c(4), where dense = dense] by (elim exE conjE) (rule that)
        obtain out' n where d': "d' = (out', n)" by (cases d')
        show ?thesis
        proof (cases p)
          case e: (Inl e)
          then have "\<not> dst.takes_all" using fin(2) counted_takes_all by auto
          then show ?thesis using e by (auto simp: begun Inr fin(1) d')
        next
          case u: (Inr u)
          then obtain raw where raw: "wgood out'" "written out' = pre @ raw" "n = length raw"
            "dec [] raw = Some (content s, length raw)" using fin(3) d' by auto
          define z2 where "z2 = z1\<lparr>zw_out := out', zw_pos := zw_pos z1 + length raw\<rparr>"
          have run: "zip_deflated crc_of h lib dense wr rd name hint s z =
              (case end_deflated wr z2 nm (name_flags nm OR flag_descriptor) (zw_pos z) (crc_of (content s))
                  (length raw) (length (content s)) (zip64_hint hint) of
                 None \<Rightarrow> None
               | Some (Inl e, z) \<Rightarrow> Some (Inl e, z, s2)
               | Some (Inr _, z) \<Rightarrow> Some (Inr (length (content s)), z, s2))"
            by (simp add: begun Inr fin(1) d' u raw(3) c(1) z2_def)
          have small: "\<not> zip64_hint hint \<longrightarrow> length (content s) < u32_limit"
            using small_without_zip64 [OF _ c(3)] by blast
          obtain q' z' where e: "end_deflated wr z2 nm (name_flags nm OR flag_descriptor) (zw_pos z)
              (crc_of (content s)) (length raw) (length (content s)) (zip64_hint hint) = Some (q', z')"
            "dst.takes_all \<longrightarrow> q' = Inr ()"
            "q' = Inr () \<longrightarrow> dst.zip_holds base z' (ms @ [(deflated_entry nm (crc_of (content s))
               (length (content s)) raw (zw_pos z) (zip64_hint hint), raw)])"
            using end_deflated_result [OF assms(2), of z2 nm "zip64_hint hint" raw "length (content s)"
                "crc_of (content s)"] raw ok(3-5) small
            by (auto simp: z2_def pre_def simp flip: bs_def)
          show ?thesis using c raw(4) e by (cases q') (auto simp: run simp flip: nm_def)
        qed
      qed
    qed
  qed
qed

lemma zip_deflated_from_ok:
  assumes "dst.zip_holds base z ms"
    and "zip_deflated_from wr name hint copy x z = Some (Inr u, z', x')"
    and law: "\<And>w crc u w' n. wgood w \<Longrightarrow> copy x (w, 0) = Some (Inr (crc, u), (w', n), x') \<Longrightarrow>
      wgood w' \<and> (\<exists>raw. written w' = written w @ raw \<and> n = length raw)"
  obtains z1 crc out raw where "wgood z1" "copy x (z1, 0) = Some (Inr (crc, u), (out, length raw), x')"
    "written out = written z1 @ raw" "u \<le> hint" "\<not> zip64_hint hint \<longrightarrow> length raw < u32_limit"
    "dst.zip_holds base z' (ms @ [(deflated_entry (as_bytes name) crc u raw (zw_pos z) (zip64_hint hint), raw)])"
proof -
  define nm where "nm = as_bytes name"
  define bs where "bs = local_bytes nm m_deflated (name_flags nm OR flag_descriptor) 0 0 0 (zip64_hint hint)"
  note unfold = zip_deflated_from_def [of wr name hint copy x z, unfolded Let_def local_header_def,
      folded nm_def, folded bs_def]
  have z: "wgood (zw_out z)" using assms(1) by (simp add: dst.zip_holds_def)
  show thesis
  proof (cases rule: dst.put_cases [OF z, of bs, case_names ok stop])
    case (stop e z1)
    then show thesis using assms(2) by (simp add: unfold)
  next
    case (ok z1)
    obtain crc u' w' n where c: "copy x (zw_out z1, 0) = Some (Inr (crc, u'), (w', n), x')" "u' \<le> hint"
      "\<not> zip64_hint hint \<longrightarrow> n < u32_limit"
      and rest: "(case end_deflated wr (z1\<lparr>zw_out := w', zw_pos := zw_pos z1 + n\<rparr>) nm
            (name_flags nm OR flag_descriptor) (zw_pos z) crc n u' (zip64_hint hint) of
                None \<Rightarrow> None
              | Some (Inl e, z) \<Rightarrow> Some (Inl e, z, x')
              | Some (Inr _, z) \<Rightarrow> Some (Inr u', z, x')) = Some (Inr u, z', x')"
      using assms(2) unfolding unfold ok(1)
      by (auto split: option.splits sum.splits if_splits simp: not_le)
    obtain raw where raw: "wgood w'" "written w' = written (zw_out z1) @ raw" "n = length raw"
      using law [OF ok(2) c(1)] by blast
    have small: "\<not> zip64_hint hint \<longrightarrow> u' < u32_limit"
      using small_without_zip64 [OF _ c(2)] by blast
    define z2 where "z2 = z1\<lparr>zw_out := w', zw_pos := zw_pos z1 + n\<rparr>"
    obtain q z3 where e: "end_deflated wr z2 nm (name_flags nm OR flag_descriptor) (zw_pos z) crc (length raw) u'
        (zip64_hint hint) = Some (q, z3)"
      "q = Inr () \<longrightarrow> dst.zip_holds base z3 (ms @ [(deflated_entry nm crc u' raw (zw_pos z) (zip64_hint hint), raw)])"
      using end_deflated_result [OF assms(1), of z2 nm "zip64_hint hint" raw u' crc] raw ok(3-5) small
      by (auto simp: z2_def simp flip: bs_def)
    have "q = Inr ()" "z3 = z'" "u' = u"
      using rest [folded z2_def] e(1) raw(3) by (auto split: sum.splits)
    then show thesis
      using that [of "zw_out z1" crc w' raw] ok(2) c raw(2,3) e(2) by (simp add: nm_def)
  qed
qed

end

section \<open>Properties\<close>

text \<open>What a caller wrote, and what it should find again.\<close>

datatype wrote = WroteStored string u32 bytes | WroteDeflated string bytes | WroteRaw string u32 nat bytes

fun kept_as :: "crc_lib \<Rightarrow> decoder \<Rightarrow> wrote \<Rightarrow> unzipped \<Rightarrow> bool" where
  "kept_as crc_of dec (WroteStored name crc d) m \<longleftrightarrow> crc_of d = crc
     \<and> m = \<lparr>uz_name = as_bytes name, uz_method = m_stored, uz_crc = unat crc, uz_size = length d, uz_data = d\<rparr>"
| "kept_as crc_of dec (WroteDeflated name d) m \<longleftrightarrow>
     (\<exists>raw. dec [] raw = Some (d, length raw)
       \<and> m = \<lparr>uz_name = as_bytes name, uz_method = m_deflated, uz_crc = unat (crc_of d), uz_size = length d, uz_data = raw\<rparr>)"
| "kept_as crc_of dec (WroteRaw name crc u raw) m \<longleftrightarrow>
     m = \<lparr>uz_name = as_bytes name, uz_method = m_deflated, uz_crc = unat crc, uz_size = u, uz_data = raw\<rparr>"

text \<open>
  A zip in the making over a writer that follows a script, from readers in segments: every call that has
  succeeded so far.  A member that arrives deflated is whatever its source wrote.
\<close>

inductive zip_written ::
    "crc_lib \<Rightarrow> 'c deflate_lib \<Rightarrow> (slot list \<times> bytes) zip_writer \<Rightarrow> wrote list \<Rightarrow> bool"
  for crc_of lib where
  zip_begun: "slots_good (ws, []) \<Longrightarrow> zip_written crc_of lib (zip_new (ws, [])) []"
| wrote_stored: "zip_written crc_of lib z ms \<Longrightarrow> segments_good ss \<Longrightarrow>
    zip_stored crc_of h write_slots read_segments name crc sz ss z = Some (Inr (), z') \<Longrightarrow>
    zip_written crc_of lib z' (ms @ [WroteStored name crc (segments_content ss)])"
| wrote_deflated: "zip_written crc_of lib z ms \<Longrightarrow> segments_good ss \<Longrightarrow>
    zip_deflated crc_of h lib dense write_slots read_segments name hint ss z = Some (Inr n, z', ss') \<Longrightarrow>
    zip_written crc_of lib z' (ms @ [WroteDeflated name (segments_content ss)])"
| wrote_raw: "zip_written crc_of lib z ms \<Longrightarrow>
    zip_deflated_from write_slots name hint copy (pk :: package) z = Some (Inr u, z', pk') \<Longrightarrow>
    (\<forall>w c v w' n. slots_good w \<longrightarrow> copy pk (w, 0) = Some (Inr (c, v), (w', n), pk') \<longrightarrow>
       c = crc \<and> slots_good w' \<and> snd w' = snd w @ raw \<and> n = length raw) \<Longrightarrow>
    zip_written crc_of lib z' (ms @ [WroteRaw name crc u raw])"


interpretation zslots: zipping read_segments segments_good segments_content segments_fate segments_patience
    write_slots slots_good snd "\<lambda>w. length (fst w)"
  by (rule zipping.intro) (rule segs.source_axioms slots.sink_axioms)+

text \<open>Only a member that is deflated on the way can outgrow its header; every other way in has a check.\<close>

fun checked_as :: "wrote \<Rightarrow> central \<Rightarrow> bool" where
  "checked_as (WroteStored name crc d) e \<longleftrightarrow> \<not> outgrown e"
| "checked_as (WroteDeflated name d) e \<longleftrightarrow> (outgrown e \<longrightarrow> deflate_bound (length d) < ce_compressed e)"
| "checked_as (WroteRaw name crc u raw) e \<longleftrightarrow> \<not> outgrown e"

lemma checked_entries:
  "checked_as (WroteStored name crc d) (stored_entry nm c b off)"
  "\<not> zip64_hint hint \<longrightarrow> length raw < u32_limit \<Longrightarrow>
    checked_as (WroteRaw name crc u r) (deflated_entry nm c v raw off (zip64_hint hint))"
  "length d \<le> hint \<Longrightarrow>
    checked_as (WroteDeflated name d) (deflated_entry nm c v raw off (zip64_hint hint))"
  using small_without_zip64 [of hint "length d"]
  by (auto simp: outgrown_def stored_entry_def deflated_entry_def m_stored_def m_deflated_def u32_limit_def)

lemma kept_as_deflated:
  "dec [] raw = Some (d, length raw) \<Longrightarrow> kept_as crc_of dec (WroteDeflated name d)
     (member_of (deflated_entry (as_bytes name) (crc_of d) (length d) raw off z) raw)"
  by (simp add: member_of_def deflated_entry_def)

lemma zip_written_holds:
  assumes "zip_written crc_of lib z ms" "codec_documented lib dec opened pending"
  shows "\<exists>es. slots.zip_holds [] z es
    \<and> list_all2 (kept_as crc_of dec) ms (map (\<lambda>(e, d). member_of e d) es) \<and> list_all2 checked_as ms (map fst es)"
  using assms(1)
proof induction
  case (zip_begun ws)
  then show ?case using slots.zip_new_holds [of "(ws, [])"] by (intro exI [of _ "[]"]) simp
next
  case (wrote_stored z ms ss h name crc sz z')
  obtain es where es: "slots.zip_holds [] z es" "list_all2 (kept_as crc_of dec) ms (map (\<lambda>(e, d). member_of e d) es)" "list_all2 checked_as ms (map fst es)"
    using wrote_stored.IH by blast
  have "crc_of (segments_content ss) = crc
      \<and> slots.zip_holds [] z' (es @ [(stored_entry (as_bytes name) crc (segments_content ss) (zw_pos z), segments_content ss)])"
    using zslots.zip_stored_result [OF es(1) wrote_stored.hyps(2), of crc_of h name crc sz] wrote_stored.hyps(3) by auto
  then show ?case using es(2,3) checked_entries(1)
    by (intro exI [of _ "es @ [(stored_entry (as_bytes name) crc (segments_content ss) (zw_pos z), segments_content ss)]"])
       (auto intro!: list_all2_appendI simp: member_of_def stored_entry_def deflated_entry_def)
next
  case (wrote_deflated z ms ss h dense name hint n z' ss')
  obtain es where es: "slots.zip_holds [] z es" "list_all2 (kept_as crc_of dec) ms (map (\<lambda>(e, d). member_of e d) es)" "list_all2 checked_as ms (map fst es)"
    using wrote_deflated.IH by blast
  define e where "e raw = deflated_entry (as_bytes name) (crc_of (segments_content ss)) n raw (zw_pos z) (zip64_hint hint)"
    for raw
  obtain raw where raw: "n \<le> hint" "n = length (segments_content ss)" "dec [] raw = Some (segments_content ss, length raw)"
      "slots.zip_holds [] z' (es @ [(e raw, raw)])"
    using zslots.zip_deflated_result [OF assms(2) es(1) wrote_deflated.hyps(2), of crc_of h dense name hint]
      wrote_deflated.hyps(3) by (auto simp: e_def)
  then have "checked_as (WroteDeflated name (segments_content ss)) (e raw)"
    unfolding e_def by (intro checked_entries(3)) simp
  then show ?case using raw es(2,3) kept_as_deflated [of dec raw "segments_content ss"]
    by (intro exI [of _ "es @ [(e raw, raw)]"]) (auto intro!: list_all2_appendI simp: e_def member_of_def deflated_entry_def)
next
  case (wrote_raw z ms name hint copy pk u z' pk' crc raw)
  obtain es where es: "slots.zip_holds [] z es" "list_all2 (kept_as crc_of dec) ms (map (\<lambda>(e, d). member_of e d) es)" "list_all2 checked_as ms (map fst es)"
    using wrote_raw.IH by blast
  obtain z1 c out raw' where z1: "slots_good z1" "copy pk (z1, 0) = Some (Inr (c, u), (out, length raw'), pk')"
    "snd out = snd z1 @ raw'" "slots.zip_holds [] z'
       (es @ [(deflated_entry (as_bytes name) c u raw' (zw_pos z) (zip64_hint hint), raw')])"
    "\<not> zip64_hint hint \<longrightarrow> length raw' < u32_limit"
    by (rule zslots.zip_deflated_from_ok [OF es(1) wrote_raw.hyps(2)]) (use wrote_raw.hyps(3) in blast)+
  have "c = crc \<and> slots_good out \<and> snd out = snd z1 @ raw \<and> length raw' = length raw"
    by (rule wrote_raw.hyps(3) [rule_format, OF z1(1,2)])
  then have "c = crc" "raw' = raw" using z1(3) by simp_all
  moreover have "checked_as (WroteRaw name crc u raw)
      (deflated_entry (as_bytes name) crc u raw (zw_pos z) (zip64_hint hint))"
    using z1(5) \<open>raw' = raw\<close> by (intro checked_entries(2)) simp
  ultimately show ?case using z1(4) es(2,3)
    by (intro exI [of _ "es @ [(deflated_entry (as_bytes name) crc u raw (zw_pos z) (zip64_hint hint), raw)]"])
       (auto intro!: list_all2_appendI simp: member_of_def stored_entry_def deflated_entry_def)
qed


text \<open>A stored member through a writer that splits what it is given.\<close>

lemma put_all_quiet:
  "zw_out z = ([], w) \<Longrightarrow> put_all write_slots z ds = Some (Inr (),
     z\<lparr>zw_out := ([], w @ concat ds), zw_pos := zw_pos z + length (concat ds)\<rparr>)"
proof (induction ds arbitrary: z w)
  case (Cons d ds)
  have "put write_slots z d = Some (Inr (), z\<lparr>zw_out := ([], w @ d), zw_pos := zw_pos z + length d\<rparr>)"
    by (cases "d = []") (simp_all add: put_def Cons.prems write_all.simps [of write_slots "([], w)"])
  then show ?case using Cons.IH [of "z\<lparr>zw_out := ([], w @ d), zw_pos := zw_pos z + length d\<rparr>"] by (simp add: add.assoc)
qed simp

lemma finish_quiet:
  assumes "zw_out z = ([], w)"
  shows "\<exists>w'. zip_finish write_slots (\<lambda>_. None) z = Some (Inr (), w')"
proof -
  have "zw_out (z\<lparr>zw_entries := []\<rparr>) = ([], w)" using assms by simp
  note first = put_all_quiet [OF this, of "map central_bytes (zw_entries z)"]
  define z1 where "z1 = z\<lparr>zw_entries := [], zw_out := ([], w @ concat (map central_bytes (zw_entries z))),
      zw_pos := zw_pos z + length (concat (map central_bytes (zw_entries z)))\<rparr>"
  have "zw_out z1 = ([], w @ concat (map central_bytes (zw_entries z)))" by (simp add: z1_def)
  note second = put_all_quiet [OF this]
  have "put_all write_slots (z\<lparr>zw_entries := []\<rparr>) (map central_bytes (zw_entries z)) = Some (Inr (), z1)"
    using first by (simp add: z1_def)
  then show ?thesis by (simp add: zip_finish_def Let_def second)
qed

lemma sample_stored:
  obtains z where "zip_written (\<lambda>_. 7) stored_deflate z [WroteStored ''a'' 7 [1, 2, 3]]"
    "fst (zw_out z) = []" "slots.zip_holds [] z [(stored_entry (as_bytes ''a'') 7 [1, 2, 3] 0, [1, 2, 3])]"
    "zw_entries z = [stored_entry (as_bytes ''a'') 7 [1, 2, 3] 0]"
proof -
  define z0 where "z0 = zip_new ([Takes 3, WInterrupt, Takes 1], [] :: bytes)"
  have good: "slots_good ([Takes 3, WInterrupt, Takes 1], [])" by (simp add: slots_good_def)
  have z0: "slots.zip_holds [] z0 []" using slots.zip_new_holds [OF good] by (simp add: z0_def)
  define q where "q = zip_stored (\<lambda>_. 7) rich_host write_slots read_segments ''a'' 7 3 [Data [1, 2], Data [3]] z0"
  have "\<exists>z. q = Some (Inr (), z) \<and> fst (zw_out z) = []"
    by (simp add: q_def z0_def zip_stored_def local_header_def put_def zip_new_def write_all.simps chunk_buffer_def
        rich_host_def stored_copy.simps local_bytes_def as_bytes_def Let_def chunk_def)
  then obtain z where z: "q = Some (Inr (), z)" "fst (zw_out z) = []" by blast
  have "segments_good [Data [1, 2], Data [3]]" by simp
  from zslots.zip_stored_result [OF z0 this, of "\<lambda>_. 7" rich_host "''a''" 7 3] z(1)
  have holds: "slots.zip_holds [] z ([] @ [(stored_entry (as_bytes ''a'') 7 [1, 2, 3] 0, [1, 2, 3])])"
    by (auto simp: q_def z0_def zip_new_def)
  have "zip_written (\<lambda>_. 7) stored_deflate z ([] @ [WroteStored ''a'' 7 (segments_content [Data [1, 2], Data [3]])])"
    by (rule wrote_stored [OF _ _ z(1) [unfolded q_def]]) (use zip_begun [OF good] in \<open>simp_all add: z0_def\<close>)
  then show thesis using that [of z] holds z(2) by (simp add: slots.zip_holds_def)
qed

text \<open>The same for a member deflated on the way, with the stored-block encoder as the library.\<close>

lemma quiet_write: "write_all write_slots ([], w) d = Some (Inr (), ([], w @ d))"
  by (cases "d = []") (simp_all add: write_all.simps [of write_slots "([], w)"])

lemma quiet_counted:
  "write_all (counting_write write_slots) (([], w), n) d = Some (Inr (), (([], w @ d), n + length d))"
  by (cases "d = []") (simp_all add: write_all.simps [of _ "(([], w), n)"] counting_write_at)

lemma quiet_put:
  "zw_out z = ([], w) \<Longrightarrow> put write_slots z d = Some (Inr (), z\<lparr>zw_out := ([], w @ d), zw_pos := zw_pos z + length d\<rparr>)"
  by (simp add: put_def quiet_write)

lemma stored_steps:
  "d \<noteq> [] \<Longrightarrow> length d < 65530 \<Longrightarrow>
    def_step stored_deflate c d chunk FlushNone = (DeflOkay, length d, stored_header (length d) @ d, ())"
  "def_step stored_deflate c d chunk FlushFinish = (DeflDone, 0, [1, 0, 0, 255, 255], ())"
  by (simp_all add: stored_deflate_def chunk_def stored_block_max_def)

lemma quiet_pump:
  assumes "d \<noteq> []" "length d < 65530"
  shows "pump stored_deflate (counting_write write_slots) (([], w), n) c d FlushNone
    = Some (Inr (), (([], w @ stored_header (length d) @ d), n + 5 + length d), ())"
proof -
  have header: "length (stored_header (length d)) = 5" by (simp add: stored_header_def)
  then have "length (stored_header (length d) @ d) < chunk" using assms(2) by (simp add: chunk_def)
  then show ?thesis
    by (subst pump.simps) (simp add: stored_steps(1) [OF assms] quiet_counted header)
qed

lemma quiet_end:
  "pump stored_deflate (counting_write write_slots) (([], w), n) c d FlushFinish
    = Some (Inr (), (([], w @ [1, 0, 0, 255, 255]), n + 5), ())"
  by (subst pump.simps) (simp add: stored_steps(2) quiet_counted)

lemma quiet_deflate:
  assumes "d \<noteq> []" "length d < 65530"
  shows "deflate_write stored_deflate dense (counting_write write_slots)
      \<lparr>df_dst = (([], w), n), df_comp = (), df_consumed = m, df_held = None\<rparr> d
    = Some (Inr (length d), \<lparr>df_dst = (([], w @ stored_header (length d) @ d), n + 5 + length d), df_comp = (),
        df_consumed = m + length d, df_held = None\<rparr>)"
  by (simp add: deflate_write_def Let_def quiet_pump [OF assms])

lemma quiet_member:
  assumes "d \<noteq> []" "length d < 65530" "length d \<le> hint" "zw_out z = ([], w)"
  shows "\<exists>z'. zip_deflated crc_of rich_host stored_deflate dense write_slots read_segments name hint [Data d] z
      = Some (Inr (length d), z', []) \<and> fst (zw_out z') = []
    \<and> zw_entries z' = zw_entries z @ [deflated_entry (as_bytes name) (crc_of d) (length d)
        (stored_header (length d) @ d @ [1, 0, 0, 255, 255]) (zw_pos z) (zip64_hint hint)]"
proof -
  define bs where "bs = local_bytes (as_bytes name) m_deflated (name_flags (as_bytes name) OR flag_descriptor) 0 0 0
      (zip64_hint hint)"
  have header: "length (stored_header (length d)) = 5" by (simp add: stored_header_def)
  define w0 :: "(unit, (slot list \<times> bytes) \<times> nat) deflater" where
    "w0 = \<lparr>df_dst = (([], w @ bs), 0), df_comp = (), df_consumed = 0, df_held = None\<rparr>"
  define w1 :: "(unit, (slot list \<times> bytes) \<times> nat) deflater" where
    "w1 = \<lparr>df_dst = (([], (w @ bs) @ stored_header (length d) @ d), 5 + length d), df_comp = (),
        df_consumed = length d, df_held = None\<rparr>"
  have w1: "deflate_write stored_deflate dense (counting_write write_slots) w0 d = Some (Inr (length d), w1)"
    using quiet_deflate [OF assms(1,2), of dense "w @ bs" 0 0] by (simp add: w0_def w1_def)
  have copy: "deflated_copy stored_deflate dense (counting_write write_slots) read_segments chunk hint w0 [Data d] []
      = Some (Inr d, w1, [])"
    using assms(1-3) w1
    by (simp add: deflated_copy.simps [of _ _ _ _ _ _ w0] deflated_copy.simps [of _ _ _ _ _ _ w1] chunk_def
        write_all.simps [of _ w0])
  have fin: "deflate_finish stored_deflate dense (counting_write write_slots) w1
      = Some (Inr (), (([], (w @ bs) @ stored_header (length d) @ d @ [1, 0, 0, 255, 255]), 10 + length d))"
    by (simp add: deflate_finish_def w1_def quiet_end)
  have new: "deflate_new stored_deflate rich_host (([], w @ bs), 0) = Inr w0"
    by (simp add: deflate_new_def chunk_buffer_def rich_host_def w0_def stored_deflate_def)
  show ?thesis
    unfolding zip_deflated_def Let_def local_header_def bs_def [symmetric]
    using copy fin new quiet_put [OF assms(4), of bs]
    by (simp add: chunk_buffer_def rich_host_def end_deflated_def quiet_put deflated_entry_def header)
qed


end
