(* ===== verification/Gcm.thy ===== *)
theory Gcm
  imports Stream_Io
begin

text \<open>
  The AES-GCM stream of \<^verbatim>\<open>src/stream.rs\<close>: \<^verbatim>\<open>GhashStream\<close>, which feeds a block hash from chunks of any
  length, and \<^verbatim>\<open>GcmStream\<close>, which decrypts or encrypts while it hashes.  The block cipher, the CTR
  keystream and the block function of GHASH are parameters.  The locale \<^verbatim>\<open>absorber\<close> states what a
  chunked hash promises; the lemmas show that the tag depends on the bytes alone, not on how they
  were split, and that decryption inverts encryption with the same tag.
\<close>

section \<open>Absorbing in chunks\<close>

text \<open>
  The interface of a hash that is fed in pieces: \<^verbatim>\<open>holds s bs\<close> says that the state has absorbed
  \<^verbatim>\<open>bs\<close>, and the result is then the hash of \<^verbatim>\<open>bs\<close>.
\<close>

locale absorber =
  fixes absorb :: "'s \<Rightarrow> bytes \<Rightarrow> 's"
    and result :: "'s \<Rightarrow> 'r"
    and holds :: "'s \<Rightarrow> bytes \<Rightarrow> bool"
    and hash_of :: "bytes \<Rightarrow> 'r"
  assumes absorbs: "holds s bs \<Longrightarrow> holds (absorb s d) (bs @ d)"
    and result_hash: "holds s bs \<Longrightarrow> result s = hash_of bs"
begin

lemma absorbs_chunks: "holds s bs \<Longrightarrow> holds (foldl absorb s ds) (bs @ concat ds)"
proof (induction ds arbitrary: s bs)
  case (Cons d ds)
  from Cons.IH [OF absorbs [OF Cons.prems]] show ?case by simp
qed simp

lemma result_chunks: "holds s bs \<Longrightarrow> result (foldl absorb s ds) = hash_of (bs @ concat ds)"
  by (rule result_hash [OF absorbs_chunks])

lemma chunking_irrelevant:
  "holds s bs \<Longrightarrow> concat ds = concat ds' \<Longrightarrow> result (foldl absorb s ds) = result (foldl absorb s ds')"
  by (simp add: result_chunks)

end

section \<open>The GHASH stream\<close>

text \<open>
  The crates: \<^verbatim>\<open>aes\<close> on one block, the \<^verbatim>\<open>ctr\<close> keystream of a key and initial counter block as a
  function of the byte's position, and \<^verbatim>\<open>ghash\<close> with a state of its own.
\<close>

record 'g gcm_lib =
  aes_block :: "bytes \<Rightarrow> bytes \<Rightarrow> bytes"
  keystream :: "bytes \<Rightarrow> bytes \<Rightarrow> nat \<Rightarrow> byte"
  ghash_new :: "bytes \<Rightarrow> 'g"
  ghash_block :: "'g \<Rightarrow> bytes \<Rightarrow> 'g"
  ghash_out :: "'g \<Rightarrow> bytes"

record 'g ghash_stream =
  gs_h :: 'g
  gs_partial :: bytes
  gs_partial_len :: nat
  gs_ct_len :: nat

text \<open>\<^verbatim>\<open>update_padded\<close>: whole blocks, then what is left padded with zeros.\<close>

function update_padded :: "'g gcm_lib \<Rightarrow> 'g \<Rightarrow> bytes \<Rightarrow> 'g" where
  "update_padded lib h bs =
    (if bs = [] then h
     else if length bs < 16 then ghash_block lib h (bs @ replicate (16 - length bs) 0)
     else update_padded lib (ghash_block lib h (take 16 bs)) (drop 16 bs))"
  by pat_completeness auto
termination
  by (relation "measure (\<lambda>(lib, h, bs). length bs)") auto

declare update_padded.simps [simp del]

definition copy_at :: "bytes \<Rightarrow> nat \<Rightarrow> bytes \<Rightarrow> bytes" where
  "copy_at buf at data = take at buf @ data @ drop (at + length data) buf"

definition ghash_update :: "'g gcm_lib \<Rightarrow> 'g ghash_stream \<Rightarrow> bytes \<Rightarrow> 'g ghash_stream" where
  "ghash_update lib g0 data0 =
    (let g = g0\<lparr>gs_ct_len := gs_ct_len g0 + length data0\<rparr>;
         (g, data, filling) =
           (if gs_partial_len g > 0 then
              (let taken = min (16 - gs_partial_len g) (length data0);
                   g1 = g\<lparr>gs_partial := copy_at (gs_partial g) (gs_partial_len g) (take taken data0),
                          gs_partial_len := gs_partial_len g + taken\<rparr>
               in if gs_partial_len g1 < 16 then (g1, drop taken data0, True)
                  else (g1\<lparr>gs_h := ghash_block lib (gs_h g1) (gs_partial g1), gs_partial_len := 0\<rparr>,
                        drop taken data0, False))
            else (g, data0, False))
     in if filling then g
        else
          (let whole = length data - length data mod 16; rest = drop whole data
           in g\<lparr>gs_h := update_padded lib (gs_h g) (take whole data),
                gs_partial := copy_at (gs_partial g) 0 rest, gs_partial_len := length rest\<rparr>))"

definition ghash_finalize :: "'g gcm_lib \<Rightarrow> 'g ghash_stream \<Rightarrow> bytes" where
  "ghash_finalize lib g =
    (let h = (if gs_partial_len g > 0 then update_padded lib (gs_h g) (take (gs_partial_len g) (gs_partial g))
              else gs_h g)
     in ghash_out lib (ghash_block lib h (replicate 8 0 @ be_bytes 8 (gs_ct_len g * 8 mod 2 ^ 64))))"

definition ghash_start :: "'g \<Rightarrow> 'g ghash_stream" where
  "ghash_start h = \<lparr>gs_h = h, gs_partial = replicate 16 0, gs_partial_len = 0, gs_ct_len = 0\<rparr>"

text \<open>The whole-buffer GHASH of a ciphertext without associated data (NIST SP 800-38D).\<close>

definition ghash_of :: "'g gcm_lib \<Rightarrow> 'g \<Rightarrow> bytes \<Rightarrow> bytes" where
  "ghash_of lib h0 ct =
    ghash_out lib (ghash_block lib (update_padded lib h0 ct)
      (replicate 8 0 @ be_bytes 8 (length ct * 8 mod 2 ^ 64)))"

definition ghash_holds :: "'g gcm_lib \<Rightarrow> 'g \<Rightarrow> 'g ghash_stream \<Rightarrow> bytes \<Rightarrow> bool" where
  "ghash_holds lib h0 g bs \<longleftrightarrow>
     gs_partial_len g = length bs mod 16 \<and> length (gs_partial g) = 16 \<and> gs_ct_len g = length bs
   \<and> gs_h g = update_padded lib h0 (take (length bs - length bs mod 16) bs)
   \<and> take (gs_partial_len g) (gs_partial g) = drop (length bs - length bs mod 16) bs"

lemma update_padded_Nil [simp]: "update_padded lib h [] = h"
  by (simp add: update_padded.simps)

lemma update_padded_block:
  assumes "length b = 16"
  shows "update_padded lib h b = ghash_block lib h b"
proof -
  from assms have "b \<noteq> []" "\<not> length b < 16" "take 16 b = b" "drop 16 b = []" by auto
  then show ?thesis by (subst update_padded.simps) (simp only: if_False update_padded_Nil)
qed

lemma update_padded_append:
  "16 dvd length xs \<Longrightarrow> update_padded lib h (xs @ ys) = update_padded lib (update_padded lib h xs) ys"
proof (induction lib h xs rule: update_padded.induct)
  case (1 lib h xs)
  show ?case
  proof (cases "xs = []")
    case False
    with 1(2) have ge: "16 \<le> length xs" by (simp add: dvd_imp_le)
    then have "16 dvd length (drop 16 xs)" using 1(2) by simp
    with 1(1) [OF False _ ] ge False show ?thesis
      by (simp add: update_padded.simps [of lib h "xs @ ys"] update_padded.simps [of lib h xs])
  qed simp
qed

lemma length_copy_at: "at + length d \<le> length buf \<Longrightarrow> length (copy_at buf at d) = length buf"
  by (simp add: copy_at_def)

lemma take_copy_at:
  "at + length d \<le> length buf \<Longrightarrow> take (at + length d) (copy_at buf at d) = take at buf @ d"
  by (simp add: copy_at_def)

lemma whole_split: "n - n mod 16 + n mod 16 = (n::nat)"
  by simp

text \<open>Absorbing past a block boundary, in terms of what is pending and what is new.\<close>

lemma ghash_holds_start: "ghash_holds lib h0 (ghash_start h0) []"
  by (simp add: ghash_holds_def ghash_start_def)

lemma ghash_update_idle:
  assumes "ghash_holds lib h0 g bs" "gs_partial_len g = 0"
  shows "ghash_holds lib h0 (ghash_update lib g d) (bs @ d)"
proof -
  have dvd: "length bs mod 16 = 0" using assms by (simp add: ghash_holds_def)
  define whole where "whole = length d - length d mod 16"
  have whole: "length (bs @ d) - length (bs @ d) mod 16 = length bs + whole"
    using dvd by (simp add: whole_def mod_add_eq [symmetric])
  have h: "gs_h g = update_padded lib h0 bs" using assms dvd by (simp add: ghash_holds_def)
  have "update_padded lib h0 (take (length bs + whole) (bs @ d))
      = update_padded lib (gs_h g) (take whole d)"
    using update_padded_append [of bs lib h0 "take whole d"] dvd by (simp add: h dvd_eq_mod_eq_0)
  moreover have "length (drop whole d) = length d mod 16" by (simp add: whole_def)
  moreover have "length (gs_partial g) = 16" using assms by (simp add: ghash_holds_def)
  ultimately show ?thesis
    using assms dvd whole mod_less_divisor [of 16 "length d"]
    by (simp add: ghash_holds_def ghash_update_def Let_def copy_at_def less_imp_le flip: whole_def)
qed

lemma ghash_fill_short:
  assumes "ghash_holds lib h0 g bs" "0 < gs_partial_len g" "gs_partial_len g + length d < 16"
  shows "ghash_holds lib h0 (ghash_update lib g d) (bs @ d)"
proof -
  define p where "p = gs_partial_len g"
  define w where "w = length bs - length bs mod 16"
  have p: "p = length bs mod 16" "length (gs_partial g) = 16" "take p (gs_partial g) = drop w bs"
    "gs_h g = update_padded lib h0 (take w bs)" "gs_ct_len g = length bs"
    using assms(1) by (auto simp: ghash_holds_def p_def w_def)
  have m: "length (bs @ d) mod 16 = p + length d"
    using assms(3) p(1) by (metis length_append mod_add_left_eq mod_less p_def)
  have w: "length (bs @ d) - length (bs @ d) mod 16 = w" "w \<le> length bs"
    using m p(1) by (simp_all add: w_def)
  have upd: "ghash_update lib g d = g\<lparr>gs_ct_len := length bs + length d,
      gs_partial := copy_at (gs_partial g) p d, gs_partial_len := p + length d\<rparr>"
    using assms(2,3) p(5) by (simp add: ghash_update_def Let_def min_def p_def)
  have "take (p + length d) (copy_at (gs_partial g) p d) = drop w (bs @ d)"
    using take_copy_at [of p d "gs_partial g"] assms(3) p(2,3) w(2) by (simp add: p_def)
  then show ?thesis
    unfolding ghash_holds_def upd w(1) using m w(2) p assms(3)
    by (simp add: length_copy_at p_def)
qed

lemma ghash_fill_full:
  assumes "ghash_holds lib h0 g bs" "0 < gs_partial_len g" "16 \<le> gs_partial_len g + length d"
  defines "t \<equiv> 16 - gs_partial_len g"
  shows "\<exists>g'. ghash_holds lib h0 g' (bs @ take t d) \<and> gs_partial_len g' = 0
    \<and> ghash_update lib g d = ghash_update lib g' (drop t d)"
proof -
  define p where "p = gs_partial_len g"
  define w where "w = length bs - length bs mod 16"
  have p: "p = length bs mod 16" "length (gs_partial g) = 16" "take p (gs_partial g) = drop w bs"
    "gs_h g = update_padded lib h0 (take w bs)" "gs_ct_len g = length bs"
    using assms(1) by (auto simp: ghash_holds_def p_def w_def)
  have lt: "p < 16" and t: "t = 16 - p" "t \<le> length d" using p(1) assms(3) by (simp_all add: t_def p_def)
  have wl: "w \<le> length bs" "length bs = w + p" using p(1) by (simp_all add: w_def)
  have w16: "16 dvd w" by (simp add: w_def minus_mod_eq_mult_div)
  define g' where "g' = g\<lparr>gs_ct_len := length bs + t, gs_partial := copy_at (gs_partial g) p (take t d),
    gs_h := ghash_block lib (gs_h g) (copy_at (gs_partial g) p (take t d)), gs_partial_len := 0\<rparr>"
  have block: "copy_at (gs_partial g) p (take t d) = drop w bs @ take t d"
    using p(2,3) t lt by (simp add: copy_at_def)
  have len: "length (drop w bs @ take t d) = 16" using wl t lt by simp
  have total: "length (bs @ take t d) = w + 16" using wl t lt by simp
  have "update_padded lib h0 (bs @ take t d)
      = update_padded lib (update_padded lib h0 (take w bs)) (drop w bs @ take t d)"
    using update_padded_append [of "take w bs" lib h0 "drop w bs @ take t d"] w16 wl(1)
    unfolding append_assoc [symmetric] append_take_drop_id by simp
  also have "\<dots> = ghash_block lib (gs_h g) (drop w bs @ take t d)"
    unfolding update_padded_block [OF len] p(4) ..
  finally have h: "update_padded lib h0 (bs @ take t d) = ghash_block lib (gs_h g) (drop w bs @ take t d)" .
  have m: "(w + 16) mod 16 = 0" using w16 by simp
  have all: "take (w + 16) (bs @ take t d) = bs @ take t d" "drop (w + 16) (bs @ take t d) = []"
    by (rule take_all drop_all; simp only: total)+
  have "ghash_holds lib h0 g' (bs @ take t d)"
    unfolding ghash_holds_def total m diff_zero all
  proof (intro conjI)
    show "length (gs_partial g') = 16" unfolding g'_def using len by (simp add: block del: length_append)
    show "gs_ct_len g' = w + 16" using wl t lt by (simp add: g'_def)
  qed (simp_all add: g'_def block h)
  moreover have "ghash_update lib g d = ghash_update lib g' (drop t d)"
    using assms(2) p(5) t lt
    by (simp add: ghash_update_def Let_def g'_def min_def flip: p_def)
  ultimately show ?thesis by (auto simp: g'_def)
qed

lemma ghash_update_holds:
  assumes "ghash_holds lib h0 g bs"
  shows "ghash_holds lib h0 (ghash_update lib g d) (bs @ d)"
proof -
  consider "gs_partial_len g = 0" | "0 < gs_partial_len g" "gs_partial_len g + length d < 16"
    | "0 < gs_partial_len g" "16 \<le> gs_partial_len g + length d" by linarith
  then show ?thesis
  proof cases
    case 1
    then show ?thesis by (rule ghash_update_idle [OF assms])
  next
    case 2
    then show ?thesis by (rule ghash_fill_short [OF assms])
  next
    case 3
    define t where "t = 16 - gs_partial_len g"
    from ghash_fill_full [OF assms 3] obtain g' where
      "ghash_holds lib h0 g' (bs @ take t d)" "gs_partial_len g' = 0"
      "ghash_update lib g d = ghash_update lib g' (drop t d)" by (auto simp: t_def)
    with ghash_update_idle [of lib h0 g' "bs @ take t d" "drop t d"] show ?thesis by simp
  qed
qed

lemma ghash_finalize_holds:
  assumes "ghash_holds lib h0 g bs"
  shows "ghash_finalize lib g = ghash_of lib h0 bs"
proof -
  define w where "w = length bs - length bs mod 16"
  have w16: "16 dvd length (take w bs)" by (simp add: w_def minus_mod_eq_mult_div)
  have split: "update_padded lib h0 bs = update_padded lib (update_padded lib h0 (take w bs)) (drop w bs)"
    using update_padded_append [OF w16, of lib h0 "drop w bs"] unfolding append_take_drop_id .
  have facts: "gs_h g = update_padded lib h0 (take w bs)"
    "take (gs_partial_len g) (gs_partial g) = drop w bs" "gs_partial_len g = length (drop w bs)"
    and len: "gs_ct_len g = length bs"
    using assms by (auto simp: ghash_holds_def w_def)
  have "(if gs_partial_len g > 0
      then update_padded lib (gs_h g) (take (gs_partial_len g) (gs_partial g)) else gs_h g)
    = update_padded lib h0 bs"
    unfolding split facts(1,2) unfolding facts(3) by (cases "drop w bs") auto
  then show ?thesis unfolding ghash_finalize_def ghash_of_def Let_def len by (simp only:)
qed

interpretation ghash: absorber "ghash_update lib" "ghash_finalize lib" "ghash_holds lib h0" "ghash_of lib h0"
  for lib :: "'g gcm_lib" and h0 :: 'g
  by unfold_locales (rule ghash_update_holds ghash_finalize_holds; assumption)+

section \<open>The GCM stream\<close>

record 'g gcm_stream =
  gm_key :: bytes
  gm_j0 :: bytes
  gm_pos :: nat
  gm_ghash :: "'g ghash_stream"
  gm_mask :: bytes

text \<open>\<^verbatim>\<open>apply_keystream\<close>: the keystream from the current position, which moves on.\<close>

definition xor_stream :: "(nat \<Rightarrow> byte) \<Rightarrow> nat \<Rightarrow> bytes \<Rightarrow> bytes" where
  "xor_stream f pos bs = map2 (\<lambda>b k. b XOR k) bs (map f [pos..<pos + length bs])"

definition ctr_apply :: "'g gcm_lib \<Rightarrow> 'g gcm_stream \<Rightarrow> bytes \<Rightarrow> bytes \<times> 'g gcm_stream" where
  "ctr_apply lib g buf =
    (xor_stream (keystream lib (gm_key g) (gm_j0 g)) (gm_pos g) buf,
     g\<lparr>gm_pos := gm_pos g + length buf\<rparr>)"

definition initial_counter :: "bytes \<Rightarrow> bytes" where
  "initial_counter iv = (copy_at (replicate 16 0) 0 iv)[15 := 1]"

definition gcm_new :: "'g gcm_lib \<Rightarrow> bytes \<Rightarrow> bytes \<Rightarrow> 'g gcm_stream option" where
  "gcm_new lib key iv =
    (if length iv \<noteq> aes_gcm_iv_len then None
     else if length key = 16 \<or> length key = 24 \<or> length key = 32 then
       (let h = aes_block lib key (replicate 16 0);
            g = \<lparr>gm_key = key, gm_j0 = initial_counter iv, gm_pos = 0,
                 gm_ghash = ghash_start (ghash_new lib h), gm_mask = replicate 16 0\<rparr>;
            (mask, g) = ctr_apply lib g (gm_mask g)
        in Some (g\<lparr>gm_mask := mask\<rparr>))
     else None)"

definition gcm_absorb :: "'g gcm_lib \<Rightarrow> 'g gcm_stream \<Rightarrow> bytes \<Rightarrow> 'g gcm_stream" where
  "gcm_absorb lib g ciphertext = g\<lparr>gm_ghash := ghash_update lib (gm_ghash g) ciphertext\<rparr>"

definition gcm_decrypt :: "'g gcm_lib \<Rightarrow> 'g gcm_stream \<Rightarrow> bytes \<Rightarrow> bytes \<times> 'g gcm_stream" where
  "gcm_decrypt lib g buf = ctr_apply lib (gcm_absorb lib g buf) buf"

definition gcm_encrypt :: "'g gcm_lib \<Rightarrow> 'g gcm_stream \<Rightarrow> bytes \<Rightarrow> bytes \<times> 'g gcm_stream" where
  "gcm_encrypt lib g buf = (let (ct, g1) = ctr_apply lib g buf in (ct, gcm_absorb lib g1 ct))"

definition gcm_tag :: "'g gcm_lib \<Rightarrow> 'g gcm_stream \<Rightarrow> bytes" where
  "gcm_tag lib g =
    (let tag = ghash_finalize lib (gm_ghash g); k = min (length tag) (length (gm_mask g))
     in map2 (\<lambda>t m. t XOR m) tag (gm_mask g) @ drop k tag)"

text \<open>The whole-buffer AES-GCM: the text under the keystream from position 16, and the tag.\<close>

definition gcm_crypt :: "'g gcm_lib \<Rightarrow> bytes \<Rightarrow> bytes \<Rightarrow> bytes \<Rightarrow> bytes" where
  "gcm_crypt lib key iv bs = xor_stream (keystream lib key (initial_counter iv)) 16 bs"

definition gcm_mask :: "'g gcm_lib \<Rightarrow> bytes \<Rightarrow> bytes \<Rightarrow> bytes" where
  "gcm_mask lib key iv = xor_stream (keystream lib key (initial_counter iv)) 0 (replicate 16 0)"

definition gcm_tag_of :: "'g gcm_lib \<Rightarrow> bytes \<Rightarrow> bytes \<Rightarrow> bytes \<Rightarrow> bytes" where
  "gcm_tag_of lib key iv ct =
    (let tag = ghash_of lib (ghash_new lib (aes_block lib key (replicate 16 0))) ct;
         mask = gcm_mask lib key iv
     in map2 (\<lambda>t m. t XOR m) tag mask @ drop (min (length tag) (length mask)) tag)"

lemma length_xor_stream [simp]: "length (xor_stream f p bs) = length bs"
  by (simp add: xor_stream_def)

lemma xor_stream_append:
  "xor_stream f p (xs @ ys) = xor_stream f p xs @ xor_stream f (p + length xs) ys"
  by (simp add: xor_stream_def zip_append1 take_map drop_map take_upt add.assoc)

lemma xor_stream_twice [simp]: "xor_stream f p (xor_stream f p bs) = bs"
proof (rule nth_equalityI)
  fix i assume "i < length (xor_stream f p (xor_stream f p bs))"
  then show "xor_stream f p (xor_stream f p bs) ! i = bs ! i"
    by (simp add: xor_stream_def xor.assoc)
qed simp

lemma xor_stream_nil [simp]: "xor_stream f p [] = []"
  by (simp add: xor_stream_def)

text \<open>The state after the ciphertext \<^verbatim>\<open>ct\<close>: hashed, and in step with the keystream.\<close>

definition gcm_hashed :: "'g gcm_lib \<Rightarrow> bytes \<Rightarrow> bytes \<Rightarrow> 'g gcm_stream \<Rightarrow> bytes \<Rightarrow> bool" where
  "gcm_hashed lib key iv g ct \<longleftrightarrow>
     gm_key g = key \<and> gm_j0 g = initial_counter iv \<and> gm_mask g = gcm_mask lib key iv
   \<and> ghash_holds lib (ghash_new lib (aes_block lib key (replicate 16 0))) (gm_ghash g) ct"

definition gcm_at :: "'g gcm_lib \<Rightarrow> bytes \<Rightarrow> bytes \<Rightarrow> 'g gcm_stream \<Rightarrow> bytes \<Rightarrow> bool" where
  "gcm_at lib key iv g ct \<longleftrightarrow> gcm_hashed lib key iv g ct \<and> gm_pos g = 16 + length ct"

definition gcm_sizes :: "bytes \<Rightarrow> bytes \<Rightarrow> bool" where
  "gcm_sizes key iv \<longleftrightarrow> length iv = 12 \<and> length key \<in> {16, 24, 32}"

lemma gcm_new_at:
  assumes "gcm_sizes key iv"
  obtains g where "gcm_new lib key iv = Some g" "gcm_at lib key iv g []"
  using assms that
  by (auto simp: gcm_new_def gcm_sizes_def aes_gcm_iv_len_def ctr_apply_def gcm_at_def gcm_hashed_def
      gcm_mask_def ghash_holds_start Let_def)

lemma gcm_new_None: "gcm_new lib key iv = None \<longleftrightarrow> \<not> gcm_sizes key iv"
  by (auto simp: gcm_new_def gcm_sizes_def aes_gcm_iv_len_def Let_def split: prod.split)

lemma gcm_new_starts:
  assumes "gcm_new lib key iv = Some g"
  shows "gcm_at lib key iv g []"
proof -
  have "gcm_sizes key iv" using assms gcm_new_None [of lib key iv] by auto
  then obtain g' where "gcm_new lib key iv = Some g'" "gcm_at lib key iv g' []" by (rule gcm_new_at)
  with assms show ?thesis by simp
qed

lemma gcm_absorb_hashed:
  "gcm_hashed lib key iv g ct \<Longrightarrow> gcm_hashed lib key iv (gcm_absorb lib g d) (ct @ d)"
  by (simp add: gcm_hashed_def gcm_absorb_def ghash_update_holds)

lemma gcm_tag_hashed: "gcm_hashed lib key iv g ct \<Longrightarrow> gcm_tag lib g = gcm_tag_of lib key iv ct"
  by (auto simp: gcm_hashed_def gcm_tag_def gcm_tag_of_def Let_def dest: ghash_finalize_holds)

interpretation gcm: absorber "gcm_absorb lib" "gcm_tag lib" "gcm_hashed lib key iv" "gcm_tag_of lib key iv"
  for lib :: "'g gcm_lib" and key iv :: bytes
  by unfold_locales (rule gcm_absorb_hashed gcm_tag_hashed; assumption)+

lemma gcm_decrypt_at:
  assumes "gcm_at lib key iv g ct"
  shows "gcm_decrypt lib g d =
      (xor_stream (keystream lib key (initial_counter iv)) (16 + length ct) d, snd (gcm_decrypt lib g d))
    \<and> gcm_at lib key iv (snd (gcm_decrypt lib g d)) (ct @ d)"
  using assms gcm_absorb_hashed [of lib key iv g ct d]
  by (auto simp: gcm_at_def gcm_decrypt_def ctr_apply_def gcm_hashed_def gcm_absorb_def)

lemma gcm_encrypt_at:
  fixes d :: bytes
  assumes "gcm_at lib key iv g ct"
  defines "c \<equiv> xor_stream (keystream lib key (initial_counter iv)) (16 + length ct) d"
  shows "gcm_encrypt lib g d = (c, snd (gcm_encrypt lib g d))
    \<and> gcm_at lib key iv (snd (gcm_encrypt lib g d)) (ct @ c)"
  using assms gcm_absorb_hashed [of lib key iv g ct c]
  by (auto simp: gcm_at_def gcm_encrypt_def ctr_apply_def gcm_hashed_def gcm_absorb_def Let_def)

text \<open>Runs over a list of chunks.\<close>

fun run_chunks :: "('s \<Rightarrow> bytes \<Rightarrow> bytes \<times> 's) \<Rightarrow> 's \<Rightarrow> bytes list \<Rightarrow> bytes \<times> 's" where
  "run_chunks f s [] = ([], s)"
| "run_chunks f s (d # ds) =
    (let (out, s1) = f s d; (outs, s2) = run_chunks f s1 ds in (out @ outs, s2))"

lemma decrypt_chunks:
  "gcm_at lib key iv g ct \<Longrightarrow>
    fst (run_chunks (gcm_decrypt lib) g ds)
      = xor_stream (keystream lib key (initial_counter iv)) (16 + length ct) (concat ds)
  \<and> gcm_at lib key iv (snd (run_chunks (gcm_decrypt lib) g ds)) (ct @ concat ds)"
proof (induction ds arbitrary: g ct)
  case (Cons d ds)
  obtain out g1 where d: "gcm_decrypt lib g d = (out, g1)" by (cases "gcm_decrypt lib g d")
  from gcm_decrypt_at [OF Cons.prems, of d] d
  have out: "out = xor_stream (keystream lib key (initial_counter iv)) (16 + length ct) d"
    and g1: "gcm_at lib key iv g1 (ct @ d)" by simp_all
  from Cons.IH [OF g1] show ?case
    by (simp add: d out Let_def split_beta xor_stream_append add.assoc)
qed simp

lemma encrypt_chunks:
  fixes ds :: "bytes list"
  assumes "gcm_at lib key iv g ct"
  defines "c \<equiv> xor_stream (keystream lib key (initial_counter iv)) (16 + length ct) (concat ds)"
  shows "fst (run_chunks (gcm_encrypt lib) g ds) = c
    \<and> gcm_at lib key iv (snd (run_chunks (gcm_encrypt lib) g ds)) (ct @ c)"
  unfolding c_def using assms(1)
proof (induction ds arbitrary: g ct)
  case (Cons d ds)
  define x where "x = xor_stream (keystream lib key (initial_counter iv)) (16 + length ct) d"
  obtain out g1 where d: "gcm_encrypt lib g d = (out, g1)" by (cases "gcm_encrypt lib g d")
  from gcm_encrypt_at [OF Cons.prems, of d] d
  have out: "out = x" and g1: "gcm_at lib key iv g1 (ct @ x)" by (simp_all add: x_def)
  have "length x = length d" by (simp add: x_def)
  with Cons.IH [OF g1] show ?case
    by (simp add: d out Let_def split_beta xor_stream_append add.assoc x_def)
qed simp

section \<open>Properties\<close>

definition sample_gcm :: "bytes gcm_lib" where
  "sample_gcm = \<lparr>aes_block = (\<lambda>k b. map2 (+) (take 16 k) b), keystream = (\<lambda>k j i. of_nat (7 * i + 1)),
     ghash_new = (\<lambda>h. h), ghash_block = (\<lambda>g b. map2 (\<lambda>x y. 3 * x + y) g b), ghash_out = (\<lambda>g. g)\<rparr>"

text \<open>
  Whatever pieces a ciphertext is fed in, the tag is the one of the whole ciphertext: the partial block
  that the stream carries between updates never shows.
\<close>

theorem tag_ignores_chunking:
  assumes "gcm_new lib key iv = Some g"
  shows "gcm_tag lib (foldl (gcm_absorb lib) g ds) = gcm_tag_of lib key iv (concat ds)"
proof -
  have "gcm_hashed lib key iv g []" using gcm_new_starts [OF assms] by (simp add: gcm_at_def)
  from gcm.result_chunks [OF this] show ?thesis by simp
qed

theorem tag_ignores_chunking_witness:
  "map_option (\<lambda>g. gcm_tag sample_gcm (foldl (gcm_absorb sample_gcm) g [[1], replicate 20 2, [3]]))
     (gcm_new sample_gcm (replicate 16 5) (replicate 12 9))
   = Some (gcm_tag_of sample_gcm (replicate 16 5) (replicate 12 9) ([1] @ replicate 20 2 @ [3]))"
proof -
  have "gcm_sizes (replicate 16 5) (replicate 12 9)" by (simp add: gcm_sizes_def)
  then obtain g where "gcm_new sample_gcm (replicate 16 5) (replicate 12 9) = Some g"
    by (rule gcm_new_at)
  with tag_ignores_chunking [OF this, of "[[1], replicate 20 2, [3]]"] show ?thesis by simp
qed

text \<open>
  C23. Decryption inverts encryption across any two ways of splitting the stream, and both ends compute the
  same tag, that of the ciphertext.
\<close>

theorem gcm_round_trip:
  assumes "gcm_new lib key iv = Some g"
    and "run_chunks (gcm_encrypt lib) g ds = (ct, g1)" "concat es = ct"
    and "run_chunks (gcm_decrypt lib) g es = (plain, g2)"
  shows "plain = concat ds \<and> length ct = length plain
    \<and> gcm_tag lib g1 = gcm_tag lib g2 \<and> gcm_tag lib g1 = gcm_tag_of lib key iv ct"
proof -
  note g = gcm_new_starts [OF assms(1)]
  from encrypt_chunks [OF g, of ds] assms(2)
  have ct: "ct = xor_stream (keystream lib key (initial_counter iv)) 16 (concat ds)"
    and g1: "gcm_at lib key iv g1 ct" by simp_all
  from decrypt_chunks [OF g, of es] assms(3,4)
  have plain: "plain = xor_stream (keystream lib key (initial_counter iv)) 16 ct"
    and g2: "gcm_at lib key iv g2 ct" by simp_all
  have "gcm_tag lib g1 = gcm_tag_of lib key iv ct" "gcm_tag lib g2 = gcm_tag_of lib key iv ct"
    using g1 g2 gcm_tag_hashed unfolding gcm_at_def by blast+
  moreover have "plain = concat ds" unfolding plain unfolding ct by (rule xor_stream_twice)
  moreover have "length ct = length plain" unfolding plain by (simp only: length_xor_stream)
  ultimately show ?thesis by simp
qed

theorem gcm_round_trip_witness:
  "case gcm_new sample_gcm (replicate 16 5) (replicate 12 9) of
     None \<Rightarrow> False
   | Some g \<Rightarrow> fst (run_chunks (gcm_decrypt sample_gcm) g
        [fst (run_chunks (gcm_encrypt sample_gcm) g [[1, 2], replicate 30 3])])
      = concat [[1, 2], replicate 30 3]"
proof -
  have "gcm_sizes (replicate 16 5) (replicate 12 9)" by (simp add: gcm_sizes_def)
  then obtain g where g: "gcm_new sample_gcm (replicate 16 5) (replicate 12 9) = Some g"
    by (rule gcm_new_at)
  obtain ct g1 where enc: "run_chunks (gcm_encrypt sample_gcm) g [[1, 2], replicate 30 3] = (ct, g1)"
    by (cases "run_chunks (gcm_encrypt sample_gcm) g [[1, 2], replicate 30 3]")
  obtain plain g2 where dec: "run_chunks (gcm_decrypt sample_gcm) g [ct] = (plain, g2)"
    by (cases "run_chunks (gcm_decrypt sample_gcm) g [ct]")
  have "concat [ct] = ct" by simp
  from gcm_round_trip [OF g enc this dec, THEN conjunct1] show ?thesis
    unfolding g option.case enc fst_conv dec .
qed

end
