(* ===== verification/Gcm_Readers.thy ===== *)
theory Gcm_Readers
  imports Gcm
begin

text \<open>
  \<^verbatim>\<open>gcm_verify\<close>, \<^verbatim>\<open>GcmDecryptReader\<close> and \<^verbatim>\<open>GcmEncryptWriter\<close> of \<^verbatim>\<open>src/stream.rs\<close>: the pass that checks a
  tag without keeping plaintext, the reader that releases plaintext and checks the tag again at its
  end, and the writer of the other direction.  Over any source that meets the contract of \<^verbatim>\<open>Read\<close>,
  the verdict is the tag of the member's bytes, and the decrypting reader is itself such a source:
  its data is the plaintext, and its end is clean exactly when the tag still matches.
\<close>

section \<open>The verify pass\<close>

definition verify_buffer :: "nat \<Rightarrow> nat" where
  "verify_buffer ct_len = max (min chunk ct_len) aes_gcm_tag_len"

partial_function (option) gcm_absorb_all ::
    "'g gcm_lib \<Rightarrow> 's reader \<Rightarrow> nat \<Rightarrow> nat \<Rightarrow> 'g gcm_stream \<Rightarrow> 's
      \<Rightarrow> ((io_error + 'g gcm_stream) \<times> 's) option" where
  "gcm_absorb_all lib rd cap left g s =
    (if left = 0 then Some (Inr g, s)
     else (case read_full rd s (min left cap) of
        None \<Rightarrow> None
      | Some (r, s') \<Rightarrow> (case r of
          Inl e \<Rightarrow> Some (Inl e, s')
        | Inr d \<Rightarrow>
            if length d \<noteq> min left cap then Some (Inl UnexpectedEof, s')
            else gcm_absorb_all lib rd cap (left - min left cap) (gcm_absorb lib g d) s')))"

declare gcm_absorb_all.simps [code]

text \<open>The tag at the end of the stream, against the one computed.\<close>

definition read_tag :: "'g gcm_lib \<Rightarrow> 's reader \<Rightarrow> 'g gcm_stream \<Rightarrow> 's \<Rightarrow> ((io_error + bool) \<times> 's) option" where
  "read_tag lib rd g s =
    (case read_full rd s aes_gcm_tag_len of
       None \<Rightarrow> None
     | Some (Inl e, s') \<Rightarrow> Some (Inl e, s')
     | Some (Inr want, s') \<Rightarrow>
         if length want \<noteq> aes_gcm_tag_len then Some (Inl UnexpectedEof, s')
         else Some (Inr (ct_eq (gcm_tag lib g) want), s'))"

definition gcm_verify ::
    "'g gcm_lib \<Rightarrow> 's reader \<Rightarrow> bytes \<Rightarrow> bytes \<Rightarrow> 's \<Rightarrow> nat \<Rightarrow> ((io_error + bool) \<times> 's) option" where
  "gcm_verify lib rd key iv s ct_len =
    (case gcm_new lib key iv of
       None \<Rightarrow> Some (Inl (into_io (FaultInternal ''an AES-GCM key length the screen passed'')), s)
     | Some g \<Rightarrow>
        (case gcm_absorb_all lib rd (verify_buffer ct_len) ct_len g s of
           None \<Rightarrow> None
         | Some (Inl e, s') \<Rightarrow> Some (Inl e, s')
         | Some (Inr g', s') \<Rightarrow> read_tag lib rd g' s'))"

section \<open>The decrypting reader\<close>

text \<open>\<^verbatim>\<open>src\<close>, \<^verbatim>\<open>gcm\<close> and \<^verbatim>\<open>left\<close>.\<close>

type_synonym ('g, 's) gcm_reader = "'s \<times> 'g gcm_stream option \<times> nat"

definition gcm_decrypt_read :: "'g gcm_lib \<Rightarrow> 's reader \<Rightarrow> ('g, 's) gcm_reader reader" where
  "gcm_decrypt_read lib rd = (\<lambda>(s, gcm, left) n.
    if n = 0 then Some (Inr [], (s, gcm, left))
    else if left = 0 then
      (case gcm of
         None \<Rightarrow> Some (Inr [], (s, None, left))
       | Some g \<Rightarrow>
          (case read_tag lib rd g s of
             None \<Rightarrow> None
           | Some (Inl e, s') \<Rightarrow> Some (Inl e, (s', None, left))
           | Some (Inr ok, s') \<Rightarrow>
               if \<not> ok then Some (Inl (into_io FaultChanged), (s', None, left))
               else Some (Inr [], (s', None, left))))
    else
      (case gcm of
         None \<Rightarrow> Some (Inr [], (s, None, left))
       | Some g \<Rightarrow>
          (case rd s (min left n) of
             None \<Rightarrow> None
           | Some (Inl e, s') \<Rightarrow> Some (Inl e, (s', Some g, left))
           | Some (Inr d, s') \<Rightarrow>
               if d = [] then Some (Inl UnexpectedEof, (s', Some g, left))
               else (let (plain, g') = gcm_decrypt lib g d
                     in Some (Inr plain, (s', Some g', left - length d))))))"

section \<open>The encrypting writer\<close>

text \<open>
  Over a destination that takes every byte: \<^verbatim>\<open>write\<close> handles at most a chunk and says how much it took,
  \<^verbatim>\<open>finish\<close> appends the tag.
\<close>

definition gcm_write ::
    "'g gcm_lib \<Rightarrow> 'g gcm_stream \<times> bytes \<Rightarrow> bytes \<Rightarrow> nat \<times> 'g gcm_stream \<times> bytes" where
  "gcm_write lib = (\<lambda>(g, dst) data.
    (let n = min (length data) chunk; (ct, g') = gcm_encrypt lib g (take n data)
     in (n, g', dst @ ct)))"

text \<open>\<^verbatim>\<open>write_all\<close> of the standard library over it.\<close>

function gcm_write_all :: "'g gcm_lib \<Rightarrow> 'g gcm_stream \<times> bytes \<Rightarrow> bytes \<Rightarrow> 'g gcm_stream \<times> bytes" where
  "gcm_write_all lib w data =
    (if data = [] then w
     else (let (n, w') = gcm_write lib w data in gcm_write_all lib w' (drop n data)))"
  by pat_completeness auto
termination
  by (relation "measure (\<lambda>(lib, w, data). length data)")
     (auto simp: gcm_write_def chunk_def Let_def split: prod.splits)

declare gcm_write_all.simps [simp del]

definition gcm_finish :: "'g gcm_lib \<Rightarrow> 'g gcm_stream \<times> bytes \<Rightarrow> bytes" where
  "gcm_finish lib = (\<lambda>(g, dst). dst @ gcm_tag lib g)"

lemma gcm_write_all_at:
  assumes "gcm_at lib key iv g ct"
  defines "c \<equiv> \<lambda>data. xor_stream (keystream lib key (initial_counter iv)) (16 + length ct) data"
  shows "\<exists>g'. gcm_write_all lib (g, dst) data = (g', dst @ c data) \<and> gcm_at lib key iv g' (ct @ c data)"
  unfolding c_def using assms(1)
proof (induction "length data" arbitrary: g dst ct data rule: less_induct)
  case less
  show ?case
  proof (cases "data = []")
    case True
    then show ?thesis using less(2) by (simp add: gcm_write_all.simps)
  next
    case False
    define n where "n = min (length data) chunk"
    have pos: "0 < n" using False by (simp add: n_def chunk_def)
    then have shorter: "length (drop n data) < length data" using False by (simp add: n_def)
    define x where "x = xor_stream (keystream lib key (initial_counter iv)) (16 + length ct) (take n data)"
    have lx: "length x = n" by (simp add: x_def n_def)
    obtain g1 where enc: "gcm_encrypt lib g (take n data) = (x, g1)" "gcm_at lib key iv g1 (ct @ x)"
      using gcm_encrypt_at [OF less(2), of "take n data"] by (auto simp: x_def)
    have step: "gcm_write_all lib (g, dst) data = gcm_write_all lib (g1, dst @ x) (drop n data)"
      using False enc(1)
      by (subst gcm_write_all.simps) (simp add: gcm_write_def Let_def flip: n_def)
    have join: "x @ xor_stream (keystream lib key (initial_counter iv)) (16 + length (ct @ x)) (drop n data)
      = xor_stream (keystream lib key (initial_counter iv)) (16 + length ct) data"
      using xor_stream_append [of "keystream lib key (initial_counter iv)" "16 + length ct" "take n data"
          "drop n data"] lx
      by (simp add: x_def n_def add.assoc)
    from less(1) [OF shorter enc(2), of "dst @ x"] show ?thesis
      unfolding step append_assoc join .
  qed
qed

section \<open>Over a source\<close>

locale gcm_over_source = source rd good content fate patience
  for rd :: "'s reader" and good :: "'s \<Rightarrow> bool" and content :: "'s \<Rightarrow> bytes"
    and fate :: "'s \<Rightarrow> io_error option" and patience :: "'s \<Rightarrow> nat"
  + fixes lib :: "'g gcm_lib"
begin

text \<open>The end of a source that was expected to go on.\<close>

definition cut :: "'s \<Rightarrow> io_error" where
  "cut s = (case fate s of None \<Rightarrow> UnexpectedEof | Some e \<Rightarrow> e)"

lemma read_exact:
  assumes "good s" "n \<le> length (content s)"
  obtains s' where "read_full rd s n = Some (Inr (take n (content s)), s')" "good s'"
    "content s' = drop n (content s)" "fate s' = fate s" "patience s' \<le> patience s"
proof -
  have d: "delivered s n = Inr (take n (content s))" using assms(2) by (simp add: delivered_def)
  obtain s' where s': "read_full rd s n = Some (Inr (take n (content s)), s')" "good s'"
    "content s = take n (content s) @ content s'" "fate s' = fate s" "patience s' \<le> patience s"
    by (rule read_full_delivers [OF assms(1) d])
  have "content s' = drop n (content s)"
    using s'(3) assms(2) append_eq_conv_conj [of "take n (content s)" "content s'" "content s"] by simp
  with s' that show thesis by blast
qed

lemma read_short:
  assumes "good s" "length (content s) < n"
  obtains s' where "read_full rd s n
    = Some (case fate s of None \<Rightarrow> Inr (content s) | Some e \<Rightarrow> Inl e, s')"
proof (cases "fate s")
  case None
  then have d: "delivered s n = Inr (content s)" using assms(2) by (simp add: delivered_def)
  obtain s' where "read_full rd s n = Some (Inr (content s), s')"
    by (rule read_full_delivers [OF assms(1) d])
  with None that show thesis by simp
next
  case (Some e)
  then have d: "delivered s n = Inl e" using assms(2) by (simp add: delivered_def)
  obtain s' where "read_full rd s n = Some (Inl e, s')" by (rule read_full_fails [OF assms(1) d])
  with Some that show thesis by simp
qed

lemma absorb_all_result:
  assumes "good s" "0 < cap" "gcm_hashed lib key iv g bs"
  shows "(left \<le> length (content s) \<longrightarrow>
      (\<exists>g' s'. gcm_absorb_all lib rd cap left g s = Some (Inr g', s') \<and> good s'
        \<and> content s' = drop left (content s) \<and> fate s' = fate s
        \<and> gcm_hashed lib key iv g' (bs @ take left (content s))))
    \<and> (length (content s) < left \<longrightarrow> (\<exists>s'. gcm_absorb_all lib rd cap left g s = Some (Inl (cut s), s')))"
  using assms(1,3)
proof (induction left arbitrary: s g bs rule: less_induct)
  case (less left)
  show ?case
  proof (cases "left = 0")
    case True
    then show ?thesis using less(2,3) by (subst (1 2) gcm_absorb_all.simps) simp
  next
    case False
    define n where "n = min left cap"
    have n: "0 < n" "n \<le> left" using False assms(2) by (simp_all add: n_def)
    show ?thesis
    proof (cases "n \<le> length (content s)")
      case True
      obtain s1 where s1: "read_full rd s n = Some (Inr (take n (content s)), s1)" "good s1"
        "content s1 = drop n (content s)" "fate s1 = fate s"
        by (rule read_exact [OF less(2) True])
      have step: "gcm_absorb_all lib rd cap left g s
          = gcm_absorb_all lib rd cap (left - n) (gcm_absorb lib g (take n (content s))) s1"
        using False s1(1) True by (subst gcm_absorb_all.simps) (simp flip: n_def)
      have cut: "cut s1 = cut s" using s1(4) by (simp add: cut_def)
      have "left - n < left" using n by simp
      note ih = less(1) [OF this s1(2) gcm_absorb_hashed [OF less(3), of "take n (content s)"]]
      show ?thesis
        using ih n unfolding step cut s1(3,4) append_assoc
        by (simp add: True take_add [symmetric] less_diff_conv2 flip: take_add)
    next
      case short: False
      then have lt: "length (content s) < left" using n by simp
      obtain s' where s': "read_full rd s n
          = Some (case fate s of None \<Rightarrow> Inr (content s) | Some e \<Rightarrow> Inl e, s')"
        by (rule read_short [OF less(2) short [unfolded not_le]])
      have "gcm_absorb_all lib rd cap left g s = Some (Inl (cut s), s')"
        using False s' short
        by (cases "fate s") (simp_all add: gcm_absorb_all.simps [of lib rd cap left] cut_def flip: n_def)
      then show ?thesis using lt by auto
    qed
  qed
qed

lemma cut_final: "good s \<Longrightarrow> cut s \<noteq> Interrupted"
  using final [of s] by (auto simp: cut_def split: option.split)

lemma read_tag_full:
  assumes "good s" "gcm_hashed lib key iv g bs" "16 \<le> length (content s)"
  obtains s' where "read_tag lib rd g s = Some (Inr (gcm_tag_of lib key iv bs = take 16 (content s)), s')"
    "good s'" "content s' = drop 16 (content s)" "fate s' = fate s" "patience s' \<le> patience s"
proof -
  obtain s' where s': "read_full rd s 16 = Some (Inr (take 16 (content s)), s')" "good s'"
    "content s' = drop 16 (content s)" "fate s' = fate s" "patience s' \<le> patience s"
    by (rule read_exact [OF assms(1,3)])
  have "read_tag lib rd g s = Some (Inr (gcm_tag_of lib key iv bs = take 16 (content s)), s')"
    using s'(1) assms(3) gcm_tag_hashed [OF assms(2)]
    by (simp add: read_tag_def aes_gcm_tag_len_def ct_eq_iff)
  with s' that show thesis by blast
qed

lemma read_tag_short:
  assumes "good s" "length (content s) < 16"
  obtains s' where "read_tag lib rd g s = Some (Inl (cut s), s')"
proof -
  obtain s' where s': "read_full rd s 16
      = Some (case fate s of None \<Rightarrow> Inr (content s) | Some e \<Rightarrow> Inl e, s')"
    by (rule read_short [OF assms])
  have "read_tag lib rd g s = Some (Inl (cut s), s')"
    using s' assms(2) by (cases "fate s") (simp_all add: read_tag_def aes_gcm_tag_len_def cut_def)
  with that show thesis .
qed

lemma verify_buffer_pos: "0 < verify_buffer n"
  by (simp add: verify_buffer_def aes_gcm_tag_len_def)

text \<open>The verdict of the verify pass: the tag of the member's bytes, or how the member was cut short.\<close>

lemma gcm_verify_full:
  assumes "good s" "gcm_sizes key iv" "ct_len + 16 \<le> length (content s)"
  obtains s' where "gcm_verify lib rd key iv s ct_len
      = Some (Inr (gcm_tag_of lib key iv (take ct_len (content s)) = take 16 (drop ct_len (content s))), s')"
    "good s'" "content s' = drop (ct_len + 16) (content s)" "fate s' = fate s"
proof -
  have le: "ct_len \<le> length (content s)" using assms(3) by simp
  obtain g where g: "gcm_new lib key iv = Some g" "gcm_hashed lib key iv g []"
    using gcm_new_at [OF assms(2), of lib] by (auto simp: gcm_at_def)
  obtain g1 s1 where s1: "gcm_absorb_all lib rd (verify_buffer ct_len) ct_len g s = Some (Inr g1, s1)"
    "good s1" "content s1 = drop ct_len (content s)" "fate s1 = fate s"
    "gcm_hashed lib key iv g1 ([] @ take ct_len (content s))"
    using absorb_all_result [OF assms(1) verify_buffer_pos [of ct_len] g(2), THEN conjunct1, THEN mp, OF le]
    by blast
  note hashed = s1(5) [unfolded append_Nil]
  have enough: "16 \<le> length (content s1)" using s1(3) assms(3) by simp
  obtain s2 where s2: "read_tag lib rd g1 s1
      = Some (Inr (gcm_tag_of lib key iv (take ct_len (content s)) = take 16 (content s1)), s2)"
    "good s2" "content s2 = drop 16 (content s1)" "fate s2 = fate s1"
    by (rule read_tag_full [OF s1(2) hashed enough])
  have "gcm_verify lib rd key iv s ct_len
      = Some (Inr (gcm_tag_of lib key iv (take ct_len (content s)) = take 16 (drop ct_len (content s))), s2)"
    using g(1) s1(1,3) s2(1) by (simp add: gcm_verify_def)
  moreover have "content s2 = drop (ct_len + 16) (content s)"
    using s1(3) s2(3) by (simp add: add.commute)
  ultimately show thesis using s2(2,4) s1(4) that by simp
qed

lemma gcm_verify_short:
  assumes "good s" "gcm_sizes key iv" "length (content s) < ct_len + 16"
  obtains s' where "gcm_verify lib rd key iv s ct_len = Some (Inl (cut s), s')"
proof -
  obtain g where g: "gcm_new lib key iv = Some g" "gcm_hashed lib key iv g []"
    using gcm_new_at [OF assms(2), of lib] by (auto simp: gcm_at_def)
  note all = absorb_all_result [OF assms(1) verify_buffer_pos g(2), of ct_len ct_len]
  show thesis
  proof (cases "ct_len \<le> length (content s)")
    case True
    obtain g1 s1 where s1: "gcm_absorb_all lib rd (verify_buffer ct_len) ct_len g s = Some (Inr g1, s1)"
      "good s1" "content s1 = drop ct_len (content s)" "fate s1 = fate s"
      "gcm_hashed lib key iv g1 ([] @ take ct_len (content s))"
      using all [THEN conjunct1, THEN mp, OF True] by blast
    have short: "length (content s1) < 16" using s1(3) assms(3) by simp
    obtain s2 where "read_tag lib rd g1 s1 = Some (Inl (cut s1), s2)"
      by (rule read_tag_short [OF s1(2) short])
    moreover have "cut s1 = cut s" using s1(4) by (simp add: cut_def)
    ultimately have "gcm_verify lib rd key iv s ct_len = Some (Inl (cut s), s2)"
      using g(1) s1(1) by (simp add: gcm_verify_def)
    then show thesis by (rule that)
  next
    case False
    then obtain s1 where "gcm_absorb_all lib rd (verify_buffer ct_len) ct_len g s = Some (Inl (cut s), s1)"
      using all by auto
    with g(1) have "gcm_verify lib rd key iv s ct_len = Some (Inl (cut s), s1)"
      by (simp add: gcm_verify_def)
    then show thesis by (rule that)
  qed
qed

text \<open>The decrypting reader as a source.\<close>

definition dec_good :: "('g, 's) gcm_reader \<Rightarrow> bool" where
  "dec_good r = (case r of (s, gcm, left) \<Rightarrow>
    good s \<and> (case gcm of None \<Rightarrow> True | Some g \<Rightarrow> \<exists>key iv ct. gcm_at lib key iv g ct))"

definition dec_content :: "('g, 's) gcm_reader \<Rightarrow> bytes" where
  "dec_content r = (case r of (s, gcm, left) \<Rightarrow> (case gcm of
      None \<Rightarrow> []
    | Some g \<Rightarrow> xor_stream (keystream lib (gm_key g) (gm_j0 g)) (gm_pos g) (take left (content s))))"

definition dec_fate :: "('g, 's) gcm_reader \<Rightarrow> io_error option" where
  "dec_fate r = (case r of (s, gcm, left) \<Rightarrow> (case gcm of
      None \<Rightarrow> None
    | Some g \<Rightarrow>
        if left + 16 \<le> length (content s) then
          (if gcm_tag lib (gcm_absorb lib g (take left (content s))) = take 16 (drop left (content s))
           then None else Some (into_io FaultChanged))
        else Some (cut s)))"

definition dec_patience :: "('g, 's) gcm_reader \<Rightarrow> nat" where
  "dec_patience r = patience (fst r)"

lemma tag_at: "gcm_at lib key iv g ct \<Longrightarrow> gcm_tag lib (gcm_absorb lib g d) = gcm_tag_of lib key iv (ct @ d)"
  using gcm_absorb_hashed gcm_tag_hashed unfolding gcm_at_def by blast

text \<open>One read while ciphertext is left, and the read that checks the tag.\<close>

lemma dec_read_data:
  assumes g: "gcm_at lib key iv g ct" and "good s" "0 < left" "0 < n"
    and rd: "rd s (min left n) = Some (Inr d, s')" "d \<noteq> []"
  shows "\<exists>g'. gcm_decrypt_read lib rd (s, Some g, left) n
      = Some (Inr (fst (gcm_decrypt lib g d)), (s', Some g', left - length d))
    \<and> dec_good (s', Some g', left - length d)
    \<and> dec_content (s, Some g, left)
        = fst (gcm_decrypt lib g d) @ dec_content (s', Some g', left - length d)
    \<and> dec_fate (s', Some g', left - length d) = dec_fate (s, Some g, left)
    \<and> length (fst (gcm_decrypt lib g d)) \<le> n"
proof -
  have pos: "0 < min left n" using assms by simp
  note law = data [OF assms(2) pos rd(1)]
  have c: "content s = d @ content s'" and le: "length d \<le> left" "length d \<le> n" using law by auto
  define g' where "g' = snd (gcm_decrypt lib g d)"
  have dec: "gcm_decrypt lib g d
      = (xor_stream (keystream lib key (initial_counter iv)) (16 + length ct) d, g')"
    and g': "gcm_at lib key iv g' (ct @ d)"
    using gcm_decrypt_at [OF g, of d] by (simp_all add: g'_def)
  have take: "take left (content s) = d @ take (left - length d) (content s')"
    using le by (simp add: c)
  have "gcm_decrypt_read lib rd (s, Some g, left) n
      = Some (Inr (fst (gcm_decrypt lib g d)), (s', Some g', left - length d))"
    using assms(3,4) rd by (simp add: gcm_decrypt_read_def dec)
  moreover have "dec_good (s', Some g', left - length d)"
    using law g' by (auto simp: dec_good_def)
  moreover have "dec_content (s, Some g, left)
        = fst (gcm_decrypt lib g d) @ dec_content (s', Some g', left - length d)"
    using g g'
    by (simp add: dec_content_def gcm_at_def gcm_hashed_def take xor_stream_append dec add.assoc)
  moreover have "dec_fate (s', Some g', left - length d) = dec_fate (s, Some g, left)"
  proof -
    have "left + 16 - length d \<le> length (content s')
        \<longleftrightarrow> left + 16 \<le> length d + length (content s')" using le by linarith
    then show ?thesis using le law by (simp add: dec_fate_def c tag_at [OF g] tag_at [OF g'] cut_def)
  qed
  moreover have "length (fst (gcm_decrypt lib g d)) \<le> n" using le by (simp add: dec)
  ultimately show ?thesis by blast
qed

lemma dec_read_tag:
  assumes g: "gcm_at lib key iv g ct" and "good s" "0 < n"
  shows "\<exists>r s'. gcm_decrypt_read lib rd (s, Some g, 0) n = Some (r, (s', None, 0))
    \<and> (case dec_fate (s, Some g, 0) of
         None \<Rightarrow> r = Inr [] \<and> good s' \<and> patience s' \<le> patience s
       | Some e \<Rightarrow> r = Inl e)"
proof (cases "16 \<le> length (content s)")
  case True
  have h: "gcm_hashed lib key iv g ct" using g by (simp add: gcm_at_def)
  obtain s' where s': "read_tag lib rd g s = Some (Inr (gcm_tag_of lib key iv ct = take 16 (content s)), s')"
    "good s'" "patience s' \<le> patience s"
    by (rule read_tag_full [OF assms(2) h True])
  show ?thesis
    using True s' assms(3) tag_at [OF g, of "[]"]
    by (auto simp: gcm_decrypt_read_def dec_fate_def)
next
  case False
  then have short: "length (content s) < 16" by simp
  obtain s' where "read_tag lib rd g s = Some (Inl (cut s), s')"
    by (rule read_tag_short [OF assms(2) short])
  with False assms(3) show ?thesis by (auto simp: gcm_decrypt_read_def dec_fate_def)
qed

lemma dec_read_none:
  "0 < n \<Longrightarrow> gcm_decrypt_read lib rd (s, None, left) n = Some (Inr [], (s, None, left))"
  by (simp add: gcm_decrypt_read_def)

lemma dec_read_left:
  "0 < n \<Longrightarrow> 0 < left \<Longrightarrow> gcm_decrypt_read lib rd (s, Some g, left) n =
    (case rd s (min left n) of
       None \<Rightarrow> None
     | Some (Inl e, s') \<Rightarrow> Some (Inl e, (s', Some g, left))
     | Some (Inr d, s') \<Rightarrow>
         if d = [] then Some (Inl UnexpectedEof, (s', Some g, left))
         else (let (plain, g') = gcm_decrypt lib g d
               in Some (Inr plain, (s', Some g', left - length d))))"
  by (simp add: gcm_decrypt_read_def)

lemma dec_fate_cut: "0 < left \<Longrightarrow> content s = [] \<Longrightarrow> dec_fate (s, Some g, left) = Some (cut s)"
  by (simp add: dec_fate_def)

text \<open>Every way one call can go.\<close>

lemma dec_read_cases:
  assumes "dec_good r" "0 < n"
  obtains (data) d r' where "gcm_decrypt_read lib rd r n = Some (Inr d, r')" "dec_good r'"
      "dec_content r = d @ dec_content r'" "dec_fate r' = dec_fate r" "length d \<le> n"
      "dec_patience r' \<le> dec_patience r" "d = [] \<Longrightarrow> dec_content r = [] \<and> dec_fate r = None"
  | (interrupted) r' where "gcm_decrypt_read lib rd r n = Some (Inl Interrupted, r')" "dec_good r'"
      "dec_content r' = dec_content r" "dec_fate r' = dec_fate r" "dec_patience r' < dec_patience r"
  | (fails) e r' where "gcm_decrypt_read lib rd r n = Some (Inl e, r')" "e \<noteq> Interrupted"
      "dec_content r = []" "dec_fate r = Some e"
proof -
  obtain s gcm left where r: "r = (s, gcm, left)" by (cases r)
  have good: "good s" using assms(1) by (simp add: r dec_good_def)
  show thesis
  proof (cases gcm)
    case None
    show thesis
      by (rule data [of "[]" r])
         (use assms None in \<open>simp_all add: r dec_read_none dec_content_def dec_fate_def\<close>)
  next
    case (Some g)
    then obtain key iv ct where g: "gcm_at lib key iv g ct"
      using assms(1) by (auto simp: r dec_good_def)
    show thesis
    proof (cases "left = 0")
      case True
      obtain q s' where q: "gcm_decrypt_read lib rd (s, Some g, 0) n = Some (q, (s', None, 0))"
        "case dec_fate (s, Some g, 0) of
           None \<Rightarrow> q = Inr [] \<and> good s' \<and> patience s' \<le> patience s | Some e \<Rightarrow> q = Inl e"
        using dec_read_tag [OF g good assms(2)] by blast
      show thesis
      proof (cases "dec_fate (s, Some g, 0)")
        case None
        show thesis
          by (rule data [of "[]" "(s', None, 0)"])
             (use q None Some True in \<open>simp_all add: r dec_good_def dec_content_def dec_patience_def
                dec_fate_def [of "(s', None, 0)"]\<close>)
      next
        case (Some e)
        have "e \<noteq> Interrupted"
          using Some cut_final [OF good] by (auto simp: dec_fate_def split: if_splits)
        then show thesis
          by (intro fails [of e "(s', None, 0)"])
             (use q Some \<open>gcm = Some g\<close> True in \<open>simp_all add: r dec_content_def\<close>)
      qed
    next
      case False
      then have pos: "0 < left" "0 < min left n" using assms(2) by simp_all
      obtain q s' where q: "rd s (min left n) = Some (q, s')" using returns [OF good pos(2)] by blast
      note read = dec_read_left [OF assms(2) pos(1), of s g]
      show thesis
      proof (cases q)
        case (Inl e)
        show thesis
        proof (cases "e = Interrupted")
          case True
          note law = source.interrupted [OF source_axioms good pos(2) q [unfolded Inl True]]
          show thesis
            by (rule interrupted [of "(s', Some g, left)"])
               (use law Some g q Inl True in \<open>auto simp: r read dec_good_def dec_content_def dec_fate_def
                  dec_patience_def cut_def\<close>)
        next
          case False
          note law = source.fails [OF source_axioms good pos(2) q [unfolded Inl] False]
          show thesis
            by (rule fails [of e "(s', Some g, left)"])
               (use law Some q Inl False pos in \<open>simp_all add: r read dec_content_def dec_fate_cut cut_def\<close>)
        qed
      next
        case (Inr d)
        note law = source.data [OF source_axioms good pos(2) q [unfolded Inr]]
        show thesis
        proof (cases "d = []")
          case True
          then have "content s = []" "fate s = None" using law by auto
          then show thesis
            by (intro fails [of UnexpectedEof "(s', Some g, left)"])
               (use Some q Inr True pos in \<open>simp_all add: r read dec_content_def dec_fate_cut cut_def\<close>)
        next
          case False
          obtain g' where step: "gcm_decrypt_read lib rd (s, Some g, left) n
                = Some (Inr (fst (gcm_decrypt lib g d)), (s', Some g', left - length d))"
              "dec_good (s', Some g', left - length d)"
              "dec_content (s, Some g, left)
                = fst (gcm_decrypt lib g d) @ dec_content (s', Some g', left - length d)"
              "dec_fate (s', Some g', left - length d) = dec_fate (s, Some g, left)"
              "length (fst (gcm_decrypt lib g d)) \<le> n"
            using dec_read_data [OF g good pos(1) assms(2) q [unfolded Inr] False] by blast
          have "fst (gcm_decrypt lib g d) \<noteq> []"
            using False gcm_decrypt_at [OF g, of d] length_xor_stream
            by (metis fst_conv length_0_conv)
          then show thesis
            by (intro data [of "fst (gcm_decrypt lib g d)" "(s', Some g', left - length d)"])
               (use step Some law in \<open>simp_all add: r dec_patience_def\<close>)
        qed
      qed
    qed
  qed
qed

sublocale dec: source "gcm_decrypt_read lib rd" dec_good dec_content dec_fate dec_patience
proof unfold_locales
  fix r :: "('g, 's) gcm_reader" and n :: nat
  assume "dec_good r" "0 < n"
  then show "\<exists>q r'. gcm_decrypt_read lib rd r n = Some (q, r')"
    by (cases rule: dec_read_cases) blast+
next
  fix r r' :: "('g, 's) gcm_reader" and n :: nat and d
  assume "dec_good r" "0 < n" "gcm_decrypt_read lib rd r n = Some (Inr d, r')"
  then show "dec_good r' \<and> dec_content r = d @ dec_content r' \<and> dec_fate r' = dec_fate r
      \<and> length d \<le> n \<and> dec_patience r' \<le> dec_patience r
      \<and> (d = [] \<longrightarrow> dec_content r = [] \<and> dec_fate r = None)"
    by (cases rule: dec_read_cases) auto
next
  fix r r' :: "('g, 's) gcm_reader" and n :: nat
  assume "dec_good r" "0 < n" "gcm_decrypt_read lib rd r n = Some (Inl Interrupted, r')"
  then show "dec_good r' \<and> dec_content r' = dec_content r \<and> dec_fate r' = dec_fate r
      \<and> dec_patience r' < dec_patience r"
    by (cases rule: dec_read_cases) auto
next
  fix r r' :: "('g, 's) gcm_reader" and n :: nat and e
  assume "dec_good r" "0 < n" "gcm_decrypt_read lib rd r n = Some (Inl e, r')" "e \<noteq> Interrupted"
  then show "dec_content r = [] \<and> dec_fate r = Some e"
    by (cases rule: dec_read_cases) auto
next
  fix r :: "('g, 's) gcm_reader"
  assume "dec_good r"
  then show "dec_fate r \<noteq> Some Interrupted"
    using cut_final by (auto simp: dec_fate_def dec_good_def split: prod.splits option.splits)
qed

end

interpretation gsegs: gcm_over_source read_segments segments_good segments_content segments_fate
    segments_patience lib
  for lib :: "'g gcm_lib"
  by (rule gcm_over_source.intro) (rule segs.source_axioms)

section \<open>Properties\<close>

text \<open>The plaintext and the end of a decrypting reader that starts on a member's ciphertext.\<close>

lemma dec_start:
  assumes "gcm_new lib key iv = Some g" "segments_good ss"
  shows "gsegs.dec_good lib (ss, Some g, n)"
    and "gsegs.dec_content lib (ss, Some g, n) = gcm_crypt lib key iv (take n (segments_content ss))"
    and "n + 16 \<le> length (segments_content ss) \<Longrightarrow>
      gsegs.dec_fate lib (ss, Some g, n) =
        (if gcm_tag_of lib key iv (take n (segments_content ss)) = take 16 (drop n (segments_content ss))
         then None else Some (into_io FaultChanged))"
proof -
  note g = gcm_new_starts [OF assms(1)]
  show "gsegs.dec_good lib (ss, Some g, n)"
    using g assms(2) by (auto simp: gsegs.dec_good_def)
  show "gsegs.dec_content lib (ss, Some g, n) = gcm_crypt lib key iv (take n (segments_content ss))"
    using g by (simp add: gsegs.dec_content_def gcm_crypt_def gcm_at_def gcm_hashed_def)
  show "gsegs.dec_fate lib (ss, Some g, n) =
        (if gcm_tag_of lib key iv (take n (segments_content ss)) = take 16 (drop n (segments_content ss))
         then None else Some (into_io FaultChanged))"
    if "n + 16 \<le> length (segments_content ss)"
    using that gsegs.tag_at [OF g] by (simp add: gsegs.dec_fate_def)
qed

text \<open>
  C21. The verify pass returns on every reader, however it delivers its bytes, and its verdict is whether the
  16 bytes after the ciphertext are the ciphertext's tag; a member that is cut short is an error,
  never a verdict.
\<close>

theorem verify_verdict:
  assumes "segments_good ss" "gcm_sizes key iv"
  shows "\<exists>ss'. gcm_verify lib read_segments key iv ss ct_len = Some
    (if ct_len + 16 \<le> length (segments_content ss)
     then Inr (gcm_tag_of lib key iv (take ct_len (segments_content ss))
                 = take 16 (drop ct_len (segments_content ss)))
     else Inl (case segments_fate ss of None \<Rightarrow> UnexpectedEof | Some e \<Rightarrow> e), ss')"
proof (cases "ct_len + 16 \<le> length (segments_content ss)")
  case True
  obtain ss' where "gcm_verify lib read_segments key iv ss ct_len = Some
     (Inr (gcm_tag_of lib key iv (take ct_len (segments_content ss))
                 = take 16 (drop ct_len (segments_content ss))), ss')"
    by (rule gsegs.gcm_verify_full [OF assms True])
  then show ?thesis using True by auto
next
  case False
  then have short: "length (segments_content ss) < ct_len + 16" by simp
  obtain ss' where "gcm_verify lib read_segments key iv ss ct_len
     = Some (Inl (case segments_fate ss of None \<Rightarrow> UnexpectedEof | Some e \<Rightarrow> e), ss')"
    by (rule gsegs.gcm_verify_short [OF assms short, unfolded gsegs.cut_def])
  then show ?thesis using False by auto
qed

theorem verify_verdict_witness:
  "\<exists>ss'. gcm_verify sample_gcm read_segments (replicate 16 5) (replicate 12 9)
      [Data [1, 2], Interrupt, Data [3]] 3 = Some (Inl UnexpectedEof, ss')"
proof -
  have "segments_good [Data [1, 2], Interrupt, Data [3]]" "gcm_sizes (replicate 16 5) (replicate 12 9)"
    by (simp_all add: gcm_sizes_def)
  from verify_verdict [OF this, of sample_gcm 3] show ?thesis by simp
qed

text \<open>
  C20. The decrypting reader releases the plaintext and nothing else: a reader of it gets a prefix of the
  plaintext while ciphertext is left, and reaches the end only if the tag matches again; otherwise
  the read that would have reported the end reports a changed input.
\<close>

theorem decrypt_reader_releases_plaintext:
  assumes "gcm_new lib key iv = Some g" "segments_good ss" "ct_len + 16 \<le> length (segments_content ss)"
  defines "ct \<equiv> take ct_len (segments_content ss)"
  shows "\<exists>r. read_full (gcm_decrypt_read lib read_segments) (ss, Some g, ct_len) n = Some
    (if n \<le> ct_len then Inr (take n (gcm_crypt lib key iv ct))
     else if gcm_tag_of lib key iv ct = take 16 (drop ct_len (segments_content ss))
     then Inr (gcm_crypt lib key iv ct) else Inl (into_io FaultChanged), r)"
proof -
  have len: "length (gcm_crypt lib key iv ct) = ct_len"
    using assms(3) by (simp add: gcm_crypt_def ct_def)
  define r where "r = (ss, Some g, ct_len)"
  have start: "gsegs.dec_good lib r" "gsegs.dec_content lib r = gcm_crypt lib key iv ct"
    "gsegs.dec_fate lib r = (if gcm_tag_of lib key iv ct = take 16 (drop ct_len (segments_content ss))
         then None else Some (into_io FaultChanged))"
    unfolding r_def using dec_start [OF assms(1,2)] assms(3) by (simp_all add: ct_def)
  have goal: "gsegs.dec.delivered lib r n =
    (if n \<le> ct_len then Inr (take n (gcm_crypt lib key iv ct))
     else if gcm_tag_of lib key iv ct = take 16 (drop ct_len (segments_content ss))
     then Inr (gcm_crypt lib key iv ct) else Inl (into_io FaultChanged))"
    by (simp add: gsegs.dec.delivered_def start len)
  show ?thesis
  proof (cases "gsegs.dec.delivered lib r n")
    case (Inr d)
    obtain r' where "read_full (gcm_decrypt_read lib read_segments) r n = Some (Inr d, r')"
      by (rule gsegs.dec.read_full_delivers [OF start(1) Inr])
    then show ?thesis unfolding goal [symmetric] r_def [symmetric] Inr by blast
  next
    case (Inl e)
    obtain r' where "read_full (gcm_decrypt_read lib read_segments) r n = Some (Inl e, r')"
      by (rule gsegs.dec.read_full_fails [OF start(1) Inl])
    then show ?thesis unfolding goal [symmetric] r_def [symmetric] Inl by blast
  qed
qed

theorem decrypt_reader_witness:
  "\<exists>g r. gcm_new sample_gcm (replicate 16 5) (replicate 12 9) = Some g
    \<and> read_full (gcm_decrypt_read sample_gcm read_segments)
        ([Data [1, 2], Interrupt, Data (replicate 17 3)], Some g, 3) 2
      = Some (Inr (take 2 (gcm_crypt sample_gcm (replicate 16 5) (replicate 12 9) [1, 2, 3])), r)"
proof -
  have "gcm_sizes (replicate 16 5) (replicate 12 9)" by (simp add: gcm_sizes_def)
  then obtain g where g: "gcm_new sample_gcm (replicate 16 5) (replicate 12 9) = Some g"
    by (rule gcm_new_at)
  have ss: "segments_good [Data [1, 2], Interrupt, Data (replicate 17 3)]"
    "3 + 16 \<le> length (segments_content [Data [1, 2], Interrupt, Data (replicate 17 3)])" by simp_all
  have ct: "take 3 (segments_content [Data [1, 2], Interrupt, Data (replicate 17 3)]) = [1, 2, 3]"
    by (simp add: numeral_3_eq_3)
  have two: "(2::nat) \<le> 3" by simp
  from decrypt_reader_releases_plaintext [OF g ss, of 2, unfolded ct if_P [OF two]] g
  show ?thesis by blast
qed

text \<open>
  C22. What the encrypting writer writes, the verify pass accepts under the same key and the decrypting reader
  turns back into what was written, whatever the sizes of the writes, reads and chunks.
\<close>

theorem writer_reader_round_trip:
  assumes "gcm_new lib key iv = Some g" "\<forall>h. length (ghash_out lib h) = 16"
    and "segments_good ss" "segments_content ss = gcm_finish lib (gcm_write_all lib (g, []) data)"
    and "length data < n"
  shows "(\<exists>ss'. gcm_verify lib read_segments key iv ss (length data) = Some (Inr True, ss'))
    \<and> (\<exists>r. read_full (gcm_decrypt_read lib read_segments) (ss, Some g, length data) n = Some (Inr data, r))"
proof -
  note g = gcm_new_starts [OF assms(1)]
  define ct where "ct = gcm_crypt lib key iv data"
  obtain g' where g': "gcm_write_all lib (g, []) data = (g', ct)" "gcm_at lib key iv g' ct"
    using gcm_write_all_at [OF g, of "[]" data] by (auto simp: ct_def gcm_crypt_def)
  define tag where "tag = gcm_tag_of lib key iv ct"
  have content: "segments_content ss = ct @ tag"
    using assms(4) g' gcm_tag_hashed [of lib key iv g' ct] by (simp add: gcm_finish_def tag_def gcm_at_def)
  have len: "length ct = length data" "length tag = 16"
    using assms(2) by (simp_all add: ct_def gcm_crypt_def tag_def gcm_tag_of_def Let_def gcm_mask_def ghash_of_def)
  have enough: "length data + 16 \<le> length (segments_content ss)" by (simp add: content len)
  have parts: "take (length data) (segments_content ss) = ct"
    "take 16 (drop (length data) (segments_content ss)) = tag" by (simp_all add: content len)
  have plain: "gcm_crypt lib key iv ct = data" unfolding ct_def gcm_crypt_def by (rule xor_stream_twice)
  have sizes: "gcm_sizes key iv" using assms(1) gcm_new_None [of lib key iv] by auto
  obtain ss' where "gcm_verify lib read_segments key iv ss (length data)
      = Some (Inr (gcm_tag_of lib key iv ct = tag), ss')"
    by (rule gsegs.gcm_verify_full [OF assms(3) sizes enough, unfolded parts])
  then have "gcm_verify lib read_segments key iv ss (length data) = Some (Inr True, ss')"
    by (simp add: tag_def)
  moreover obtain r where "read_full (gcm_decrypt_read lib read_segments) (ss, Some g, length data) n
      = Some (Inr (gcm_crypt lib key iv ct), r)"
  proof -
    define r0 where "r0 = (ss, Some g, length data)"
    have start: "gsegs.dec_good lib r0" "gsegs.dec_content lib r0 = gcm_crypt lib key iv ct"
      "gsegs.dec_fate lib r0 = None"
      unfolding r0_def using dec_start [OF assms(1,3)] enough by (simp_all add: parts tag_def)
    have "gsegs.dec.delivered lib r0 n = Inr (gcm_crypt lib key iv ct)"
      using assms(5) by (simp add: gsegs.dec.delivered_def start plain)
    then show thesis using gsegs.dec.read_full_delivers [OF start(1)] that unfolding r0_def by blast
  qed
  ultimately show ?thesis unfolding plain by blast
qed

definition wide_gcm :: "nat gcm_lib" where
  "wide_gcm = \<lparr>aes_block = (\<lambda>k b. take 16 k), keystream = (\<lambda>k j i. of_nat (7 * i + 1)),
     ghash_new = le_value, ghash_block = (\<lambda>g b. (3 * g + le_value b) mod 2 ^ 128),
     ghash_out = le_bytes 16\<rparr>"

theorem writer_reader_witness:
  "\<exists>g r. gcm_new wide_gcm (replicate 16 5) (replicate 12 9) = Some g
    \<and> read_full (gcm_decrypt_read wide_gcm read_segments)
        (whole (gcm_finish wide_gcm (gcm_write_all wide_gcm (g, []) [10, 20, 30])), Some g, 3) 4
      = Some (Inr [10, 20, 30], r)"
proof -
  have "gcm_sizes (replicate 16 5) (replicate 12 9)" by (simp add: gcm_sizes_def)
  then obtain g where g: "gcm_new wide_gcm (replicate 16 5) (replicate 12 9) = Some g"
    by (rule gcm_new_at)
  have tags: "\<forall>h. length (ghash_out wide_gcm h) = 16" by (simp add: wide_gcm_def)
  have three: "length [10, 20, 30 :: byte] = 3" by simp
  define ss where "ss = whole (gcm_finish wide_gcm (gcm_write_all wide_gcm (g, []) [10, 20, 30]))"
  have ss: "segments_good ss"
    "segments_content ss = gcm_finish wide_gcm (gcm_write_all wide_gcm (g, []) [10, 20, 30])"
    by (simp_all only: ss_def whole_simps)
  have "length [10, 20, 30 :: byte] < 4" by simp
  from writer_reader_round_trip [OF g tags ss this, THEN conjunct2, unfolded three] g
  show ?thesis unfolding ss_def by blast
qed

end
