(* ===== verification/Inflate_Reader.thy ===== *)
theory Inflate_Reader
  imports Io_Write
begin

text \<open>
  \<^verbatim>\<open>InflateReader\<close> of \<^verbatim>\<open>src/stream.rs\<close>: raw DEFLATE inflated a chunk at a time into a wrapping window
  of 32 KiB.  miniz's \<^verbatim>\<open>decompress\<close> is the parameter \<^verbatim>\<open>inflate_lib\<close>; its documented behaviour is stated
  against a decoding function \<^verbatim>\<open>den\<close> of whole streams, which may look back at the bytes produced before.
  The lemmas show that the window always holds the bytes a back reference may reach, that the reader
  returns on every input, that it releases at most what the manifest and the limit allow, and that it
  reaches its end exactly for a stream that decodes to the promised number of bytes.
\<close>

unbundle bit_operations_syntax

section \<open>The reader\<close>

datatype inflate_status = InflDone | InflMoreOutput | InflMoreInput | InflFailed string

text \<open>
  \<^verbatim>\<open>decompress\<close> from a state, an input span, the window and a position in it, and whether more input may
  follow: the status, the bytes consumed, the bytes written at the position, the next state.
\<close>

record 'z inflate_lib =
  inf_init :: 'z
  inf_step :: "'z \<Rightarrow> bytes \<Rightarrow> bytes \<Rightarrow> nat \<Rightarrow> bool \<Rightarrow> inflate_status \<times> nat \<times> bytes \<times> 'z"

record ('z, 's, 'w) inflater =
  if_src :: 's
  if_tap :: 'w
  if_dec :: 'z
  if_input :: bytes
  if_start :: nat
  if_end :: nat
  if_src_done :: bool
  if_window :: bytes
  if_out_pos :: nat
  if_pending :: nat
  if_pending_len :: nat
  if_produced :: nat
  if_expected :: nat
  if_limit :: nat
  if_done :: bool

definition inflate_with_tap ::
    "'z inflate_lib \<Rightarrow> host \<Rightarrow> 's \<Rightarrow> nat \<Rightarrow> nat \<Rightarrow> 'w \<Rightarrow> fault + ('z, 's, 'w) inflater" where
  "inflate_with_tap lib h src expected limit tap =
    and_then (chunk_buffer h chunk) (\<lambda>input.
    and_then (chunk_buffer h inflate_window) (\<lambda>window.
      Ok \<lparr>if_src = src, if_tap = tap, if_dec = inf_init lib, if_input = input, if_start = 0, if_end = 0,
          if_src_done = False, if_window = window, if_out_pos = 0, if_pending = 0, if_pending_len = 0,
          if_produced = 0, if_expected = expected, if_limit = limit, if_done = False\<rparr>))"

definition inflate_new ::
    "'z inflate_lib \<Rightarrow> host \<Rightarrow> 's \<Rightarrow> nat \<Rightarrow> nat \<Rightarrow> fault + ('z, 's, bytes) inflater" where
  "inflate_new lib h src expected limit = inflate_with_tap lib h src expected limit []"

text \<open>The three parts of \<^verbatim>\<open>step\<close>: refilling the input, one call of the decoder, the accounting.\<close>

definition inflate_fill ::
    "'s reader \<Rightarrow> ('z, 's, 'w) inflater \<Rightarrow> ((io_error + unit) \<times> ('z, 's, 'w) inflater) option" where
  "inflate_fill rd r =
    (if if_start r = if_end r \<and> \<not> if_src_done r then
       (case read_full rd (if_src r) (length (if_input r)) of
          None \<Rightarrow> None
        | Some (q, s') \<Rightarrow> (case q of
            Inl e \<Rightarrow> Some (Inl e, r\<lparr>if_src := s'\<rparr>)
          | Inr d \<Rightarrow> Some (Inr (), r\<lparr>if_src := s', if_input := d @ drop (length d) (if_input r),
                                if_start := 0, if_end := length d, if_src_done := length d < chunk\<rparr>)))
     else Some (Inr (), r))"

definition inflate_account ::
    "('z, 's, 'w) inflater \<Rightarrow> inflate_status \<Rightarrow> nat \<Rightarrow> nat \<Rightarrow> (io_error + unit) \<times> ('z, 's, 'w) inflater" where
  "inflate_account r status consumed written =
    (let r = r\<lparr>if_start := if_start r + consumed, if_pending := if_out_pos r, if_pending_len := written,
               if_out_pos := (if_out_pos r + written) AND (inflate_window - 1),
               if_produced := if_produced r + written\<rparr>
     in
       if if_produced r > if_limit r then (Inl (into_io FaultOutputLimit), r)
       else if if_produced r > if_expected r then
         (Inl (into_io (FaultInflate (''inflates past manifest:size '' @ decimal (if_expected r)))), r)
       else (case status of
           InflDone \<Rightarrow>
             (let r = r\<lparr>if_done := True\<rparr> in
              if if_produced r \<noteq> if_expected r then
                (Inl (into_io (FaultInflate (''inflated '' @ decimal (if_produced r) @ '' != manifest:size ''
                   @ decimal (if_expected r)))), r)
              else (Inr (), r))
         | InflMoreOutput \<Rightarrow> (Inr (), r)
         | InflMoreInput \<Rightarrow>
             if if_src_done r \<and> if_start r = if_end r \<and> written = 0
             then (Inl (into_io (FaultInflate ''truncated DEFLATE stream'')), r) else (Inr (), r)
         | InflFailed other \<Rightarrow> (Inl (into_io (FaultInflate other)), r)))"

definition inflate_step ::
    "'z inflate_lib \<Rightarrow> 's reader \<Rightarrow> 'w writer \<Rightarrow> ('z, 's, 'w) inflater
      \<Rightarrow> ((io_error + unit) \<times> ('z, 's, 'w) inflater) option" where
  "inflate_step lib rd wr r0 =
    (case inflate_fill rd r0 of
       None \<Rightarrow> None
     | Some (Inl e, r) \<Rightarrow> Some (Inl e, r)
     | Some (Inr _, r) \<Rightarrow>
        (let input = drop (if_start r) (take (if_end r) (if_input r));
             (status, consumed, out, dec') =
               inf_step lib (if_dec r) input (if_window r) (if_out_pos r) (\<not> if_src_done r);
             r = r\<lparr>if_dec := dec', if_window := take (if_out_pos r) (if_window r) @ out
                     @ drop (if_out_pos r + length out) (if_window r)\<rparr>
         in if consumed > 0 then
              (case write_all wr (if_tap r) (take consumed input) of
                 None \<Rightarrow> None
               | Some (Inl e, w') \<Rightarrow> Some (Inl e, r\<lparr>if_tap := w'\<rparr>)
               | Some (Inr _, w') \<Rightarrow>
                   Some (inflate_account (r\<lparr>if_tap := w'\<rparr>) status consumed (length out)))
            else Some (inflate_account r status consumed (length out))))"

partial_function (option) inflate_read ::
    "'z inflate_lib \<Rightarrow> 's reader \<Rightarrow> 'w writer \<Rightarrow> ('z, 's, 'w) inflater \<Rightarrow> nat
      \<Rightarrow> ((io_error + bytes) \<times> ('z, 's, 'w) inflater) option" where
  "inflate_read lib rd wr r n =
    (if if_pending_len r = 0 then
       (if if_done r then Some (Inr [], r)
        else (case inflate_step lib rd wr r of
            None \<Rightarrow> None
          | Some (q, r') \<Rightarrow> (case q of
              Inl e \<Rightarrow> Some (Inl e, r')
            | Inr _ \<Rightarrow> inflate_read lib rd wr r' n)))
     else
       (let k = min (if_pending_len r) n
        in Some (Inr (take k (drop (if_pending r) (if_window r))),
                 r\<lparr>if_pending := if_pending r + k, if_pending_len := if_pending_len r - k\<rparr>)))"

declare inflate_read.simps [code]

section \<open>The window\<close>

lemma window_mask: "n AND (inflate_window - 1) = n mod inflate_window"
proof -
  have "inflate_window - 1 = mask 15" by (simp add: inflate_window_def mask_eq_exp_minus_1)
  then have "n AND (inflate_window - 1) = take_bit 15 n" by (simp add: take_bit_eq_mask)
  also have "\<dots> = n mod inflate_window" by (simp add: take_bit_eq_mod inflate_window_def)
  finally show ?thesis .
qed

text \<open>The window holds the last 32 KiB of what was produced, each byte at its position modulo 32 KiB.\<close>

definition window_holds :: "bytes \<Rightarrow> nat \<Rightarrow> bytes \<Rightarrow> bool" where
  "window_holds win pos hist \<longleftrightarrow> length win = inflate_window \<and> pos = length hist mod inflate_window
     \<and> (\<forall>i < length hist. length hist \<le> i + inflate_window \<longrightarrow> win ! (i mod inflate_window) = hist ! i)"

lemma window_holds_start: "length win = inflate_window \<Longrightarrow> window_holds win 0 []"
  by (simp add: window_holds_def)

lemma window_pos: "window_holds win pos hist \<Longrightarrow> pos < inflate_window"
  by (simp add: window_holds_def inflate_window_def)

lemma window_holds_write:
  assumes "window_holds win pos hist" "pos + length out \<le> inflate_window"
  shows "window_holds (take pos win @ out @ drop (pos + length out) win)
           ((pos + length out) mod inflate_window) (hist @ out)"
proof -
  define W where "W = inflate_window"
  define win' where "win' = take pos win @ out @ drop (pos + length out) win"
  have W: "0 < W" by (simp add: W_def inflate_window_def)
  have len: "length win = W" and pos: "pos = length hist mod W"
    and old: "\<And>i. i < length hist \<Longrightarrow> length hist \<le> i + W \<Longrightarrow> win ! (i mod W) = hist ! i"
    using assms(1) by (auto simp: window_holds_def W_def)
  have fits: "pos + length out \<le> W" using assms(2) by (simp add: W_def)
  have "win' ! (i mod W) = (hist @ out) ! i" if i: "i < length (hist @ out)" "length (hist @ out) \<le> i + W" for i
  proof (cases "i < length hist")
    case False
    define j where "j = i - length hist"
    have j: "i = length hist + j" "j < length out" using False i(1) by (simp_all add: j_def)
    have "i mod W = pos + j"
    proof -
      have "i mod W = (pos + j) mod W" by (simp add: j(1) pos mod_add_left_eq)
      then show ?thesis using j(2) fits by simp
    qed
    then show ?thesis using j len fits by (simp add: win'_def nth_append)
  next
    case True
    define m where "m = i mod W"
    have "\<not> (pos \<le> m \<and> m < pos + length out)"
    proof
      assume m: "pos \<le> m \<and> m < pos + length out"
      define a where "a = length hist div W"
      have h: "length hist = a * W + pos" by (simp add: a_def pos)
      define b where "b = i div W"
      have ib: "i = b * W + m" by (simp add: b_def m_def)
      have "b * W < a * W" using True h ib m by linarith
      then have "b + 1 \<le> a" using W by simp
      then have "b * W + W \<le> a * W" by (metis mult_le_mono1 add_mult_distrib mult_1)
      then have "i + W \<le> a * W + m" using ib by linarith
      then have "i + W < length hist + length out" using h m by linarith
      then show False using i(2) by simp
    qed
    then have "win' ! m = win ! m" using len fits W
      by (auto simp: win'_def nth_append m_def)
    moreover have "win ! m = hist ! i" unfolding m_def by (rule old) (use True i in auto)
    ultimately show ?thesis using True by (simp add: m_def nth_append)
  qed
  moreover have "length win' = W" using len fits by (simp add: win'_def)
  moreover have "(pos + length out) mod W = length (hist @ out) mod W" by (simp add: pos mod_add_left_eq)
  ultimately show ?thesis unfolding window_holds_def win'_def W_def by auto
qed

section \<open>The decoder\<close>

text \<open>
  The documented behaviour of \<^verbatim>\<open>decompress\<close> over a wrapping window, against a decoding function:
  \<^verbatim>\<open>den z hist xs\<close> is what the decoder in state \<^verbatim>\<open>z\<close>, having produced \<^verbatim>\<open>hist\<close>, makes of the stream
  \<^verbatim>\<open>xs\<close>, with the number of bytes of \<^verbatim>\<open>xs\<close> up to the end marker; \<^const>\<open>None\<close> if \<^verbatim>\<open>xs\<close> is no stream.
\<close>

definition inflate_law :: "'z inflate_lib \<Rightarrow> ('z \<Rightarrow> bytes \<Rightarrow> bytes \<Rightarrow> (bytes \<times> nat) option)
    \<Rightarrow> 'z \<Rightarrow> bytes \<Rightarrow> bytes \<Rightarrow> bytes \<Rightarrow> bytes \<Rightarrow> nat \<Rightarrow> bool \<Rightarrow> bool" where
  "inflate_law lib den z hist input rest win pos goes_on \<longleftrightarrow>
    (case inf_step lib z input win pos goes_on of (status, k, out, z') \<Rightarrow>
       k \<le> length input \<and> pos + length out \<le> inflate_window
     \<and> (case status of
          InflDone \<Rightarrow> den z hist (input @ rest) = Some (out, k)
        | InflMoreOutput \<Rightarrow> out \<noteq> [] \<and> den z hist (input @ rest)
            = map_option (\<lambda>(o', n). (out @ o', k + n)) (den z' (hist @ out) (drop k input @ rest))
        | InflMoreInput \<Rightarrow> k = length input
            \<and> (\<not> goes_on \<longrightarrow> out = [] \<longrightarrow> den z hist (input @ rest) = None)
            \<and> den z hist (input @ rest)
                = map_option (\<lambda>(o', n). (out @ o', k + n)) (den z' (hist @ out) rest)
        | InflFailed _ \<Rightarrow> den z hist (input @ rest) = None))"

definition inflate_documented ::
    "'z inflate_lib \<Rightarrow> ('z \<Rightarrow> bytes \<Rightarrow> bytes \<Rightarrow> (bytes \<times> nat) option) \<Rightarrow> bool" where
  "inflate_documented lib den \<longleftrightarrow>
    (\<forall>z hist input rest win pos goes_on. window_holds win pos hist \<longrightarrow> (\<not> goes_on \<longrightarrow> rest = []) \<longrightarrow>
       inflate_law lib den z hist input rest win pos goes_on)"

lemma inflate_law_shape:
  assumes law: "inflate_law lib den z hist input rest win pos goes_on"
    and call: "inf_step lib z input win pos goes_on = (status, k, out, z')"
    and stream: "den z hist (input @ rest) = Some (out', n)"
  shows "length out \<le> length out' \<and> (status = InflDone \<longrightarrow> out = out') \<and> (\<forall>s. status \<noteq> InflFailed s)
    \<and> (status = InflMoreInput \<longrightarrow> \<not> goes_on \<longrightarrow> out \<noteq> [])"
proof (cases status)
  case InflDone
  then show ?thesis using law stream by (simp add: inflate_law_def call)
next
  case InflMoreOutput
  then show ?thesis using law stream
    by (cases "den z' (hist @ out) (drop k input @ rest)") (auto simp: inflate_law_def call)
next
  case InflMoreInput
  then show ?thesis using law stream
    by (cases "den z' (hist @ out) rest") (auto simp: inflate_law_def call)
next
  case (InflFailed s)
  then show ?thesis using law stream by (simp add: inflate_law_def call)
qed

section \<open>The reader over a source and a tap\<close>

locale inflate_over = source rd good content fate patience + sink wr wgood written wpatience
  for rd :: "'s reader" and good content fate patience
    and wr :: "'w writer" and wgood written wpatience +
  fixes lib :: "'z inflate_lib" and den :: "'z \<Rightarrow> bytes \<Rightarrow> bytes \<Rightarrow> (bytes \<times> nat) option"
    and stream :: bytes and tapped :: bytes and ending :: "io_error option"
begin

definition ahead :: "('z, 's, 'w) inflater \<Rightarrow> bytes" where
  "ahead r = drop (if_start r) (take (if_end r) (if_input r)) @ content (if_src r)"

definition infl_inv :: "('z, 's, 'w) inflater \<Rightarrow> bytes \<Rightarrow> bool" where
  "infl_inv r hist \<longleftrightarrow> inflate_documented lib den \<and> good (if_src r) \<and> wgood (if_tap r)
     \<and> window_holds (if_window r) (if_out_pos r) hist \<and> if_produced r = length hist
     \<and> length (if_input r) = chunk \<and> if_start r \<le> if_end r \<and> if_end r \<le> chunk
     \<and> (if_src_done r \<longrightarrow> content (if_src r) = [] \<and> fate (if_src r) = None)
     \<and> if_produced r \<le> if_limit r \<and> if_produced r \<le> if_expected r
     \<and> (if_done r \<longrightarrow> if_produced r = if_expected r)"

definition infl_fuel :: "('z, 's, 'w) inflater \<Rightarrow> nat" where
  "infl_fuel r = 2 * length (ahead r) + (if if_src_done r then 0 else 1) + (if_expected r - if_produced r)"

definition same_job :: "('z, 's, 'w) inflater \<Rightarrow> ('z, 's, 'w) inflater \<Rightarrow> bool" where
  "same_job r r' \<longleftrightarrow> if_expected r' = if_expected r \<and> if_limit r' = if_limit r"

lemma fill_cases:
  assumes "infl_inv r hist"
  obtains (fails) e r' where "inflate_fill rd r = Some (Inl e, r')" "e \<noteq> Interrupted" "fate (if_src r) = Some e"
      "if_tap r' = if_tap r"
  | (fills) r' where "inflate_fill rd r = Some (Inr (), r')" "infl_inv r' hist" "ahead r' = ahead r"
      "if_start r' = if_end r' \<longrightarrow> if_src_done r'" "if_dec r' = if_dec r" "if_tap r' = if_tap r"
      "same_job r r'" "if_done r' = if_done r" "infl_fuel r' \<le> infl_fuel r"
      "fate (if_src r') = fate (if_src r)"
proof (cases "if_start r = if_end r \<and> \<not> if_src_done r")
  case False
  then show thesis
    using assms by (intro fills [of r]) (auto simp: inflate_fill_def same_job_def)
next
  case True
  have good: "good (if_src r)" and len: "length (if_input r) = chunk"
    using assms by (simp_all add: infl_inv_def)
  show thesis
  proof (cases "delivered (if_src r) chunk")
    case (Inl e)
    obtain s' where "read_full rd (if_src r) chunk = Some (Inl e, s')"
      by (rule read_full_fails [OF good Inl])
    moreover have "fate (if_src r) = Some e"
      using Inl by (auto simp: delivered_def split: if_splits option.splits)
    moreover have "e \<noteq> Interrupted" using final [OF good] \<open>fate (if_src r) = Some e\<close> by auto
    ultimately show thesis
      using True len by (intro fails [of e "r\<lparr>if_src := s'\<rparr>"]) (simp_all add: inflate_fill_def)
  next
    case (Inr d)
    obtain s' where s': "read_full rd (if_src r) chunk = Some (Inr d, s')" "good s'"
      "content (if_src r) = d @ content s'" "fate s' = fate (if_src r)"
      by (rule read_full_delivers [OF good Inr])
    have d: "length d \<le> chunk" "length d < chunk \<Longrightarrow> content s' = [] \<and> fate s' = None"
      using delivered_length [OF Inr] delivered_short [OF Inr] s'(3,4) by auto
    define r' where "r' = r\<lparr>if_src := s', if_input := d @ drop (length d) (if_input r), if_start := 0,
      if_end := length d, if_src_done := length d < chunk\<rparr>"
    have "inflate_fill rd r = Some (Inr (), r')"
      using True len s'(1) by (simp add: inflate_fill_def r'_def)
    moreover have ahead: "ahead r' = ahead r" using True s'(3) by (simp add: ahead_def r'_def)
    moreover have "infl_inv r' hist"
      using assms d s'(2) len by (auto simp: infl_inv_def r'_def)
    moreover have "infl_fuel r' \<le> infl_fuel r" unfolding infl_fuel_def ahead using True by (simp add: r'_def)
    moreover have "if_start r' = if_end r' \<longrightarrow> if_src_done r'" by (simp add: r'_def chunk_def)
    ultimately show thesis
      using s'(4) by (intro fills [of r']) (simp_all add: same_job_def r'_def)
  qed
qed

text \<open>The accounting after a call of the decoder that produced \<^verbatim>\<open>out\<close>.\<close>

definition after :: "('z, 's, 'w) inflater \<Rightarrow> nat \<Rightarrow> bytes \<Rightarrow> 'z \<Rightarrow> 'w \<Rightarrow> ('z, 's, 'w) inflater" where
  "after r k out z' w' = r\<lparr>if_dec := z', if_tap := w',
     if_window := take (if_out_pos r) (if_window r) @ out @ drop (if_out_pos r + length out) (if_window r),
     if_start := if_start r + k, if_pending := if_out_pos r, if_pending_len := length out,
     if_out_pos := (if_out_pos r + length out) mod inflate_window,
     if_produced := if_produced r + length out\<rparr>"

lemma after_inv:
  assumes "infl_inv r hist" "\<not> if_done r" "if_out_pos r + length out \<le> inflate_window"
    and "k \<le> if_end r - if_start r" "wgood w'"
    and "length hist + length out \<le> if_limit r" "length hist + length out \<le> if_expected r"
  shows "infl_inv (after r k out z' w') (hist @ out)"
    and "ahead (after r k out z' w') = drop k (ahead r)"
    and "take (length out) (drop (if_pending (after r k out z' w')) (if_window (after r k out z' w'))) = out"
proof -
  have win: "window_holds (take (if_out_pos r) (if_window r) @ out
      @ drop (if_out_pos r + length out) (if_window r)) ((if_out_pos r + length out) mod inflate_window) (hist @ out)"
    by (rule window_holds_write) (use assms(1,3) in \<open>simp_all add: infl_inv_def\<close>)
  show "infl_inv (after r k out z' w') (hist @ out)"
    using assms win unfolding infl_inv_def after_def by simp linarith
  show "ahead (after r k out z' w') = drop k (ahead r)"
    using assms(1,4) by (simp add: ahead_def after_def infl_inv_def add.commute)
  have "length (if_window r) = inflate_window" using assms(1) by (simp add: infl_inv_def window_holds_def)
  then show "take (length out) (drop (if_pending (after r k out z' w')) (if_window (after r k out z' w'))) = out"
    using assms(3) by (simp add: after_def)
qed

text \<open>What the accounting answers, from the decoder's status and the new total.\<close>

definition answer ::
    "('z, 's, 'w) inflater \<Rightarrow> inflate_status \<Rightarrow> nat \<Rightarrow> nat \<Rightarrow> io_error + unit" where
  "answer r status k made =
    (if made > if_limit r then Inl (into_io FaultOutputLimit)
     else if made > if_expected r then
       Inl (into_io (FaultInflate (''inflates past manifest:size '' @ decimal (if_expected r))))
     else (case status of
         InflDone \<Rightarrow> if made \<noteq> if_expected r then
            Inl (into_io (FaultInflate (''inflated '' @ decimal made @ '' != manifest:size ''
              @ decimal (if_expected r)))) else Inr ()
       | InflMoreOutput \<Rightarrow> Inr ()
       | InflMoreInput \<Rightarrow> if if_src_done r \<and> if_start r + k = if_end r \<and> made = if_produced r
           then Inl (into_io (FaultInflate ''truncated DEFLATE stream'')) else Inr ()
       | InflFailed other \<Rightarrow> Inl (into_io (FaultInflate other))))"

lemma account_answer:
  "inflate_account (r\<lparr>if_dec := z', if_window := take (if_out_pos r) (if_window r) @ out
       @ drop (if_out_pos r + length out) (if_window r), if_tap := w'\<rparr>) status k (length out)
    = (answer r status k (if_produced r + length out),
       (after r k out z' w')\<lparr>if_done := if_done r
          \<or> status = InflDone \<and> if_produced r + length out \<le> if_limit r
            \<and> if_produced r + length out \<le> if_expected r\<rparr>)"
  unfolding inflate_account_def window_mask answer_def after_def
  by (cases status; cases r; cases "if_done r") (simp_all add: Let_def)

lemma answer_Ok:
  "answer r status k made = Inr () \<longleftrightarrow> made \<le> if_limit r \<and> made \<le> if_expected r
    \<and> (status = InflDone \<longrightarrow> made = if_expected r)
    \<and> (status = InflMoreInput \<longrightarrow> \<not> (if_src_done r \<and> if_start r + k = if_end r \<and> made = if_produced r))
    \<and> (\<forall>s. status \<noteq> InflFailed s)"
  by (cases status) (auto simp: answer_def)

lemma answer_fault: "answer r status k made = Inl e \<Longrightarrow> \<exists>f. e = into_io f"
  by (cases status) (auto simp: answer_def split: if_splits)

text \<open>
  One step: the source fails, the tap fails, the accounting refuses, and then the stream is not one
  of the promised length; or the step produces a piece of the stream and the rest is ahead.
\<close>

definition promised :: "('z, 's, 'w) inflater \<Rightarrow> bytes \<Rightarrow> bytes \<Rightarrow> nat \<Rightarrow> bool" where
  "promised r hist out n \<longleftrightarrow> den (if_dec r) hist (ahead r) = Some (out, n)
     \<and> length hist + length out = if_expected r \<and> if_expected r \<le> if_limit r"

lemma step_cases:
  assumes inv: "infl_inv r hist" and busy: "\<not> if_done r"
  obtains (source) e r' where "inflate_step lib rd wr r = Some (Inl e, r')" "e \<noteq> Interrupted"
      "fate (if_src r) = Some e"
  | (tap) e r' w d where "inflate_step lib rd wr r = Some (Inl e, r')" "e \<noteq> Interrupted"
      "write_all wr (if_tap r) d = Some (Inl e, w)" "\<not> takes_all"
  | (refused) f r' where "inflate_step lib rd wr r = Some (Inl (into_io f), r')"
      "fate (if_src r) = None \<longrightarrow> (\<forall>out n. \<not> promised r hist out n)"
  | (step) r' out k where "inflate_step lib rd wr r = Some (Inr (), r')" "infl_inv r' (hist @ out)"
      "if_pending_len r' = length out" "take (length out) (drop (if_pending r') (if_window r')) = out"
      "if_pending r' + length out \<le> inflate_window" "same_job r r'" "fate (if_src r') = fate (if_src r)"
      "written (if_tap r') = written (if_tap r) @ take k (ahead r)" "ahead r' = drop k (ahead r)"
      "k \<le> length (ahead r)"
      "if_done r' \<Longrightarrow> den (if_dec r) hist (ahead r) = Some (out, k)"
      "\<not> if_done r' \<Longrightarrow> den (if_dec r) hist (ahead r)
         = map_option (\<lambda>(o', n). (out @ o', k + n)) (den (if_dec r') (hist @ out) (ahead r'))"
      "\<not> if_done r' \<Longrightarrow> infl_fuel r' < infl_fuel r"
proof (cases rule: fill_cases [OF inv, case_names fails fills])
  case (fails e r')
  then show thesis by (intro source [of e r']) (simp_all add: inflate_step_def)
next
  case (fills r1)
  define input where "input = drop (if_start r1) (take (if_end r1) (if_input r1))"
  obtain status k out z' where call:
    "inf_step lib (if_dec r1) input (if_window r1) (if_out_pos r1) (\<not> if_src_done r1) = (status, k, out, z')"
    by (metis prod_cases4)
  have law: "inflate_law lib den (if_dec r1) hist input (content (if_src r1)) (if_window r1) (if_out_pos r1)
      (\<not> if_src_done r1)"
    using fills(2) by (auto simp: infl_inv_def inflate_documented_def)
  have ahead: "ahead r = input @ content (if_src r1)" using fills(3) by (simp add: ahead_def input_def)
  have len: "length input = if_end r1 - if_start r1" using fills(2) by (simp add: input_def infl_inv_def)
  have bounds: "k \<le> length input" "if_out_pos r1 + length out \<le> inflate_window"
    using law by (simp_all add: inflate_law_def call)
  have dec: "den (if_dec r) hist (ahead r) = den (if_dec r1) hist (input @ content (if_src r1))"
    by (simp add: fills(5) ahead)
  show thesis
  proof (cases rule: write_all_cases [of "if_tap r1" "take k input", case_names good ok stop])
    case good
    show ?case using fills(2) by (simp add: infl_inv_def)
  next
    case (stop e j w')
    then have "0 < k" by (cases k) auto
    then have "inflate_step lib rd wr r = Some (Inl e,
        r1\<lparr>if_dec := z', if_window := take (if_out_pos r1) (if_window r1) @ out
           @ drop (if_out_pos r1 + length out) (if_window r1), if_tap := w'\<rparr>)"
      using fills(1) call stop(1) by (simp add: inflate_step_def input_def Let_def)
    then show thesis by (rule tap) (use stop fills(6) in simp_all)
  next
    case (ok w')
    define r2 where "r2 = (after r1 k out z' w')\<lparr>if_done := if_done r1
        \<or> status = InflDone \<and> if_produced r1 + length out \<le> if_limit r1
          \<and> if_produced r1 + length out \<le> if_expected r1\<rparr>"
    note answered = account_answer [where r = r1 and k = k and status = status and out = out and z' = z' and w' = w']
    have step: "inflate_step lib rd wr r = Some (answer r1 status k (if_produced r1 + length out), r2)"
    proof (cases "k = 0")
      case True
      then have tap: "w' = if_tap r1" using ok(1) by simp
      have "r1\<lparr>if_dec := z', if_window := win, if_tap := if_tap r1\<rparr> = r1\<lparr>if_dec := z', if_window := win\<rparr>"
        for win by (cases r1) simp
      then show ?thesis
        using fills(1) call True answered by (simp add: inflate_step_def input_def Let_def r2_def tap)
    next
      case False
      then show ?thesis
        using fills(1) call ok(1) answered
        by (simp add: inflate_step_def input_def Let_def r2_def)
    qed
    have same: "if_limit r1 = if_limit r" "if_expected r1 = if_expected r" "if_produced r1 = length hist"
      "\<not> if_done r1" using fills(2,7,8) busy by (auto simp: same_job_def infl_inv_def)
    show thesis
    proof (cases "answer r1 status k (if_produced r1 + length out)")
      case (Inl e)
      then obtain f where f: "e = into_io f" using answer_fault by blast
      have "\<not> promised r hist o' n" for o' n
      proof
        assume "promised r hist o' n"
        then have p: "den (if_dec r1) hist (input @ content (if_src r1)) = Some (o', n)"
          "length hist + length o' = if_expected r1" "if_expected r1 \<le> if_limit r1"
          by (simp_all add: promised_def dec same)
        have shape: "length out \<le> length o'" "status = InflDone \<Longrightarrow> out = o'" "\<And>s. status \<noteq> InflFailed s"
          "status = InflMoreInput \<Longrightarrow> if_src_done r1 \<Longrightarrow> out \<noteq> []"
          using inflate_law_shape [OF law call p(1)] by auto
        have "answer r1 status k (if_produced r1 + length out) = Inr ()"
          unfolding answer_Ok same(3) using shape p(2,3) by auto
        then show False using Inl by simp
      qed
      then show thesis using step Inl f by (intro refused [of f r2]) simp_all
    next
      case (Inr u)
      then have fine: "length hist + length out \<le> if_limit r1" "length hist + length out \<le> if_expected r1"
        "status = InflDone \<Longrightarrow> length hist + length out = if_expected r1"
        "status = InflMoreInput \<Longrightarrow> \<not> (if_src_done r1 \<and> if_start r1 + k = if_end r1 \<and> out = [])"
        "\<And>s. status \<noteq> InflFailed s"
        using answer_Ok [of r1 status k "if_produced r1 + length out"] same(3) by auto
      have fits: "k \<le> if_end r1 - if_start r1" using bounds(1) len by simp
      note post = after_inv [OF fills(2) same(4) bounds(2) fits ok(2) fine(1,2), of z']
      have fin: "if_done r2 \<longleftrightarrow> status = InflDone" using fine same by (simp add: r2_def)
      have inv2: "infl_inv r2 (hist @ out)"
        using post(1) fine(3) same unfolding infl_inv_def r2_def by (simp add: after_def)
      have ahead2: "ahead r2 = drop k (ahead r)"
      proof -
        have "ahead r2 = ahead (after r1 k out z' w')" by (simp add: ahead_def r2_def)
        then show ?thesis using post(2) fills(3) by simp
      qed
      show thesis
      proof (rule that(4) [of r2 out k])
        show "inflate_step lib rd wr r = Some (Inr (), r2)" using step Inr by simp
        show "take (length out) (drop (if_pending r2) (if_window r2)) = out"
          using post(3) by (simp add: r2_def)
        show "if_pending_len r2 = length out" by (simp add: r2_def after_def)
        show "if_pending r2 + length out \<le> inflate_window" using bounds(2) by (simp add: r2_def after_def)
        show "same_job r r2" using same by (simp add: same_job_def r2_def after_def)
        show "fate (if_src r2) = fate (if_src r)" using fills(10) by (simp add: r2_def after_def)
        show "written (if_tap r2) = written (if_tap r) @ take k (ahead r)"
          using ok(3) fills(6) bounds(1) by (simp add: r2_def after_def ahead)
        show "k \<le> length (ahead r)" using bounds(1) by (simp add: ahead)
        show "den (if_dec r) hist (ahead r) = Some (out, k)" if "if_done r2"
          using law that unfolding fin dec inflate_law_def call by simp
        have left: "drop k input @ content (if_src r1) = ahead r2" using bounds(1) by (simp add: ahead2 ahead)
        have dec2: "if_dec r2 = z'" by (simp add: r2_def after_def)
        show "den (if_dec r) hist (ahead r)
           = map_option (\<lambda>(o', n). (out @ o', k + n)) (den (if_dec r2) (hist @ out) (ahead r2))"
          if "\<not> if_done r2"
          using law that fine(5) unfolding fin dec inflate_law_def call dec2 left [symmetric]
          by (cases status) auto
        show "infl_fuel r2 < infl_fuel r" if busy2: "\<not> if_done r2"
        proof -
          have fields: "if_src_done r2 = if_src_done r1" "if_expected r2 = if_expected r1"
            "if_produced r2 = length hist + length out"
            using same(3) by (simp_all add: r2_def after_def)
          have "infl_fuel r2 < infl_fuel r1"
          proof (cases "out = []")
            case False
            then have "0 < length out" by simp
            moreover have "length (ahead r2) \<le> length (ahead r1)" using fills(3) by (simp add: ahead2)
            ultimately show ?thesis using fine(2) unfolding infl_fuel_def fields same(3) by linarith
          next
            case True
            then have more_input: "status = InflMoreInput" "k = length input"
              using law busy2 fine(5) unfolding fin inflate_law_def call by (cases status; simp)+
            have "input \<noteq> []"
            proof
              assume "input = []"
              then have "if_start r1 = if_end r1" using len fills(2) by (simp add: infl_inv_def)
              then show False using fine(4) more_input True fills(4) \<open>input = []\<close> by simp
            qed
            then have "0 < k" "k \<le> length (ahead r1)" using more_input bounds by (simp_all add: fills(3) ahead)
            then have "length (ahead r2) < length (ahead r1)" by (simp add: ahead2 fills(3))
            then show ?thesis using True unfolding infl_fuel_def fields same(3) by simp
          qed
          then show ?thesis using fills(9) by simp
        qed
      qed (fact inv2, fact ahead2)
    qed
  qed
qed

text \<open>What the steps from here on release, and how they end; the fuel is enough by construction.\<close>

definition pend :: "('z, 's, 'w) inflater \<Rightarrow> bytes" where
  "pend r = take (if_pending_len r) (drop (if_pending r) (if_window r))"

fun steps :: "nat \<Rightarrow> ('z, 's, 'w) inflater \<Rightarrow> bytes \<times> io_error option" where
  "steps 0 r = ([], None)"
| "steps (Suc fuel) r =
    (if if_done r then ([], None)
     else case inflate_step lib rd wr r of
         None \<Rightarrow> ([], None)
       | Some (Inl e, r') \<Rightarrow> ([], Some e)
       | Some (Inr _, r') \<Rightarrow> (pend r' @ fst (steps fuel r'), snd (steps fuel r')))"

definition to_come :: "('z, 's, 'w) inflater \<Rightarrow> bytes \<times> io_error option" where
  "to_come r = steps (Suc (infl_fuel r)) r"

lemma steps_done: "if_done r \<Longrightarrow> steps fuel r = ([], None)"
  by (cases fuel) simp_all

lemma steps_enough: "infl_inv r hist \<Longrightarrow> infl_fuel r < fuel \<Longrightarrow> steps fuel r = to_come r"
proof (induction "infl_fuel r" arbitrary: r hist fuel rule: less_induct)
  case less
  obtain fuel' where fuel: "fuel = Suc fuel'" "infl_fuel r \<le> fuel'" using less(3) by (cases fuel) auto
  show ?case
  proof (cases "if_done r")
    case False
    show ?thesis
    proof (cases rule: step_cases [OF less(2) False, case_names source tap refused step])
      case (step r' out k)
      have "steps n r' = to_come r'" if "infl_fuel r \<le> n" for n
      proof (cases "if_done r'")
        case True
        then show ?thesis by (simp add: steps_done to_come_def del: steps.simps)
      next
        case busy: False
        show ?thesis by (rule less(1) [OF _ step(2)]) (use step(13) [OF busy] that in simp_all)
      qed
      then show ?thesis using False step(1) fuel by (simp add: to_come_def)
    qed (use False in \<open>simp_all add: to_come_def fuel(1)\<close>)
  qed (simp add: to_come_def steps_done del: steps.simps)
qed

lemma to_come_step:
  assumes "infl_inv r hist" "\<not> if_done r" "inflate_step lib rd wr r = Some (Inr u, r')"
  shows "to_come r = (pend r' @ fst (to_come r'), snd (to_come r'))"
proof -
  show ?thesis
  proof (cases rule: step_cases [OF assms(1,2), case_names source tap refused step])
    case (step r'' out k)
    then have r': "r'' = r'" using assms(3) by simp
    have "steps (infl_fuel r) r' = to_come r'"
    proof (cases "if_done r'")
      case True
      then show ?thesis by (simp add: steps_done to_come_def del: steps.simps)
    next
      case False
      show ?thesis by (rule steps_enough [OF step(2) [unfolded r']]) (use step(13) False r' in simp)
    qed
    then show ?thesis using assms(2,3) by (simp add: to_come_def)
  qed (use assms(3) in simp_all)
qed

lemma to_come_stops:
  "\<not> if_done r \<Longrightarrow> inflate_step lib rd wr r = Some (Inl e, r') \<Longrightarrow> to_come r = ([], Some e)"
  by (simp add: to_come_def)

lemma to_come_done: "if_done r \<Longrightarrow> to_come r = ([], None)"
  by (simp add: to_come_def)

text \<open>The exact verdict of the remaining steps.\<close>

lemma to_come_verdict:
  assumes "infl_inv r hist"
  shows "length hist + length (fst (to_come r)) \<le> min (if_limit r) (if_expected r)
    \<and> (snd (to_come r) = None \<longrightarrow> \<not> if_done r \<longrightarrow> (\<exists>n. promised r hist (fst (to_come r)) n))
    \<and> (\<forall>out n. \<not> if_done r \<longrightarrow> promised r hist out n \<longrightarrow> fate (if_src r) = None \<longrightarrow> takes_all \<longrightarrow>
        to_come r = (out, None))"
  using assms
proof (induction "infl_fuel r" arbitrary: r hist rule: less_induct)
  case less
  note inv = less(2)
  have so_far: "length hist \<le> if_limit r" "length hist \<le> if_expected r" "wgood (if_tap r)"
    using inv by (auto simp: infl_inv_def)
  show ?case
  proof (cases "if_done r")
    case True
    then show ?thesis using so_far by (simp add: to_come_done)
  next
    case busy: False
    show ?thesis
    proof (cases rule: step_cases [OF inv busy, case_names source tap refused step])
      case (source e r')
      then show ?thesis using so_far to_come_stops [OF busy source(1)] by auto
    next
      case (tap e r' w d)
      then show ?thesis using tap so_far to_come_stops [OF busy tap(1)] by auto
    next
      case (refused f r')
      then show ?thesis using so_far to_come_stops [OF busy refused(1)] by auto
    next
      case (step r' out k)
      have pend: "pend r' = out" using step(3,4) by (simp add: pend_def)
      have come: "to_come r = (out @ fst (to_come r'), snd (to_come r'))"
        using to_come_step [OF inv busy step(1)] by (simp add: pend)
      have same: "if_expected r' = if_expected r" "if_limit r' = if_limit r"
        using step(6) by (simp_all add: same_job_def)
      show ?thesis
      proof (cases "if_done r'")
        case True
        then have "length hist + length out = if_expected r" "length hist + length out \<le> if_limit r"
          using step(2) same by (auto simp: infl_inv_def)
        then show ?thesis
          using come step(11) [OF True] True by (auto simp: to_come_done promised_def)
      next
        case False
        note ih = less(1) [OF step(13) [OF False] step(2)]
        note den = step(12) [OF False]
        have up: "\<exists>n. promised r hist (out @ bs) n" if "promised r' (hist @ out) bs n" for bs n
          using that by (auto simp: promised_def den same)
        have down: "\<exists>bs m. os = out @ bs \<and> promised r' (hist @ out) bs m" if "promised r hist os n" for os n
          using that by (auto simp: promised_def den same map_option_eq_Some split: prod.splits)
        show ?thesis
        proof (intro conjI allI impI)
          show "length hist + length (fst (to_come r)) \<le> min (if_limit r) (if_expected r)"
            using ih same come by simp
          show "\<exists>n. promised r hist (fst (to_come r)) n" if ended: "snd (to_come r) = None"
          proof -
            obtain m where "promised r' (hist @ out) (fst (to_come r')) m"
              using ih ended come False by auto
            from up [OF this] show ?thesis by (simp add: come)
          qed
          show "to_come r = (os, None)"
            if w: "promised r hist os n" "fate (if_src r) = None" "takes_all" for os n
          proof -
            obtain bs m where bs: "os = out @ bs" "promised r' (hist @ out) bs m" using down [OF w(1)] by blast
            have "fate (if_src r') = None" using w(2) step(7) by simp
            then have "to_come r' = (bs, None)"
              using ih [THEN conjunct2, THEN conjunct2, rule_format, OF False bs(2)] w(3) by blast
            then show ?thesis by (simp add: come bs(1))
          qed
        qed
      qed
    qed
  qed
qed

lemma to_come_final: "infl_inv r hist \<Longrightarrow> snd (to_come r) \<noteq> Some Interrupted"
proof (induction "infl_fuel r" arbitrary: r hist rule: less_induct)
  case less
  show ?case
  proof (cases "if_done r")
    case True
    then show ?thesis by (simp add: to_come_done)
  next
    case busy: False
    show ?thesis
    proof (cases rule: step_cases [OF less(2) busy, case_names source tap refused step])
      case (source e r')
      then show ?thesis using to_come_stops [OF busy source(1)] by simp
    next
      case (tap e r' w d)
      then show ?thesis using to_come_stops [OF busy tap(1)] by simp
    next
      case (refused f r')
      then show ?thesis using to_come_stops [OF busy refused(1)] by simp
    next
      case (step r' out k)
      have come: "snd (to_come r) = snd (to_come r')"
        using to_come_step [OF less(2) busy step(1)] by simp
      show ?thesis
      proof (cases "if_done r'")
        case True
        then show ?thesis by (simp add: come to_come_done)
      next
        case False
        show ?thesis unfolding come by (rule less(1) [OF step(13) [OF False] step(2)])
      qed
    qed
  qed
qed

text \<open>
  How far the reader is in the member's \<^verbatim>\<open>stream\<close>: the tap has exactly the bytes consumed, after
  \<^verbatim>\<open>tapped\<close>, and what was produced and what is ahead make up the whole.
\<close>

definition tracks :: "('z, 's, 'w) inflater \<Rightarrow> bytes \<Rightarrow> nat \<Rightarrow> bool" where
  "tracks r hist k \<longleftrightarrow> k \<le> length stream \<and> written (if_tap r) = tapped @ take k stream
     \<and> ahead r = drop k stream \<and> fate (if_src r) = ending
     \<and> (if if_done r then den (inf_init lib) [] stream = Some (hist, k)
        else den (inf_init lib) [] stream
          = map_option (\<lambda>(o', n). (hist @ o', k + n)) (den (if_dec r) hist (ahead r)))"

lemma tracks_step:
  assumes "tracks r hist j" "\<not> if_done r"
    and "written (if_tap r') = written (if_tap r) @ take k (ahead r)" "ahead r' = drop k (ahead r)"
    and "k \<le> length (ahead r)" "fate (if_src r') = fate (if_src r)"
    and "if_done r' \<Longrightarrow> den (if_dec r) hist (ahead r) = Some (out, k)"
    and "\<not> if_done r' \<Longrightarrow> den (if_dec r) hist (ahead r)
         = map_option (\<lambda>(o', n). (out @ o', k + n)) (den (if_dec r') (hist @ out) (ahead r'))"
  shows "tracks r' (hist @ out) (j + k)"
proof -
  have "take k (drop j stream) = drop j (take (j + k) stream)" by (simp add: take_drop add.commute)
  then have cut: "take j stream @ take k (drop j stream) = take (j + k) stream" by (simp add: take_add)
  have old: "j \<le> length stream" "written (if_tap r) = tapped @ take j stream" "ahead r = drop j stream"
    "fate (if_src r) = ending"
    "den (inf_init lib) [] stream
       = map_option (\<lambda>(o', n). (hist @ o', j + n)) (den (if_dec r) hist (ahead r))"
    using assms(1,2) by (simp_all add: tracks_def)
  have "den (inf_init lib) [] stream = Some (hist @ out, j + k)" if "if_done r'"
    using old(5) assms(7) [OF that] by simp
  moreover have "den (inf_init lib) [] stream
      = map_option (\<lambda>(o', n). ((hist @ out) @ o', (j + k) + n)) (den (if_dec r') (hist @ out) (ahead r'))"
    if "\<not> if_done r'"
    unfolding old(5) assms(8) [OF that]
    by (cases "den (if_dec r') (hist @ out) (ahead r')") (auto simp: add.assoc)
  ultimately show ?thesis
    using old(1-4) assms(3-6) cut by (simp add: tracks_def add.commute)
qed

definition infl_good :: "('z, 's, 'w) inflater \<Rightarrow> bool" where
  "infl_good r \<longleftrightarrow> (\<exists>hist k. infl_inv r hist \<and> tracks r hist k)
     \<and> if_pending r + if_pending_len r \<le> inflate_window"

definition infl_content :: "('z, 's, 'w) inflater \<Rightarrow> bytes" where
  "infl_content r = pend r @ fst (to_come r)"

definition infl_fate :: "('z, 's, 'w) inflater \<Rightarrow> io_error option" where
  "infl_fate r = snd (to_come r)"

lemma step_ignores_pending:
  "case inflate_step lib rd wr r of
     None \<Rightarrow> inflate_step lib rd wr (r\<lparr>if_pending := p, if_pending_len := l\<rparr>) = None
   | Some (q, r') \<Rightarrow> (\<exists>r''. inflate_step lib rd wr (r\<lparr>if_pending := p, if_pending_len := l\<rparr>) = Some (q, r'')
       \<and> (q = Inr () \<longrightarrow> r'' = r'))"
proof -
  have fill: "inflate_fill rd (r\<lparr>if_pending := p, if_pending_len := l\<rparr>)
      = map_option (\<lambda>(q, r'). (q, r'\<lparr>if_pending := p, if_pending_len := l\<rparr>)) (inflate_fill rd r)"
    by (simp add: inflate_fill_def split: option.split sum.split)
  show ?thesis
  proof (cases "inflate_fill rd r")
    case None
    then show ?thesis by (simp add: inflate_step_def fill)
  next
    case (Some x)
    obtain q r1 where x: "x = (q, r1)" by (cases x)
    have account: "inflate_account (r1\<lparr>if_pending := p, if_pending_len := l, if_dec := z', if_window := win,
          if_tap := w'\<rparr>) st k n
        = inflate_account (r1\<lparr>if_dec := z', if_window := win, if_tap := w'\<rparr>) st k n"
      "inflate_account (r1\<lparr>if_pending := p, if_pending_len := l, if_dec := z', if_window := win\<rparr>) st k n
        = inflate_account (r1\<lparr>if_dec := z', if_window := win\<rparr>) st k n" for z' win w' st k n
      by (simp_all add: inflate_account_def Let_def)
    obtain st k out z' where call: "inf_step lib (if_dec r1) (drop (if_start r1) (take (if_end r1) (if_input r1)))
        (if_window r1) (if_out_pos r1) (\<not> if_src_done r1) = (st, k, out, z')"
      by (metis prod_cases4)
    show ?thesis
    proof (cases q)
      case (Inl e)
      then show ?thesis using Some x by (simp add: inflate_step_def fill)
    next
      case (Inr u)
      then show ?thesis
        using Some x call
        by (auto simp: inflate_step_def fill Let_def account split: option.splits sum.splits)
    qed
  qed
qed

lemma to_come_ignores_pending: "to_come (r\<lparr>if_pending := p, if_pending_len := l\<rparr>) = to_come r"
proof -
  have "infl_fuel (r\<lparr>if_pending := p, if_pending_len := l\<rparr>) = infl_fuel r"
    by (simp add: infl_fuel_def ahead_def)
  then show ?thesis
    using step_ignores_pending [where r = r and p = p and l = l]
    by (cases "inflate_step lib rd wr r") (auto simp: to_come_def split: sum.splits)
qed

lemma infl_good_at:
  assumes "infl_inv r hist" "tracks r hist k" "if_pending r + if_pending_len r \<le> inflate_window"
  shows "infl_good r"
  using assms by (auto simp: infl_good_def)

lemma read_pending:
  assumes "infl_good r" "0 < if_pending_len r" "0 < n"
  shows "\<exists>d r'. inflate_read lib rd wr r n = Some (Inr d, r') \<and> infl_good r' \<and> infl_content r = d @ infl_content r'
    \<and> infl_fate r' = infl_fate r \<and> length d \<le> n \<and> d \<noteq> []"
proof -
  define k where "k = min (if_pending_len r) n"
  have k: "0 < k" "k \<le> n" "k \<le> if_pending_len r" using assms(2,3) by (auto simp: k_def)
  define d where "d = take k (drop (if_pending r) (if_window r))"
  define r' where "r' = r\<lparr>if_pending := if_pending r + k, if_pending_len := if_pending_len r - k\<rparr>"
  obtain hist j where inv: "infl_inv r hist" "tracks r hist j" "if_pending r + if_pending_len r \<le> inflate_window"
    using assms(1) by (auto simp: infl_good_def)
  have win: "length (if_window r) = inflate_window" using inv(1) by (simp add: infl_inv_def window_holds_def)
  have len: "length d = k" using k inv(3) win by (simp add: d_def)
  have "infl_inv r' hist" using inv(1) by (auto simp: infl_inv_def r'_def)
  moreover have "tracks r' hist j" using inv(2) by (simp add: tracks_def ahead_def r'_def)
  moreover have "if_pending r' + if_pending_len r' \<le> inflate_window" using inv(3) k by (simp add: r'_def)
  ultimately have good: "infl_good r'" by (rule infl_good_at)
  have "pend r = d @ pend r'"
  proof -
    have "d = take k (pend r)" using k by (simp add: d_def pend_def)
    moreover have "pend r' = drop k (pend r)" by (simp add: pend_def r'_def drop_take add.commute)
    ultimately show ?thesis by simp
  qed
  moreover have "to_come r' = to_come r" unfolding r'_def by (rule to_come_ignores_pending)
  moreover have "inflate_read lib rd wr r n = Some (Inr d, r')"
    using assms(2) by (simp add: inflate_read.simps [of lib rd wr r n] Let_def k_def d_def r'_def)
  moreover have "d \<noteq> []" "length d \<le> n" using len k by auto
  ultimately show ?thesis using good by (auto simp: infl_content_def infl_fate_def)
qed

text \<open>One \<^verbatim>\<open>read\<close>: it returns, and returns nothing only at the end of the stream.\<close>

lemma read_result:
  assumes "infl_good r" "0 < n"
  shows "\<exists>q r'. inflate_read lib rd wr r n = Some (q, r')
    \<and> (case q of
         Inr d \<Rightarrow> infl_good r' \<and> infl_content r = d @ infl_content r' \<and> infl_fate r' = infl_fate r \<and> length d \<le> n
           \<and> (d = [] \<longrightarrow> infl_content r = [] \<and> infl_fate r = None \<and> if_done r' \<and> if_pending_len r' = 0)
       | Inl e \<Rightarrow> e \<noteq> Interrupted \<and> infl_content r = [] \<and> infl_fate r = Some e)"
  using assms(1)
proof (induction "infl_fuel r" arbitrary: r rule: less_induct)
  case less
  obtain hist j where inv: "infl_inv r hist" "tracks r hist j"
    using less(2) by (auto simp: infl_good_def)
  note unfold = inflate_read.simps [of lib rd wr r n]
  show ?case
  proof (cases "if_pending_len r = 0")
    case False
    then obtain d r' where "inflate_read lib rd wr r n = Some (Inr d, r')" "infl_good r'"
      "infl_content r = d @ infl_content r'" "infl_fate r' = infl_fate r" "length d \<le> n" "d \<noteq> []"
      using read_pending [OF less(2) _ assms(2)] by blast
    then show ?thesis by auto
  next
    case idle: True
    then have now: "infl_content r = fst (to_come r)" "infl_fate r = snd (to_come r)"
      by (simp_all add: infl_content_def infl_fate_def pend_def)
    show ?thesis
    proof (cases "if_done r")
      case True
      then show ?thesis using idle less(2) by (simp add: unfold now to_come_done)
    next
      case busy: False
      show ?thesis
      proof (cases rule: step_cases [OF inv(1) busy, case_names source tap refused step])
        case (source e r')
        then show ?thesis using idle busy to_come_stops [OF busy source(1)] by (simp add: unfold now)
      next
        case (tap e r' w d)
        then show ?thesis using idle busy to_come_stops [OF busy tap(1)] by (simp add: unfold now)
      next
        case (refused f r')
        then show ?thesis using idle busy to_come_stops [OF busy refused(1)] by (simp add: unfold now)
      next
        case (step r' out k)
        have come: "infl_content r = infl_content r'" "infl_fate r = infl_fate r'"
          using to_come_step [OF inv(1) busy step(1)] unfolding now by (simp_all add: infl_content_def infl_fate_def)
        have track: "tracks r' (hist @ out) (j + k)"
          by (rule tracks_step [OF inv(2) busy step(8-10) step(7)]) (use step(11,12) in auto)
        have good: "infl_good r'"
          by (rule infl_good_at [OF step(2) track]) (use step(3,5) in simp)
        have again: "inflate_read lib rd wr r n = inflate_read lib rd wr r' n"
          using idle busy step(1) by (simp add: unfold)
        show ?thesis
        proof (cases "if_pending_len r' = 0")
          case False
          then obtain d r'' where "inflate_read lib rd wr r' n = Some (Inr d, r'')" "infl_good r''"
            "infl_content r' = d @ infl_content r''" "infl_fate r'' = infl_fate r'" "length d \<le> n" "d \<noteq> []"
            using read_pending [OF good _ assms(2)] by blast
          then show ?thesis by (simp add: again come)
        next
          case idle': True
          show ?thesis
          proof (cases "if_done r'")
            case True
            then have "infl_content r' = []" "infl_fate r' = None"
              using idle' by (simp_all add: infl_content_def infl_fate_def pend_def to_come_done)
            moreover have "inflate_read lib rd wr r' n = Some (Inr [], r')"
              using idle' True by (simp add: inflate_read.simps [of lib rd wr r' n])
            ultimately show ?thesis using idle' good True by (simp add: again come)
          next
            case False
            show ?thesis unfolding again come by (rule less(1) [OF step(13) [OF False] good])
          qed
        qed
      qed
    qed
  qed
qed

sublocale infl: source "inflate_read lib rd wr" infl_good infl_content infl_fate "\<lambda>_. 0"
proof unfold_locales
  fix r :: "('z, 's, 'w) inflater" and n :: nat
  assume "infl_good r" "0 < n"
  from read_result [OF this] show "\<exists>q r'. inflate_read lib rd wr r n = Some (q, r')" by blast
next
  fix r r' :: "('z, 's, 'w) inflater" and n :: nat and d
  assume "infl_good r" "0 < n" "inflate_read lib rd wr r n = Some (Inr d, r')"
  with read_result [of r n] show "infl_good r' \<and> infl_content r = d @ infl_content r'
      \<and> infl_fate r' = infl_fate r \<and> length d \<le> n \<and> 0 \<le> (0 :: nat)
      \<and> (d = [] \<longrightarrow> infl_content r = [] \<and> infl_fate r = None)"
    by auto
next
  fix r r' :: "('z, 's, 'w) inflater" and n :: nat
  assume "infl_good r" "0 < n" "inflate_read lib rd wr r n = Some (Inl Interrupted, r')"
  with read_result [of r n] show "infl_good r' \<and> infl_content r' = infl_content r \<and> infl_fate r' = infl_fate r
      \<and> 0 < (0 :: nat)"
    by auto
next
  fix r r' :: "('z, 's, 'w) inflater" and n :: nat and e
  assume "infl_good r" "0 < n" "inflate_read lib rd wr r n = Some (Inl e, r')" "e \<noteq> Interrupted"
  with read_result [of r n] show "infl_content r = [] \<and> infl_fate r = Some e" by auto
next
  fix r :: "('z, 's, 'w) inflater"
  assume good: "infl_good r"
  then show "infl_fate r \<noteq> Some Interrupted"
    using to_come_final by (auto simp: infl_good_def infl_fate_def)
qed

text \<open>A reader at its start.\<close>

lemma infl_start:
  assumes "inflate_with_tap lib h src expected limit tap = Ok r" "inflate_documented lib den"
    and "good src" "wgood tap" "content src = stream" "written tap = tapped" "fate src = ending"
  shows "infl_inv r []" "infl_good r" "\<not> if_done r" "infl_content r = fst (to_come r)"
    and "if_src r = src" "if_expected r = expected" "if_limit r = limit"
    and "promised r [] out n \<longleftrightarrow>
      den (inf_init lib) [] stream = Some (out, n) \<and> length out = expected \<and> expected \<le> limit"
proof -
  from assms(1) have r: "r = \<lparr>if_src = src, if_tap = tap, if_dec = inf_init lib, if_input = replicate chunk 0,
      if_start = 0, if_end = 0, if_src_done = False, if_window = replicate inflate_window 0, if_out_pos = 0,
      if_pending = 0, if_pending_len = 0, if_produced = 0, if_expected = expected, if_limit = limit,
      if_done = False\<rparr>"
    by (auto simp: inflate_with_tap_def chunk_buffer_def split: if_splits)
  show inv: "infl_inv r []"
    using assms(2-4) by (simp add: infl_inv_def r window_holds_start)
  have ahead: "ahead r = stream" by (simp add: ahead_def r assms(5))
  have "tracks r [] 0"
    using assms(6,7) ahead by (simp add: tracks_def r option.map_id case_prod_eta)
  then show "infl_good r" by (rule infl_good_at [OF inv]) (simp add: r)
  show "\<not> if_done r" "infl_content r = fst (to_come r)" "if_src r = src" "if_expected r = expected"
    "if_limit r = limit"
    by (simp_all add: r infl_content_def pend_def)
  show "promised r [] out n \<longleftrightarrow>
      den (inf_init lib) [] stream = Some (out, n) \<and> length out = expected \<and> expected \<le> limit"
    unfolding promised_def ahead by (simp add: r)
qed

text \<open>Everything the reader releases, and its end, when the source has no error and the tap takes all.\<close>

lemma infl_verdict:
  assumes "inflate_with_tap lib h src expected limit tap = Ok r" "inflate_documented lib den"
    and "good src" "wgood tap" "content src = stream" "written tap = tapped"
    and "fate src = ending" "ending = None" "takes_all"
  shows "length (infl_content r) \<le> min limit expected"
    and "case den (inf_init lib) [] stream of
           Some (out, n) \<Rightarrow> if length out = expected \<and> expected \<le> limit
             then infl_content r = out \<and> infl_fate r = None else infl_fate r \<noteq> None
         | None \<Rightarrow> infl_fate r \<noteq> None"
proof -
  note start = infl_start [OF assms(1-7)]
  note verdict = to_come_verdict [OF start(1)]
  show "length (infl_content r) \<le> min limit expected"
    using verdict start(4,6,7) by simp
  have yes: "infl_content r = out \<and> infl_fate r = None"
    if "den (inf_init lib) [] stream = Some (out, n)" "length out = expected" "expected \<le> limit" for out n
  proof -
    have "promised r [] out n" using that start(8) by simp
    moreover have "fate (if_src r) = None" using assms(7,8) start(5) by simp
    ultimately have "to_come r = (out, None)"
      using verdict [THEN conjunct2, THEN conjunct2, rule_format, OF start(3)] assms(9) by blast
    then show ?thesis using start(4) by (simp add: infl_fate_def)
  qed
  have no: "\<exists>out n. den (inf_init lib) [] stream = Some (out, n) \<and> length out = expected \<and> expected \<le> limit"
    if "infl_fate r = None"
    using verdict [THEN conjunct2, THEN conjunct1, rule_format] that start(3,8) unfolding infl_fate_def by blast
  show "case den (inf_init lib) [] stream of
           Some (out, n) \<Rightarrow> if length out = expected \<and> expected \<le> limit
             then infl_content r = out \<and> infl_fate r = None else infl_fate r \<noteq> None
         | None \<Rightarrow> infl_fate r \<noteq> None"
    using yes no by (cases "den (inf_init lib) [] stream") fastforce+
qed

text \<open>Whatever the source does: a clean end is a stream decoded in full, and it leaves the source as it was.\<close>

lemma infl_sound:
  assumes "inflate_with_tap lib h src expected limit tap = Ok r" "inflate_documented lib den"
    and "good src" "wgood tap" "content src = stream" "written tap = tapped" "fate src = ending"
    and "infl_fate r = None"
  obtains n where "den (inf_init lib) [] stream = Some (infl_content r, n)"
    "length (infl_content r) = expected" "expected \<le> limit"
proof -
  note start = infl_start [OF assms(1-7)]
  obtain n where "promised r [] (fst (to_come r)) n"
    using to_come_verdict [OF start(1), THEN conjunct2, THEN conjunct1, rule_format] assms(8) start(3)
    unfolding infl_fate_def by blast
  then show thesis using that start(4,8) by auto
qed

lemma infl_good_source: "infl_good r \<Longrightarrow> good (if_src r) \<and> fate (if_src r) = ending"
  by (auto simp: infl_good_def infl_inv_def tracks_def)

end

interpretation isegs: inflate_over read_segments segments_good segments_content segments_fate
    segments_patience sink_write "\<lambda>_. True" "\<lambda>w. w" "\<lambda>_. 0" lib den stream tapped ending
  for lib :: "'z inflate_lib" and den stream tapped ending
  by (rule inflate_over.intro [OF segs.source_axioms sunk.sink_axioms])

section \<open>Properties\<close>

text \<open>
  C24. Reading an inflater to its end returns, on every member and however it arrives: the bytes the
  member decodes to, if it is a stream whose length is the manifest's and within the limit, and an
  error otherwise.
\<close>

theorem inflate_reads_the_stream:
  assumes "inflate_new lib h ss expected limit = Ok r" "inflate_documented lib den"
    and "segments_good ss" "segments_fate ss = None" "expected < n"
  shows "\<exists>q r'. read_full (inflate_read lib read_segments sink_write) r n = Some (q, r')
    \<and> (case den (inf_init lib) [] (segments_content ss) of
         Some (out, k) \<Rightarrow> if length out = expected \<and> expected \<le> limit then q = Inr out else (\<exists>e. q = Inl e)
       | None \<Rightarrow> \<exists>e. q = Inl e)"
proof -
  define stream where "stream = segments_content ss"
  note new = assms(1) [unfolded inflate_new_def]
  have good: "isegs.infl_good lib den stream [] None r"
    by (rule isegs.infl_start(2) [OF new assms(2,3)]) (simp_all add: stream_def assms(4))
  have len: "length (isegs.infl_content lib r) \<le> min limit expected"
    by (rule isegs.infl_verdict(1) [OF new assms(2,3), where stream = stream and tapped = "[]" and ending = None])
       (simp_all add: stream_def assms(4) sink_takes_all)
  have verdict: "case den (inf_init lib) [] stream of
      Some (out, k) \<Rightarrow> if length out = expected \<and> expected \<le> limit
        then isegs.infl_content lib r = out \<and> isegs.infl_fate lib r = None else isegs.infl_fate lib r \<noteq> None
    | None \<Rightarrow> isegs.infl_fate lib r \<noteq> None"
    by (rule isegs.infl_verdict(2) [OF new assms(2,3), where tapped = "[]" and ending = None])
       (simp_all add: stream_def assms(4) sink_takes_all)
  have n: "\<not> n \<le> length (isegs.infl_content lib r)" using len assms(5) by simp
  show ?thesis
  proof (cases "isegs.infl.delivered lib r n")
    case (Inl e)
    then have "isegs.infl_fate lib r = Some e" by (rule isegs.infl.delivered_fails [THEN conjunct1])
    moreover obtain r' where "read_full (inflate_read lib read_segments sink_write) r n = Some (Inl e, r')"
      by (rule isegs.infl.read_full_fails [OF good Inl])
    ultimately show ?thesis using verdict unfolding stream_def by (auto split: option.splits if_splits)
  next
    case (Inr d)
    have d: "isegs.infl_content lib r = d" "isegs.infl_fate lib r = None"
      using Inr n by (auto simp: isegs.infl.delivered_def split: option.splits)
    moreover obtain r' where "read_full (inflate_read lib read_segments sink_write) r n = Some (Inr d, r')"
      by (rule isegs.infl.read_full_delivers [OF good Inr])
    ultimately show ?thesis using verdict unfolding stream_def by (auto split: option.splits if_splits)
  qed
qed

text \<open>A codec that shows the documented behaviour can hold: literal bytes up to a zero.\<close>

definition zero_den :: "unit \<Rightarrow> bytes \<Rightarrow> bytes \<Rightarrow> (bytes \<times> nat) option" where
  "zero_den z hist xs =
    (if 0 \<in> set xs then Some (takeWhile (\<lambda>b. b \<noteq> 0) xs, length (takeWhile (\<lambda>b. b \<noteq> 0) xs) + 1) else None)"

definition zero_inflate :: "unit inflate_lib" where
  "zero_inflate = \<lparr>inf_init = (),
     inf_step = (\<lambda>z input win pos goes_on.
       let lits = takeWhile (\<lambda>b. b \<noteq> 0) input; room = inflate_window - pos in
       if room \<le> length lits then (InflMoreOutput, room, take room lits, ())
       else if length lits < length input then (InflDone, length lits + 1, lits, ())
       else if goes_on then (InflMoreInput, length input, lits, ())
       else (InflFailed ''FailedCannotMakeProgress'', length input, lits, ()))\<rparr>"

lemma takeWhile_short: "length (takeWhile P xs) < length xs \<Longrightarrow> \<exists>x \<in> set xs. \<not> P x"
  by (induction xs) (auto split: if_splits)

lemma zero_den_append:
  assumes "k \<le> length (takeWhile (\<lambda>b. b \<noteq> 0) xs)"
  shows "zero_den z hist xs = map_option (\<lambda>(o', n). (take k xs @ o', k + n)) (zero_den z' hist' (drop k xs))"
proof -
  have "take k xs = take k (takeWhile (\<lambda>b. b \<noteq> 0) xs)"
    using assms by (metis takeWhile_eq_take take_take min.absorb1)
  then have lits: "\<forall>b \<in> set (take k xs). b \<noteq> 0"
    by (metis in_set_takeD set_takeWhileD)
  have "takeWhile (\<lambda>b. b \<noteq> 0) (take k xs @ drop k xs) = take k xs @ takeWhile (\<lambda>b. b \<noteq> 0) (drop k xs)"
    by (rule takeWhile_append2) (use lits in auto)
  then have tw: "takeWhile (\<lambda>b. b \<noteq> 0) xs = take k xs @ takeWhile (\<lambda>b. b \<noteq> 0) (drop k xs)"
    unfolding append_take_drop_id .
  have "set xs = set (take k xs) \<union> set (drop k xs)" by (metis append_take_drop_id set_append)
  then have "0 \<in> set xs \<longleftrightarrow> 0 \<in> set (drop k xs)" using lits by auto
  moreover have "k \<le> length xs" using assms length_takeWhile_le le_trans by blast
  ultimately show ?thesis by (simp add: zero_den_def tw)
qed

lemma zero_inflate_documented: "inflate_documented zero_inflate zero_den"
proof (unfold inflate_documented_def, intro allI impI)
  fix z :: unit and hist input rest win :: bytes and pos :: nat and goes_on :: bool
  assume win: "window_holds win pos hist" and ends: "\<not> goes_on \<longrightarrow> rest = []"
  define lits where "lits = takeWhile (\<lambda>b. b \<noteq> 0) input"
  define room where "room = inflate_window - pos"
  have room: "0 < room" "pos + room = inflate_window" using window_pos [OF win] by (simp_all add: room_def)
  have lits: "length lits \<le> length input" "take (length lits) input = lits"
    unfolding lits_def by (simp_all add: length_takeWhile_le takeWhile_eq_take [symmetric])
  have prefix: "length lits \<le> length (takeWhile (\<lambda>b. b \<noteq> 0) (input @ rest))"
    unfolding lits_def by (induction input) auto
  consider "room \<le> length lits" | "length lits < room" "length lits < length input"
    | "length lits < room" "length lits = length input" using lits(1) by linarith
  then show "inflate_law zero_inflate zero_den z hist input rest win pos goes_on"
  proof cases
    case 1
    have "take room (input @ rest) = take room lits"
      using 1 lits by (metis take_append take_take min.absorb1 append_Nil2 diff_is_0_eq' le_trans take_eq_Nil)
    moreover have "zero_den z hist (input @ rest) = map_option (\<lambda>(o', n). (take room (input @ rest) @ o', room + n))
        (zero_den () (hist @ take room lits) (drop room (input @ rest)))"
      by (rule zero_den_append) (use 1 prefix in linarith)
    moreover have "lits \<noteq> []" using 1 room(1) by auto
    ultimately show ?thesis using 1 room lits(1)
      by (simp add: inflate_law_def zero_inflate_def Let_def flip: lits_def room_def)
  next
    case 2
    obtain b where "b \<in> set input" "b = 0"
      using takeWhile_short [OF 2(2) [unfolded lits_def]] by auto
    then have "0 \<in> set input" "takeWhile (\<lambda>b. b \<noteq> 0) (input @ rest) = lits"
      by (auto simp: lits_def)
    then show ?thesis using 2 room
      by (simp add: inflate_law_def zero_inflate_def Let_def zero_den_def flip: lits_def room_def)
  next
    case 3
    have "lits = take (length lits) input" by (rule lits(2) [symmetric])
    also have "\<dots> = input" unfolding 3(2) by simp
    finally have all: "lits = input" .
    have "0 \<notin> set lits" unfolding lits_def by (auto dest: set_takeWhileD)
    then have none: "0 \<notin> set input" unfolding all .
    have "zero_den z hist (input @ rest) = map_option (\<lambda>(o', n). (take (length input) (input @ rest) @ o', length input + n))
        (zero_den () (hist @ lits) (drop (length input) (input @ rest)))"
      by (rule zero_den_append) (use 3 prefix in linarith)
    then show ?thesis using 3 room all none ends
      by (simp add: inflate_law_def zero_inflate_def Let_def zero_den_def flip: lits_def room_def)
  qed
qed

theorem inflate_reads_witness:
  "\<exists>r r'. inflate_new zero_inflate rich_host [Data [7, 8], Interrupt, Data [9, 0, 1]] 3 100 = Ok r
    \<and> read_full (inflate_read zero_inflate read_segments sink_write) r 4 = Some (Inr [7, 8, 9], r')"
proof -
  define ss where "ss = [Data [7, 8 :: byte], Interrupt, Data [9, 0, 1]]"
  obtain r where r: "inflate_new zero_inflate rich_host ss 3 100 = Ok r"
    by (auto simp: inflate_new_def inflate_with_tap_def chunk_buffer_def rich_host_def)
  have ss: "segments_good ss" "segments_fate ss = None" "(3 :: nat) < 4" by (simp_all add: ss_def)
  have den: "zero_den (inf_init zero_inflate) [] (segments_content ss) = Some ([7, 8, 9], 4)"
    by (simp add: ss_def zero_den_def)
  from inflate_reads_the_stream [OF r zero_inflate_documented ss, unfolded den] r show ?thesis
    unfolding ss_def by auto
qed

text \<open>
  What a caller has been given by reads of these sizes, one after another, up to the first failure; an
  interrupted read is tried again with the next size.
\<close>

fun released :: "'s reader \<Rightarrow> 's \<Rightarrow> nat list \<Rightarrow> bytes" where
  "released rd s [] = []"
| "released rd s (n # ns) = (case rd s n of
     Some (Inr d, s') \<Rightarrow> d @ released rd s' ns
   | Some (Inl Interrupted, s') \<Rightarrow> released rd s' ns
   | _ \<Rightarrow> [])"

lemma released_interrupted:
  "rd s n = Some (Inl e, s') \<Longrightarrow> released rd s (n # ns) = (if e = Interrupted then released rd s' ns else [])"
  by (cases e) simp_all

context source begin

lemma released_prefix:
  "good s \<Longrightarrow> \<forall>n \<in> set ns. 0 < n \<Longrightarrow> \<exists>rest. content s = released rd s ns @ rest"
proof (induction ns arbitrary: s)
  case (Cons n ns)
  have n: "0 < n" "\<forall>n \<in> set ns. 0 < n" using Cons.prems(2) by simp_all
  obtain q s' where step: "rd s n = Some (q, s')" using returns [OF Cons.prems(1) n(1)] by blast
  show ?case
  proof (cases q)
    case (Inr d)
    note law = data [OF Cons.prems(1) n(1) step [unfolded Inr]]
    obtain rest where "content s' = released rd s' ns @ rest" using Cons.IH law n(2) by blast
    then show ?thesis using law step by (simp add: Inr)
  next
    case (Inl e)
    show ?thesis
    proof (cases "e = Interrupted")
      case True
      then show ?thesis
        using interrupted [OF Cons.prems(1) n(1), of s'] step Cons.IH [of s'] n(2)
        by (auto simp: Inl released_interrupted)
    qed (use step released_interrupted [of rd s n e s' ns] in \<open>simp add: Inl\<close>)
  qed
qed simp

lemma released_bytewise:
  "good s \<Longrightarrow> patience s = 0 \<Longrightarrow> released rd s (replicate (length (content s)) 1) = content s"
proof (induction "length (content s)" arbitrary: s)
  case (Suc m)
  have one: "0 < (1 :: nat)" by simp
  obtain q s' where step: "rd s 1 = Some (q, s')" using returns [OF Suc.prems(1) one] by blast
  show ?case
  proof (cases q)
    case (Inl e)
    have "content s = [] \<or> patience s' < patience s"
      using fails [OF Suc.prems(1) one step [unfolded Inl]] interrupted [OF Suc.prems(1) one] step
      unfolding Inl by blast
    then show ?thesis using Suc.prems(2) Suc.hyps(2) by auto
  next
    case (Inr d)
    note law = data [OF Suc.prems(1) one step [unfolded Inr]]
    have "d \<noteq> []" using law Suc.hyps(2) by auto
    then have d: "length d = 1" using law by (cases d) auto
    have len: "length (content s) = Suc (length (content s'))" using law d by simp
    then have "released rd s' (replicate (length (content s')) 1) = content s'"
      using Suc.hyps law Suc.prems(2) by simp
    then show ?thesis unfolding len using law step by (simp add: Inr)
  qed
qed simp

end

text \<open>
  The failure is not remembered: the bytes that broke the bound are pending already when the check refuses
  them, so a caller that reads on after the refusal is given them.
\<close>

lemma refused_bytes_are_pending:
  "\<exists>r r1 r2. inflate_new zero_inflate rich_host (whole [7, 8, 9, 0]) 3 2 = Ok r
    \<and> inflate_read zero_inflate read_segments sink_write r 3 = Some (Inl (into_io FaultOutputLimit), r1)
    \<and> inflate_read zero_inflate read_segments sink_write r1 3 = Some (Inr [7, 8, 9], r2)"
proof -
  define r where "r = \<lparr>if_src = whole [7, 8, 9, 0 :: byte], if_tap = [] :: bytes, if_dec = (),
      if_input = replicate chunk (0 :: byte), if_start = 0, if_end = 0, if_src_done = False,
      if_window = replicate inflate_window 0, if_out_pos = 0, if_pending = 0, if_pending_len = 0,
      if_produced = 0, if_expected = 3, if_limit = 2, if_done = False\<rparr>"
  have new: "inflate_new zero_inflate rich_host (whole [7, 8, 9, 0]) 3 2 = Ok r"
    by (simp add: inflate_new_def inflate_with_tap_def chunk_buffer_def rich_host_def r_def zero_inflate_def)
  obtain s where s: "read_full read_segments (whole [7, 8, 9, 0 :: byte]) chunk = Some (Inr [7, 8, 9, 0], s)"
    by (rule segs.read_full_delivers [of "whole [7, 8, 9, 0]" chunk "[7, 8, 9, 0]"])
       (simp_all add: segs.delivered_def chunk_def)
  define r0 where "r0 = r\<lparr>if_src := s, if_input := [7, 8, 9, 0] @ replicate (chunk - 4) 0, if_end := 4, if_src_done := True\<rparr>"
  have fill: "inflate_fill read_segments r = Some (Inr (), r0)"
    using s by (simp add: inflate_fill_def r_def r0_def chunk_def)
  define r1 where "r1 = r0\<lparr>if_tap := [7, 8, 9, 0], if_window := [7, 8, 9] @ replicate (inflate_window - 3) 0,
      if_start := 4, if_pending := 0, if_pending_len := 3, if_out_pos := 3, if_produced := 3\<rparr>"
  have tap: "write_all sink_write [] [7, 8, 9, 0] = Some (Inr (), [7, 8, 9, 0])"
    by (simp add: write_all.simps [of sink_write] sink_write_def)
  have mask: "Suc (Suc (Suc 0)) AND 32767 = 3"
    by (simp flip: numeral_3_eq_3)
  have "inflate_step zero_inflate read_segments sink_write r = Some (Inl (into_io FaultOutputLimit), r1)"
    unfolding inflate_step_def fill option.case prod.case sum.case
    using tap mask by (simp add: inflate_account_def r0_def r_def r1_def zero_inflate_def Let_def inflate_window_def)
  moreover have "if_pending_len r = 0" "\<not> if_done r" by (simp_all add: r_def)
  ultimately have "inflate_read zero_inflate read_segments sink_write r 3 = Some (Inl (into_io FaultOutputLimit), r1)"
    by (simp add: inflate_read.simps [of _ _ _ r])
  moreover have "\<exists>r2. inflate_read zero_inflate read_segments sink_write r1 3 = Some (Inr [7, 8, 9], r2)"
    unfolding inflate_read.simps [of _ _ _ r1] by (simp add: r1_def Let_def numeral_3_eq_3)
  ultimately show ?thesis using new by blast
qed

text \<open>
  C25. Until it fails, the inflater never releases more than the manifest's size and the limit, in any
  sequence of reads of any sizes, whatever the member is, a bomb included.
\<close>

theorem inflate_output_bounded:
  assumes "inflate_new lib h ss expected limit = Ok r" "inflate_documented lib den" "segments_good ss"
    and "\<forall>n \<in> set ns. 0 < n"
  shows "length (released (inflate_read lib read_segments sink_write) r ns) \<le> min limit expected"
proof -
  note new = assms(1) [unfolded inflate_new_def]
  note start = isegs.infl_start [OF new assms(2,3), where stream = "segments_content ss" and tapped = "[]"
    and ending = "segments_fate ss"]
  have good: "isegs.infl_good lib den (segments_content ss) [] (segments_fate ss) r" by (rule start(2)) simp_all
  have inv: "isegs.infl_inv lib den r []" by (rule start(1)) simp_all
  have content: "isegs.infl_content lib r = fst (isegs.to_come lib r)" "if_limit r = limit" "if_expected r = expected"
    by (rule start; simp)+
  have "length (isegs.infl_content lib r) \<le> min limit expected"
    using isegs.to_come_verdict [OF inv, THEN conjunct1] content by simp
  moreover obtain rest where "isegs.infl_content lib r
      = released (inflate_read lib read_segments sink_write) r ns @ rest"
    using isegs.infl.released_prefix [OF good assms(4)] by blast
  ultimately show ?thesis by simp
qed

theorem inflate_output_witness:
  "\<exists>r. inflate_new zero_inflate rich_host [Data [7, 8], Interrupt, Data [9, 0, 1]] 3 3 = Ok r
    \<and> released (inflate_read zero_inflate read_segments sink_write) r [1, 1, 1] = [7, 8, 9]
    \<and> length (released (inflate_read zero_inflate read_segments sink_write) r [1, 1, 1]) \<le> min 3 3"
proof -
  define ss where "ss = [Data [7, 8 :: byte], Interrupt, Data [9, 0, 1]]"
  obtain r where r: "inflate_new zero_inflate rich_host ss 3 3 = Ok r"
    by (auto simp: inflate_new_def inflate_with_tap_def chunk_buffer_def rich_host_def)
  have ss: "segments_good ss" "segments_fate ss = None" by (simp_all add: ss_def)
  note start = isegs.infl_start [OF r [unfolded inflate_new_def] zero_inflate_documented ss(1),
    where stream = "segments_content ss" and tapped = "[]" and ending = "segments_fate ss"]
  have good: "isegs.infl_good zero_inflate zero_den (segments_content ss) [] (segments_fate ss) r"
    by (rule start(2)) simp_all
  have inv: "isegs.infl_inv zero_inflate zero_den r []" by (rule start(1)) simp_all
  have busy: "\<not> if_done r" and fate: "segments_fate (if_src r) = None"
    and content: "isegs.infl_content zero_inflate r = fst (isegs.to_come zero_inflate r)"
    using start(3,4,5) ss(2) by simp_all
  have "isegs.promised zero_den r [] [7, 8, 9] 4"
    by (subst start(8)) (simp_all add: ss_def zero_den_def)
  then have "isegs.to_come zero_inflate r = ([7, 8, 9], None)"
    using isegs.to_come_verdict [OF inv, THEN conjunct2, THEN conjunct2] busy fate sink_takes_all by blast
  then have "isegs.infl_content zero_inflate r = [7, 8, 9]" using content by simp
  then have got: "released (inflate_read zero_inflate read_segments sink_write) r [1, 1, 1] = [7, 8, 9]"
    using isegs.infl.released_bytewise [OF good] by (simp add: numeral_3_eq_3)
  have "length (released (inflate_read zero_inflate read_segments sink_write) r [1, 1, 1]) \<le> min 3 3"
    by (rule inflate_output_bounded [OF r zero_inflate_documented ss(1)]) simp
  with r got show ?thesis unfolding ss_def by blast
qed

end
