(* ===== verification/Decrypt_Stream.thy ===== *)
theory Decrypt_Stream
  imports Package Gcm_Readers Inflate_Reader
begin

text \<open>
  The two passes over an AES-GCM member and the wholesome package of \<^verbatim>\<open>src/decrypt_stream.rs\<close>: verify,
  then decrypt, inflate and write, then read on to the end.  The lemmas show what a success means
  whatever the input does between the passes, that nothing is written before a pass has accepted the
  member, and what a package that does not change decrypts to.
\<close>

section \<open>Opening and ending a member\<close>

definition member_size :: "package \<Rightarrow> nat \<Rightarrow> nat" where
  "member_size pk i = (case pk_archive pk ! i of Inr e \<Rightarrow> ze_uncompressed_size e | Inl _ \<Rightarrow> 0)"

text \<open>A read of the package, its error reported by \<^verbatim>\<open>read_error\<close>.\<close>

definition reading :: "((io_error + 'a) \<times> 't) option \<Rightarrow> ('a \<times> 't, 's) run" where
  "reading r s = (case r of
      None \<Rightarrow> None
    | Some (Inl e, t) \<Rightarrow> Some (Inl (read_error e), s)
    | Some (Inr x, t) \<Rightarrow> Some (Inr (x, t), s))"

lemma reading_at [simp]:
  "reading (Some (Inr x, t)) s = Some (Inr (x, t), s)"
  "reading (Some (Inl e, t)) s = Some (Inl (read_error e), s)"
  "reading None s = None"
  by (simp_all add: reading_def)

definition member_shape :: "nat \<Rightarrow> (nat \<times> bytes, package) run" where
  "member_shape i =
    then_run (open_cooked i) (\<lambda>file.
    then_run (reading (read_full read_segments file aes_gcm_iv_len)) (\<lambda>(head, _) pk.
      Some (Ok (member_size pk i, head), pk)))"

definition open_after_iv :: "nat \<Rightarrow> (segment list, package) run" where
  "open_after_iv i =
    then_run (open_cooked i) (\<lambda>file.
    then_run (reading (read_full read_segments file aes_gcm_iv_len)) (\<lambda>(iv, file).
      answer (if length iv \<noteq> aes_gcm_iv_len then Err (BadParameters (MemberBad ShorterThanIvAndTag))
              else Ok file)))"

definition ensure_end :: "segment list \<Rightarrow> (unit, 's) run" where
  "ensure_end file =
    then_run (reading (read_full read_segments file 1)) (\<lambda>(one, _).
      answer (if one = [] then Ok () else Err (BadParameters (MemberBad LongerThanHeader))))"

section \<open>The verify pass\<close>

text \<open>\<^verbatim>\<open>len - 28\<close> on \<^verbatim>\<open>u64\<close>, as a release build computes it; \<^verbatim>\<open>screen_shape\<close> is what keeps it from wrapping.\<close>

definition ct_len_of :: "nat \<Rightarrow> nat" where
  "ct_len_of len = (len + 2 ^ 64 - (aes_gcm_iv_len + aes_gcm_tag_len)) mod 2 ^ 64"

definition gcm_accepts ::
    "'g gcm_lib \<Rightarrow> nat \<Rightarrow> entry_encryption \<Rightarrow> nat \<Rightarrow> bytes \<Rightarrow> (bool, package) run" where
  "gcm_accepts gl i row ct_len k =
    then_run (open_after_iv i) (\<lambda>file.
    then_run (reading (gcm_verify gl read_segments k (ee_iv row) file ct_len)) (\<lambda>(ok, file).
    then_run (ensure_end file) (\<lambda>_. answer (Ok ok))))"

definition gcm_key ::
    "crypto \<Rightarrow> host \<Rightarrow> 'g gcm_lib \<Rightarrow> nat \<Rightarrow> entry_encryption \<Rightarrow> nat \<Rightarrow> string \<Rightarrow> decrypt_limits
      \<Rightarrow> (bytes, package) run" where
  "gcm_key cr h gl i row len password limits =
    find_key cr h row password limits (gcm_accepts gl i row (ct_len_of len))"

section \<open>Copying\<close>

partial_function (option) copy_loop ::
    "'s reader \<Rightarrow> 'w writer \<Rightarrow> decrypt_limits \<Rightarrow> nat \<Rightarrow> 's \<Rightarrow> 'w
      \<Rightarrow> ((decrypt_error + unit) \<times> 's \<times> 'w) option" where
  "copy_loop rd wr limits n s w =
    (case rd s n of
       None \<Rightarrow> None
     | Some (q, s') \<Rightarrow> (case q of
         Inl e \<Rightarrow> Some (Inl (read_error_with limits e), s', w)
       | Inr d \<Rightarrow>
           if d = [] then Some (Inr (), s', w)
           else (case write_all wr w d of
              None \<Rightarrow> None
            | Some (q', w') \<Rightarrow> (case q' of
                Inl e \<Rightarrow> Some (Inl (Io e), s', w')
              | Inr _ \<Rightarrow> copy_loop rd wr limits n s' w'))))"

declare copy_loop.simps [code]

definition copy_out ::
    "host \<Rightarrow> 'z inflate_lib \<Rightarrow> 's reader \<Rightarrow> 'w writer \<Rightarrow> nat \<Rightarrow> decrypt_limits \<Rightarrow> 's \<Rightarrow> 'w
      \<Rightarrow> ((decrypt_error + unit) \<times> 's \<times> 'w) option" where
  "copy_out h il rd wr expected limits s w =
    (case inflate_new il h s expected (max_output limits) of
       Inl fault \<Rightarrow> Some (Inl (fault_error limits fault), s, w)
     | Inr inflate \<Rightarrow> (case buffer h of
         Inl e \<Rightarrow> Some (Inl e, s, w)
       | Inr buf \<Rightarrow>
           map_option (\<lambda>(q, inflate, w). (q, if_src inflate, w))
             (copy_loop (inflate_read il rd sink_write) wr limits (length buf) inflate w)))"

partial_function (option) drain_loop :: "'s reader \<Rightarrow> nat \<Rightarrow> 's \<Rightarrow> ((decrypt_error + unit) \<times> 's) option" where
  "drain_loop rd n s =
    (case rd s n of
       None \<Rightarrow> None
     | Some (q, s') \<Rightarrow> (case q of
         Inl e \<Rightarrow> Some (Inl (read_error e), s')
       | Inr d \<Rightarrow> if d = [] then Some (Inr (), s') else drain_loop rd n s'))"

declare drain_loop.simps [code]

definition drain :: "host \<Rightarrow> 's reader \<Rightarrow> 's \<Rightarrow> ((decrypt_error + unit) \<times> 's) option" where
  "drain h rd s = (case buffer h of Inl e \<Rightarrow> Some (Inl e, s) | Inr buf \<Rightarrow> drain_loop rd (length buf) s)"

section \<open>The member and the package\<close>

definition on_package :: "('a, package) run \<Rightarrow> ('a, package \<times> 'w) run" where
  "on_package m = (\<lambda>(pk, w). map_option (\<lambda>(r, pk'). (r, (pk', w))) (m pk))"

text \<open>\<^verbatim>\<open>release\<close> is the closure that receives the decrypted, still deflated stream.\<close>

type_synonym ('g, 'w) releaser =
  "('g, segment list) gcm_reader \<Rightarrow> 'w \<Rightarrow> ((decrypt_error + unit) \<times> ('g, segment list) gcm_reader \<times> 'w) option"

definition gcm_release ::
    "host \<Rightarrow> 'g gcm_lib \<Rightarrow> entry_encryption \<Rightarrow> nat \<Rightarrow> ('g, 'w) releaser \<Rightarrow> bytes \<Rightarrow> segment list
      \<Rightarrow> (unit, package \<times> 'w) run" where
  "gcm_release h gl row ct_len release key file = (\<lambda>(pk, w).
    (case gcm_new gl key (ee_iv row) of
       None \<Rightarrow> Some (Inl (Internal ''an AES-GCM key length screen_shape passed''), (pk, w))
     | Some gcm \<Rightarrow>
        (case release (file, Some gcm, ct_len) w of
           None \<Rightarrow> None
         | Some (Inl e, _, w') \<Rightarrow> Some (Inl e, (pk, w'))
         | Some (Inr _, plain, w') \<Rightarrow>
            (case drain h (gcm_decrypt_read gl read_segments) plain of
               None \<Rightarrow> None
             | Some (Inl e, _) \<Rightarrow> Some (Inl e, (pk, w'))
             | Some (Inr _, (file', _)) \<Rightarrow> ensure_end file' (pk, w')))))"

definition gcm_member ::
    "crypto \<Rightarrow> host \<Rightarrow> 'g gcm_lib \<Rightarrow> nat \<Rightarrow> entry_encryption \<Rightarrow> nat \<Rightarrow> string \<Rightarrow> decrypt_limits
      \<Rightarrow> ('g, 'w) releaser \<Rightarrow> (unit, package \<times> 'w) run" where
  "gcm_member cr h gl i row len password limits release =
    then_run (on_package (gcm_key cr h gl i row len password limits)) (\<lambda>key.
    then_run (on_package (open_after_iv i)) (\<lambda>file.
      gcm_release h gl row (ct_len_of len) release key file))"

definition find_member :: "string \<Rightarrow> decrypt_error \<Rightarrow> (nat \<times> string, package) run" where
  "find_member path missing pk = Some (member_for_archive (pk_archive pk) path missing, pk)"

definition wholesome ::
    "crypto \<Rightarrow> host \<Rightarrow> 'g gcm_lib \<Rightarrow> 'z inflate_lib \<Rightarrow> 'w writer \<Rightarrow> nat \<Rightarrow> entry_encryption \<Rightarrow> string
      \<Rightarrow> decrypt_limits \<Rightarrow> sizes \<Rightarrow> (unit, package \<times> 'w) run" where
  "wholesome cr h gl il wr row_index row password limits sizes =
    then_run (answer (sizes_declared sizes (ee_size row))) (\<lambda>expected.
    then_run (on_package (find_member (ee_path row) (no_member row_index))) (\<lambda>(i, _).
    then_run (on_package (member_shape i)) (\<lambda>(len, head).
    then_run (answer (screen_shape row len head)) (\<lambda>_.
      gcm_member cr h gl i row len password limits
        (copy_out h il (gcm_decrypt_read gl read_segments) wr expected limits)))))"

section \<open>Copying from a source to a sink\<close>

context source begin

text \<open>What every read keeps may be added to the good states.\<close>

lemma keeping:
  assumes "\<And>s n d s'. good s \<Longrightarrow> P s \<Longrightarrow> 0 < n \<Longrightarrow> rd s n = Some (Inr d, s') \<Longrightarrow> P s'"
    and "\<And>s n s'. good s \<Longrightarrow> P s \<Longrightarrow> 0 < n \<Longrightarrow> rd s n = Some (Inl Interrupted, s') \<Longrightarrow> P s'"
  shows "source rd (\<lambda>s. good s \<and> P s) content fate patience"
proof (rule source.intro)
  fix s and n :: nat assume "good s \<and> P s" "0 < n"
  then show "\<exists>r s'. rd s n = Some (r, s')" using returns by simp
next
  fix s s' and n :: nat and d assume *: "good s \<and> P s" "0 < n" "rd s n = Some (Inr d, s')"
  then show "(good s' \<and> P s') \<and> content s = d @ content s' \<and> fate s' = fate s \<and> length d \<le> n
      \<and> patience s' \<le> patience s \<and> (d = [] \<longrightarrow> content s = [] \<and> fate s = None)"
    using data [OF _ *(2,3)] assms(1) [OF _ _ *(2,3)] by auto
next
  fix s s' and n :: nat assume *: "good s \<and> P s" "0 < n" "rd s n = Some (Inl Interrupted, s')"
  then show "(good s' \<and> P s') \<and> content s' = content s \<and> fate s' = fate s \<and> patience s' < patience s"
    using interrupted [OF _ *(2,3)] assms(2) [OF _ _ *(2,3)] by simp
next
  fix s s' and n :: nat and e assume *: "good s \<and> P s" "0 < n" "rd s n = Some (Inl e, s')" "e \<noteq> Interrupted"
  then show "content s = [] \<and> fate s = Some e" using fails [OF _ *(2-4)] by simp
next
  fix s assume "good s \<and> P s"
  then show "fate s \<noteq> Some Interrupted" using final by simp
qed

lemma drain_loop_result:
  assumes "good s" "0 < n"
  shows "\<exists>q s'. drain_loop rd n s = Some (q, s')
    \<and> (case q of Inr _ \<Rightarrow> good s' \<and> fate s = None \<and> (\<exists>s1. good s1 \<and> rd s1 n = Some (Inr [], s'))
       | Inl e \<Rightarrow> (\<exists>x. e = read_error x \<and> (x = Interrupted \<and> 0 < patience s \<or> fate s = Some x)))"
  using assms(1)
proof (induction "length (content s)" arbitrary: s rule: less_induct)
  case less
  obtain q s1 where step: "rd s n = Some (q, s1)" using returns [OF less(2) assms(2)] by blast
  show ?case
  proof (cases q)
    case (Inl e)
    show ?thesis
    proof (cases "e = Interrupted")
      case True
      then show ?thesis
        using interrupted [OF less(2) assms(2) step [unfolded Inl True]]
        by (auto simp: drain_loop.simps [of rd n s] step Inl)
    next
      case False
      then show ?thesis
        using fails [OF less(2) assms(2) step [unfolded Inl]] by (auto simp: drain_loop.simps [of rd n s] step Inl)
    qed
  next
    case (Inr d)
    note law = data [OF less(2) assms(2) step [unfolded Inr]]
    show ?thesis
    proof (cases "d = []")
      case True
      then show ?thesis using law step less(2) Inr by (auto simp: drain_loop.simps [of rd n s])
    next
      case False
      then have shorter: "length (content s1) < length (content s)" using law by (cases d) auto
      obtain q' s' where rest: "drain_loop rd n s1 = Some (q', s')"
        "case q' of Inr _ \<Rightarrow> good s' \<and> fate s1 = None \<and> (\<exists>s1. good s1 \<and> rd s1 n = Some (Inr [], s'))
         | Inl e \<Rightarrow> (\<exists>x. e = read_error x \<and> (x = Interrupted \<and> 0 < patience s1 \<or> fate s1 = Some x))"
        using less(1) [OF shorter] law by blast
      have now: "drain_loop rd n s = Some (q', s')"
        using False rest(1) by (simp add: drain_loop.simps [of rd n s] step Inr)
      show ?thesis using rest(2) law now by (cases q') auto
    qed
  qed
qed

end

text \<open>A sink with room for some more bytes: it refuses no part of them.\<close>

context sink begin

definition room :: "'w \<Rightarrow> bytes \<Rightarrow> bool" where
  "room w bs \<longleftrightarrow> (\<forall>w0 d m x w1. wgood w0 \<longrightarrow> written w0 @ d = written w @ take m bs \<longrightarrow>
     write_all wr w0 d \<noteq> Some (Inl x, w1))"

lemma takes_all_room: "takes_all \<Longrightarrow> room w bs"
  unfolding room_def
proof (intro allI impI)
  fix w0 d x w1
  assume "takes_all" "wgood w0"
  then obtain w' where "write_all wr w0 d = Some (Inr (), w')" unfolding takes_all_def by blast
  then show "write_all wr w0 d \<noteq> Some (Inl x, w1)" by simp
qed

definition refused_within :: "'w \<Rightarrow> bytes \<Rightarrow> io_error \<Rightarrow> bool" where
  "refused_within w bs x \<longleftrightarrow> (\<exists>w0 d m w1. wgood w0 \<and> written w0 @ d = written w @ take m bs
     \<and> write_all wr w0 d = Some (Inl x, w1))"

lemma refused_no_room: "refused_within w bs x \<Longrightarrow> \<not> room w bs"
  unfolding refused_within_def room_def by blast

lemma refused_shift:
  assumes "refused_within w1 bs x" "written w1 = written w @ d"
  shows "refused_within w (d @ bs) x"
proof -
  obtain w0 d0 m w2 where *: "wgood w0" "written w0 @ d0 = written w1 @ take m bs"
    "write_all wr w0 d0 = Some (Inl x, w2)"
    using assms(1) unfolding refused_within_def by blast
  have "written w0 @ d0 = written w @ take (length d + m) (d @ bs)" using *(2) assms(2) by simp
  with *(1,3) show ?thesis unfolding refused_within_def by blast
qed

end

locale copying = source rd good content fate patience + dst: sink wr wgood written wpatience
  for rd :: "'s reader" and good content fate patience and wr :: "'w writer" and wgood written wpatience
begin

lemma copy_loop_result:
  assumes "good s" "wgood w" "0 < n" "patience s = 0"
  shows "\<exists>q s' w'. copy_loop rd wr limits n s w = Some (q, s', w')
    \<and> (case q of
         Inr _ \<Rightarrow> good s' \<and> wgood w' \<and> fate s = None \<and> written w' = written w @ content s
       | Inl e \<Rightarrow> (\<exists>k \<le> length (content s). written w' = written w @ take k (content s))
           \<and> ((\<exists>x. fate s = Some x \<and> e = read_error_with limits x) \<or> (\<exists>x. e = Io x \<and> dst.refused_within w (content s) x)))"
  using assms(1,2,4)
proof (induction "length (content s)" arbitrary: s w rule: less_induct)
  case less
  note unfold = copy_loop.simps [of rd wr limits n s w]
  obtain q s1 where step: "rd s n = Some (q, s1)" using returns [OF less(2) assms(3)] by blast
  show ?case
  proof (cases q)
    case (Inl e)
    have "e \<noteq> Interrupted"
      using interrupted [OF less(2) assms(3)] step less(4) unfolding Inl by force
    then have "content s = []" "fate s = Some e" using fails [OF less(2) assms(3) step [unfolded Inl]] by auto
    then show ?thesis by (auto simp: unfold step Inl)
  next
    case (Inr d)
    note law = data [OF less(2) assms(3) step [unfolded Inr]]
    show ?thesis
    proof (cases "d = []")
      case True
      then show ?thesis using law less(3) by (auto simp: unfold step Inr)
    next
      case False
      then have shorter: "length (content s1) < length (content s)" using law by (cases d) auto
      show ?thesis
      proof (cases rule: dst.write_all_cases [OF less(3), of d, case_names ok stop])
        case (ok w1)
        have p: "patience s1 = 0" using law less(4) by simp
        obtain q' s' w' where rest: "copy_loop rd wr limits n s1 w1 = Some (q', s', w')"
          "case q' of
             Inr _ \<Rightarrow> good s' \<and> wgood w' \<and> fate s1 = None \<and> written w' = written w1 @ content s1
           | Inl e \<Rightarrow> (\<exists>k \<le> length (content s1). written w' = written w1 @ take k (content s1))
               \<and> ((\<exists>x. fate s1 = Some x \<and> e = read_error_with limits x) \<or> (\<exists>x. e = Io x \<and> dst.refused_within w1 (content s1) x))"
          using less(1) [OF shorter _ ok(2) p] law by blast
        have now: "copy_loop rd wr limits n s w = Some (q', s', w')"
          using False rest(1) by (simp add: unfold step Inr ok(1))
        show ?thesis
        proof (cases q')
          case (Inl e)
          then obtain k where k: "k \<le> length (content s1)" "written w' = written w1 @ take k (content s1)"
            using rest(2) by auto
          have "written w' = written w @ take (length d + k) (content s)"
            using k(2) ok(3) law by simp
          moreover have "length d + k \<le> length (content s)" using k(1) law by simp
          ultimately have "\<exists>k \<le> length (content s). written w' = written w @ take k (content s)" by blast
          moreover have "dst.refused_within w1 (content s1) x \<Longrightarrow> dst.refused_within w (content s) x" for x
            using dst.refused_shift [of w1 "content s1" x w d] ok(3) law by simp
          ultimately show ?thesis using rest(2) law unfolding now Inl by auto
        next
          case (Inr u)
          then show ?thesis using rest(2) law ok(3) unfolding now by auto
        qed
      next
        case (stop e k w1)
        have "written w1 = written w @ take k (content s)" "k \<le> length (content s)"
          using stop(3,4) law by simp_all
        moreover have "dst.refused_within w (content s) e"
          unfolding dst.refused_within_def using less(3) stop(1) law
          by (intro exI [of _ w] exI [of _ d] exI [of _ "length d"] exI [of _ w1]) auto
        ultimately show ?thesis using False by (auto simp: unfold step Inr stop(1))
      qed
    qed
  qed
qed

end

locale copy_over = inflate_over rd good content fate patience sink_write "\<lambda>_. True" "\<lambda>w. w" "\<lambda>_. 0"
    lib den stream "[]" ending + dst: sink wr wgood written wpatience
  for rd :: "'s reader" and good content fate patience and lib :: "'z inflate_lib" and den stream ending
    and wr :: "'w writer" and wgood written wpatience
begin

sublocale copied: copying "inflate_read lib rd sink_write" infl_good infl_content infl_fate "\<lambda>_. 0"
    wr wgood written wpatience
  by unfold_locales

lemma copy_out_result:
  assumes "inflate_documented lib den" "good s" "content s = stream" "fate s = ending" "wgood w"
  obtains q s' w' k out where "copy_out h lib rd wr expected limits s w = Some (q, s', w')"
    "written w' = written w @ take k out" "k \<le> length out" "length out \<le> min (max_output limits) expected"
    "q = Inr () \<Longrightarrow> k = length out \<and> good s' \<and> fate s' = ending \<and> wgood w'
       \<and> (\<exists>n. den (inf_init lib) [] stream = Some (out, n)) \<and> length out = expected
       \<and> expected \<le> max_output limits"
    "(\<forall>n. host_reserves h n) \<Longrightarrow> dst.room w plain \<Longrightarrow> ending = None \<Longrightarrow>
       den (inf_init lib) [] stream = Some (plain, m) \<Longrightarrow> length plain = expected \<Longrightarrow>
       expected \<le> max_output limits \<Longrightarrow> q = Inr () \<and> out = plain"
proof (cases "inflate_new lib h s expected (max_output limits)")
  case (Inl fault)
  have "\<exists>n. \<not> host_reserves h n"
    using Inl by (auto simp: inflate_new_def inflate_with_tap_def and_then_Err chunk_buffer_def split: if_splits)
  then show thesis
    by (intro that [of "Inl (fault_error limits fault)" s w 0 "[]"]) (auto simp: copy_out_def Inl)
next
  case (Inr r)
  have new: "inflate_with_tap lib h s expected (max_output limits) [] = Ok r"
    using Inr by (simp add: inflate_new_def)
  note start = infl_start [OF new assms(1,2) TrueI assms(3) refl assms(4)]
  have len: "length (infl_content r) \<le> min (max_output limits) expected"
    using to_come_verdict [OF start(1), THEN conjunct1] start(4,6,7) by simp
  show thesis
  proof (cases "host_reserves h chunk")
    case False
    then show thesis
      by (intro that [of "Inl (HostCannotAllocate StreamBuffer chunk)" s w 0 "[]"])
         (auto simp: copy_out_def Inr buffer_def chunk_buffer_def)
  next
    case True
    have pos: "0 < length (replicate chunk (0 :: byte))" by (simp add: chunk_def)
    obtain q r' w' where c: "copy_loop (inflate_read lib rd sink_write) wr limits
          (length (replicate chunk (0 :: byte))) r w = Some (q, r', w')"
      "case q of
         Inr _ \<Rightarrow> infl_good r' \<and> wgood w' \<and> infl_fate r = None \<and> written w' = written w @ infl_content r
       | Inl e \<Rightarrow> (\<exists>k \<le> length (infl_content r). written w' = written w @ take k (infl_content r))
           \<and> ((\<exists>x. infl_fate r = Some x \<and> e = read_error_with limits x) \<or> (\<exists>x. e = Io x \<and> dst.refused_within w (infl_content r) x))"
      using copied.copy_loop_result [OF start(2) assms(5) pos refl, of limits] by blast
    have run: "copy_out h lib rd wr expected limits s w = Some (q, if_src r', w')"
      using c(1) by (simp add: copy_out_def Inr buffer_def chunk_buffer_def True)
    have complete: "infl_content r = plain \<and> infl_fate r = None"
      if "ending = None" "den (inf_init lib) [] stream = Some (plain, m)" "length plain = expected"
        "expected \<le> max_output limits"
      using infl_verdict(2) [OF new assms(1,2) TrueI assms(3) refl assms(4) that(1) sink_takes_all] that(2-4)
      by simp
    show thesis
    proof (cases q)
      case (Inl e)
      then obtain k where k: "k \<le> length (infl_content r)" "written w' = written w @ take k (infl_content r)"
        using c(2) by auto
      show thesis
        by (rule that [OF run k(2,1) len]) (use Inl c(2) complete dst.refused_no_room in auto)
    next
      case (Inr u)
      then have ok: "infl_good r'" "wgood w'" "infl_fate r = None" "written w' = written w @ infl_content r"
        using c(2) by auto
      obtain n where n: "den (inf_init lib) [] stream = Some (infl_content r, n)"
        "length (infl_content r) = expected" "expected \<le> max_output limits"
        by (rule infl_sound [OF new assms(1,2) TrueI assms(3) refl assms(4) ok(3)])
      show thesis
        by (rule that [OF run, of "length (infl_content r)" "infl_content r"])
           (use ok n len infl_good_source [OF ok(1)] Inr complete in auto)
    qed
  qed
qed

end

end
