(* ===== verification/Two_Passes.thy ===== *)
theory Two_Passes
  imports Decrypt_Stream
begin

text \<open>
  What the two passes of \<^verbatim>\<open>src/decrypt_stream.rs\<close> guarantee, over an input that may change between any
  two openings of a member, and what they give on one that does not.
\<close>

section \<open>One opening\<close>

text \<open>
  A member's bytes are the IV, the ciphertext and the tag; \<^verbatim>\<open>authentic\<close> says the tag is the
  ciphertext's under a key.
\<close>

definition body :: "bytes \<Rightarrow> bytes" where
  "body bs = take (length bs - 28) (drop 12 bs)"

definition authentic :: "'g gcm_lib \<Rightarrow> bytes \<Rightarrow> bytes \<Rightarrow> bytes \<Rightarrow> bool" where
  "authentic gl key iv bs \<longleftrightarrow> gcm_tag_of gl key iv (body bs) = drop (length bs - 16) bs"

definition opened :: "package \<Rightarrow> package" where
  "opened pk = pk\<lparr>pk_openings := pk_openings pk + 1\<rparr>"

lemma opened_simps [simp]:
  "pk_cooked (opened pk) = pk_cooked pk" "pk_openings (opened pk) = pk_openings pk + 1"
  "pk_archive (opened pk) = pk_archive pk" "pk_raw (opened pk) = pk_raw pk" "pk_meta (opened pk) = pk_meta pk"
  by (simp_all add: opened_def)

text \<open>The next opening of a member delivers these bytes, and then ends.\<close>

definition next_bytes :: "package \<Rightarrow> nat \<Rightarrow> bytes \<Rightarrow> bool" where
  "next_bytes pk i bs \<longleftrightarrow> (\<exists>ss. pk_cooked pk (pk_openings pk) i = Inr ss \<and> segments_content ss = bs
     \<and> segments_fate ss = None)"

definition openings_good :: "package \<Rightarrow> bool" where
  "openings_good pk \<longleftrightarrow> (\<forall>n i ss. pk_cooked pk n i = Inr ss \<longrightarrow> segments_good ss)"

lemma openings_good_opened [simp]: "openings_good (opened pk) \<longleftrightarrow> openings_good pk"
  by (simp add: openings_good_def)

lemma open_cooked_at: "open_cooked i pk = Some (map_err ZipError (pk_cooked pk (pk_openings pk) i), opened pk)"
  by (simp add: open_cooked_def opened_def)

lemma open_after_iv_cases:
  assumes "openings_good pk"
  obtains (fails) e where "open_after_iv i pk = Some (Inl e, opened pk)"
      "\<And>bs. next_bytes pk i bs \<Longrightarrow> length bs < 12"
  | (opens) ss fl where "open_after_iv i pk = Some (Inr fl, opened pk)"
      "pk_cooked pk (pk_openings pk) i = Inr ss" "segments_good fl" "12 \<le> length (segments_content ss)"
      "segments_content fl = drop 12 (segments_content ss)" "segments_fate fl = segments_fate ss"
      "segments_patience fl \<le> segments_patience ss"
proof (cases "pk_cooked pk (pk_openings pk) i")
  case (Inl m)
  then show thesis
    by (intro fails [of "ZipError m"]) (simp_all add: open_after_iv_def then_run_def open_cooked_at next_bytes_def)
next
  case (Inr ss)
  then have good: "segments_good ss" using assms by (simp add: openings_good_def)
  show thesis
  proof (cases "12 \<le> length (segments_content ss)")
    case True
    obtain fl where "read_full read_segments ss 12 = Some (Inr (take 12 (segments_content ss)), fl)"
      "segments_good fl" "segments_content fl = drop 12 (segments_content ss)"
      "segments_fate fl = segments_fate ss" "segments_patience fl \<le> segments_patience ss"
      by (rule gsegs.read_exact [OF good True])
    then show thesis
      using Inr True
      by (intro opens [of fl ss])
         (simp_all add: open_after_iv_def then_run_def open_cooked_at aes_gcm_iv_len_def answer_def)
  next
    case False
    obtain fl where fl: "read_full read_segments ss 12
        = Some (case segments_fate ss of None \<Rightarrow> Inr (segments_content ss) | Some e \<Rightarrow> Inl e, fl)"
      by (rule gsegs.read_short [OF good, of 12]) (use False in simp)
    have "\<exists>e. open_after_iv i pk = Some (Inl e, opened pk)"
      using Inr False fl
      by (cases "segments_fate ss")
         (simp_all add: open_after_iv_def then_run_def open_cooked_at aes_gcm_iv_len_def answer_def)
    then show thesis using Inr False by (elim exE) (rule fails, auto simp: next_bytes_def)
  qed
qed

lemma ensure_end_result:
  assumes "segments_good fl"
  obtains q where "ensure_end fl s = Some (q, s)"
    "q = Inr () \<longleftrightarrow> segments_content fl = [] \<and> segments_fate fl = None"
proof (cases "segments_content fl = []")
  case True
  obtain fl' where "read_full read_segments fl 1
      = Some (case segments_fate fl of None \<Rightarrow> Inr (segments_content fl) | Some e \<Rightarrow> Inl e, fl')"
    by (rule gsegs.read_short [OF assms, of 1]) (use True in simp)
  then show thesis
    using that True
    by (cases "segments_fate fl") (auto simp: ensure_end_def then_run_def answer_def)
next
  case False
  then have one: "1 \<le> length (segments_content fl)" by (cases "segments_content fl") auto
  obtain fl' where "read_full read_segments fl 1 = Some (Inr (take 1 (segments_content fl)), fl')"
    by (rule gsegs.read_exact [OF assms one])
  then show thesis
    using that False by (auto simp: ensure_end_def then_run_def answer_def)
qed

section \<open>The verify pass\<close>

definition no_gcm_size :: string where
  "no_gcm_size = ''an AES-GCM key length the screen passed''"

text \<open>The verdict of the check on the member the next opening delivers.\<close>

lemma gcm_accepts_result:
  assumes good: "openings_good pk"
  obtains q where "gcm_accepts gl i row n k pk = Some (q, opened pk)"
    "\<And>ok. q = Inr ok \<Longrightarrow> \<exists>bs. next_bytes pk i bs \<and> length bs = n + 28 \<and> gcm_sizes k (ee_iv row)
        \<and> ok = authentic gl k (ee_iv row) bs"
    "\<And>bs. next_bytes pk i bs \<Longrightarrow> length bs = n + 28 \<Longrightarrow> gcm_sizes k (ee_iv row) \<Longrightarrow>
        q = Inr (authentic gl k (ee_iv row) bs)"
    "\<And>bs. next_bytes pk i bs \<Longrightarrow> 12 \<le> length bs \<Longrightarrow> \<not> gcm_sizes k (ee_iv row) \<Longrightarrow> q = Inl (Internal no_gcm_size)"
proof (cases rule: open_after_iv_cases [OF good, of i, case_names fails opens])
  case (fails e)
  have "gcm_accepts gl i row n k pk = Some (Inl e, opened pk)"
    by (simp add: gcm_accepts_def then_run_def fails(1))
  then show thesis
  proof (rule that)
    show "Inl e = Inr ok \<Longrightarrow> \<exists>bs. next_bytes pk i bs \<and> length bs = n + 28 \<and> gcm_sizes k (ee_iv row)
        \<and> ok = authentic gl k (ee_iv row) bs" for ok by simp
  next
    fix bs assume "next_bytes pk i bs" "length bs = n + 28"
    then show "Inl e = Inr (authentic gl k (ee_iv row) bs)" using fails(2) by fastforce
  next
    fix bs assume "next_bytes pk i bs" "12 \<le> length bs"
    then show "Inl e = Inl (Internal no_gcm_size)" using fails(2) by fastforce
  qed
next
  case (opens ss fl)
  define bs where "bs = segments_content ss"
  have same: "bs' = bs \<and> segments_fate ss = None" if "next_bytes pk i bs'" for bs'
    using that opens(2) by (simp add: next_bytes_def bs_def)
  have c: "segments_content fl = drop 12 bs" "12 \<le> length bs" using opens(4,5) by (simp_all add: bs_def)
  have step: "gcm_accepts gl i row n k pk =
      then_run (reading (gcm_verify gl read_segments k (ee_iv row) fl n)) (\<lambda>(ok, fl).
        then_run (ensure_end fl) (\<lambda>_. answer (Ok ok))) (opened pk)"
    by (simp add: gcm_accepts_def then_run_def [of "open_after_iv i"] opens(1))
  consider (sizes) "\<not> gcm_sizes k (ee_iv row)"
    | (short) "gcm_sizes k (ee_iv row)" "length (segments_content fl) < n + 16"
    | (full) "gcm_sizes k (ee_iv row)" "n + 16 \<le> length (segments_content fl)"
    by linarith
  then show thesis
  proof cases
    case sizes
    then have "gcm_new gl k (ee_iv row) = None" by (simp add: gcm_new_None)
    then have "gcm_accepts gl i row n k pk = Some (Inl (Internal no_gcm_size), opened pk)"
      unfolding step by (simp add: gcm_verify_def then_run_def read_error_def read_error_with_def no_gcm_size_def)
    then show thesis by (rule that) (use sizes in simp_all)
  next
    case short
    obtain fl' where v: "gcm_verify gl read_segments k (ee_iv row) fl n = Some (Inl (gsegs.cut fl), fl')"
      by (rule gsegs.gcm_verify_short [OF opens(3) short])
    have "gcm_accepts gl i row n k pk = Some (Inl (read_error (gsegs.cut fl)), opened pk)"
      unfolding step v by (simp add: then_run_def)
    moreover have "length bs' \<noteq> n + 28" if "next_bytes pk i bs'" for bs'
      using same [OF that] short(2) c by auto
    ultimately show thesis using short(1) that by blast
  next
    case full
    have nice: "segments_fate fl = segments_fate ss" by (rule opens(6))
    obtain fl' where v: "gcm_verify gl read_segments k (ee_iv row) fl n = Some (Inr
        (gcm_tag_of gl k (ee_iv row) (take n (segments_content fl))
          = take 16 (drop n (segments_content fl))), fl')"
      "segments_good fl'" "segments_content fl' = drop (n + 16) (segments_content fl)"
      "segments_fate fl' = segments_fate fl"
      by (rule gsegs.gcm_verify_full [OF opens(3) full])
    obtain q where q: "ensure_end fl' (opened pk) = Some (q, opened pk)"
      "q = Inr () \<longleftrightarrow> segments_content fl' = [] \<and> segments_fate fl' = None"
      by (rule ensure_end_result [OF v(2), where s = "opened pk"])
    have verdict: "(gcm_tag_of gl k (ee_iv row) (take n (segments_content fl))
          = take 16 (drop n (segments_content fl))) = authentic gl k (ee_iv row) bs" if "length bs = n + 28"
    proof -
      have "take 16 (drop n (segments_content fl)) = drop (length bs - 16) bs"
        unfolding c(1) using that by (simp add: add.commute)
      moreover have "take n (segments_content fl) = body bs" unfolding c(1) body_def using that by simp
      ultimately show ?thesis by (simp add: authentic_def)
    qed
    have ends: "q = Inr () \<longleftrightarrow> length bs = n + 28 \<and> segments_fate ss = None"
      using q(2) v(3,4) nice c full(2) by auto
    show thesis
    proof (cases q)
      case (Inl e)
      then have "gcm_accepts gl i row n k pk = Some (Inl e, opened pk)"
        unfolding step v(1) by (simp add: then_run_def q(1))
      moreover have "length bs' \<noteq> n + 28" if "next_bytes pk i bs'" for bs'
        using same [OF that] ends Inl by auto
      ultimately show thesis using full(1) that by blast
    next
      case (Inr u)
      then have len: "length bs = n + 28" "segments_fate ss = None" using ends by auto
      have nb: "next_bytes pk i bs" using opens(2) len(2) by (simp add: next_bytes_def bs_def)
      have "gcm_accepts gl i row n k pk = Some (Inr (authentic gl k (ee_iv row) bs), opened pk)"
        unfolding step v(1) verdict [OF len(1)] using Inr by (simp add: then_run_def q(1) answer_def)
      then show thesis
      proof (rule that)
        fix ok assume "Inr (authentic gl k (ee_iv row) bs) = (Inr ok :: decrypt_error + bool)"
        then have "ok = authentic gl k (ee_iv row) bs" by simp
        then show "\<exists>bs. next_bytes pk i bs \<and> length bs = n + 28 \<and> gcm_sizes k (ee_iv row)
            \<and> ok = authentic gl k (ee_iv row) bs" using nb len(1) full(1) by blast
      next
        fix bs' assume "next_bytes pk i bs'"
        then show "Inr (authentic gl k (ee_iv row) bs) = Inr (authentic gl k (ee_iv row) bs')" using same by simp
      next
        assume "\<not> gcm_sizes k (ee_iv row)"
        then show "Inr (authentic gl k (ee_iv row) bs) = Inl (Internal no_gcm_size)" using full(1) by simp
      qed
    qed
  qed
qed

text \<open>A member's bytes the verify pass can read, every time it is opened.\<close>

definition steady :: "package \<Rightarrow> nat \<Rightarrow> bytes \<Rightarrow> bool" where
  "steady pk i bs \<longleftrightarrow> (\<forall>n \<ge> pk_openings pk. \<exists>ss. pk_cooked pk n i = Inr ss \<and> segments_content ss = bs
     \<and> segments_fate ss = None \<and> segments_patience ss = 0)"

lemma steady_next: "steady pk i bs \<Longrightarrow> next_bytes pk i bs"
  by (auto simp: steady_def next_bytes_def)

lemma steady_opened: "steady pk i bs \<Longrightarrow> steady (opened pk) i bs"
  by (simp add: steady_def)

definition gcm_verdict :: "'g gcm_lib \<Rightarrow> bytes \<Rightarrow> bytes \<Rightarrow> bytes \<Rightarrow> decrypt_error + bool" where
  "gcm_verdict gl iv bs key =
    (if gcm_sizes key iv then Ok (authentic gl key iv bs) else Err (Internal no_gcm_size))"

lemma gcm_check_at:
  assumes "openings_good pk" "steady pk i bs" "length bs = n + 28"
  shows "gcm_accepts gl i row n key pk = Some (gcm_verdict gl (ee_iv row) bs key, opened pk)"
proof -
  note nb = steady_next [OF assms(2)]
  have len: "12 \<le> length bs" using assms(3) by simp
  show ?thesis
    by (rule gcm_accepts_result [OF assms(1), where gl = gl and i = i and row = row and n = n and k = key])
       (use nb assms(3) len in \<open>simp add: gcm_verdict_def\<close>)
qed

interpretation gcm_check: key_check "gcm_accepts gl i row n"
    "\<lambda>pk. openings_good pk \<and> steady pk i bs \<and> length bs = n + 28" "gcm_verdict gl (ee_iv row) bs"
  for gl :: "'g gcm_lib" and i row n bs
proof unfold_locales
  fix pk key assume "openings_good pk \<and> steady pk i bs \<and> length bs = n + 28"
  then show "\<exists>pk'. gcm_accepts gl i row n key pk = Some (gcm_verdict gl (ee_iv row) bs key, pk')
      \<and> openings_good pk' \<and> steady pk' i bs \<and> length bs = n + 28"
    using gcm_check_at [of pk i bs n gl row key] steady_opened by auto
qed

section \<open>The release pass\<close>

text \<open>What the decrypting reader leaves of the member: the bytes after the tag, and the member's own end.\<close>

context gcm_over_source begin

definition left_over :: "bytes \<Rightarrow> io_error option \<Rightarrow> nat \<Rightarrow> ('g, 's) gcm_reader \<Rightarrow> bool" where
  "left_over tail fin pat r \<longleftrightarrow> (case r of (s, gcm, left) \<Rightarrow> fate s = fin \<and> patience s \<le> pat
     \<and> (case gcm of None \<Rightarrow> content s = tail | Some _ \<Rightarrow> drop (left + 16) (content s) = tail))"

lemma keeps_left_over:
  assumes "dec_good r" "left_over tail fin pat r" "0 < n"
    and step: "gcm_decrypt_read lib rd r n = Some (q, r')" and q: "q = Inr d \<or> q = Inl Interrupted"
  shows "left_over tail fin pat r' \<and> (q = Inr [] \<longrightarrow> fst (snd r') = None)"
proof -
  obtain s gcm left where r: "r = (s, gcm, left)" by (cases r)
  have good: "good s" using assms(1) by (simp add: r dec_good_def)
  show ?thesis
  proof (cases gcm)
    case None
    then show ?thesis using step assms(2,3) by (auto simp: r dec_read_none)
  next
    case (Some g)
    then obtain key iv ct where g: "gcm_at lib key iv g ct" using assms(1) by (auto simp: r dec_good_def)
    show ?thesis
    proof (cases "left = 0")
      case True
      show ?thesis
      proof (cases "16 \<le> length (content s)")
        case full: True
        have h: "gcm_hashed lib key iv g ct" using g by (simp add: gcm_at_def)
        obtain s' where s': "read_tag lib rd g s = Some (Inr (gcm_tag_of lib key iv ct = take 16 (content s)), s')"
          "content s' = drop 16 (content s)" "fate s' = fate s" "patience s' \<le> patience s"
          by (rule read_tag_full [OF good h full])
        show ?thesis
        proof (cases "gcm_tag_of lib key iv ct = take 16 (content s)")
          case match: True
          then have "q = Inr []" "r' = (s', None, 0)"
            using step True Some assms(3) s'(1) by (simp_all add: r gcm_decrypt_read_def)
          then show ?thesis using s' assms(2) True Some by (simp add: r left_over_def)
        next
          case False
          then have "q = Inl (into_io FaultChanged)"
            using step True Some assms(3) s'(1) by (simp add: r gcm_decrypt_read_def)
          then show ?thesis using q by simp
        qed
      next
        case False
        obtain s' where "read_tag lib rd g s = Some (Inl (cut s), s')"
          by (rule read_tag_short [OF good]) (use False in simp)
        then have "q = Inl (cut s)"
          using step True Some assms(3) by (simp add: r gcm_decrypt_read_def)
        then show ?thesis using q cut_final [OF good] by auto
      qed
    next
      case False
      then have pos: "0 < left" "0 < min left n" using assms(3) by simp_all
      note read = dec_read_left [OF assms(3) pos(1), of s g]
      obtain p s' where p: "rd s (min left n) = Some (p, s')" using returns [OF good pos(2)] by blast
      show ?thesis
      proof (cases p)
        case (Inl e)
        then have "q = Inl e" "r' = (s', Some g, left)" using step Some p by (simp_all add: r read)
        then have "e = Interrupted" using q by auto
        then have "content s' = content s \<and> fate s' = fate s \<and> patience s' \<le> patience s"
          using interrupted [OF good pos(2)] p Inl by simp
        then show ?thesis using \<open>q = Inl e\<close> \<open>r' = _\<close> assms(2) Some by (simp add: r left_over_def)
      next
        case (Inr b)
        note law = data [OF good pos(2) p [unfolded Inr]]
        have ne: "b \<noteq> []" using step Some p Inr q by (auto simp: r read)
        obtain g' where now: "gcm_decrypt_read lib rd (s, Some g, left) n
                = Some (Inr (fst (gcm_decrypt lib g b)), (s', Some g', left - length b))"
          using dec_read_data [OF g good pos(1) assms(3) p [unfolded Inr] ne] by blast
        have plain: "fst (gcm_decrypt lib g b) \<noteq> []"
          using ne gcm_decrypt_at [OF g, of b] length_xor_stream by (metis fst_conv length_0_conv)
        have "length b \<le> left" using law by simp
        then have "drop (left - length b + 16) (content s') = drop (left + 16) (content s)" using law by simp
        then show ?thesis using now step Some assms(2) law plain by (auto simp: r left_over_def)
      qed
    qed
  qed
qed

lemma dec_keeps: "source (gcm_decrypt_read lib rd) (\<lambda>r. dec_good r \<and> left_over tail fin pat r)
    dec_content dec_fate dec_patience"
proof (rule dec.keeping)
  fix r r' :: "('g, 's) gcm_reader" and n :: nat and d
  assume "dec_good r" "left_over tail fin pat r" "0 < n" "gcm_decrypt_read lib rd r n = Some (Inr d, r')"
  from keeps_left_over [OF this, of d] show "left_over tail fin pat r'" by simp
next
  fix r r' :: "('g, 's) gcm_reader" and n :: nat
  assume "dec_good r" "left_over tail fin pat r" "0 < n" "gcm_decrypt_read lib rd r n = Some (Inl Interrupted, r')"
  from keeps_left_over [OF this] show "left_over tail fin pat r'" by simp
qed

end

section \<open>Releasing to a sink\<close>

locale releasing = dst: sink wr wgood written wpatience
  for wr :: "'w writer" and wgood written wpatience +
  fixes gl :: "'g gcm_lib" and il :: "'z inflate_lib"
    and den :: "'z \<Rightarrow> bytes \<Rightarrow> bytes \<Rightarrow> (bytes \<times> nat) option"
begin

sublocale gco: copy_over "gcm_decrypt_read gl read_segments"
    "\<lambda>r. gsegs.dec_good gl r \<and> gsegs.left_over tail fin pat r" "gsegs.dec_content gl" "gsegs.dec_fate gl"
    gsegs.dec_patience il den stream ending wr wgood written wpatience
  for tail fin pat stream ending
  by (intro copy_over.intro inflate_over.intro gsegs.dec_keeps sunk.sink_axioms dst.sink_axioms)

lemma gcm_release_result:
  assumes doc: "inflate_documented il den" and good: "segments_good fl" and w: "wgood w"
  obtains q w' k out where
    "gcm_release h gl row ct (copy_out h il (gcm_decrypt_read gl read_segments) wr expected limits) key fl (pk, w)
      = Some (q, (pk, w'))"
    "written w' = written w @ take k out" "k \<le> length out" "length out \<le> min (max_output limits) expected"
    "q = Inr () \<Longrightarrow> k = length out \<and> wgood w' \<and> length out = expected \<and> expected \<le> max_output limits
       \<and> gcm_sizes key (ee_iv row) \<and> length (segments_content fl) = ct + 16 \<and> segments_fate fl = None
       \<and> gcm_tag_of gl key (ee_iv row) (take ct (segments_content fl)) = drop ct (segments_content fl)
       \<and> (\<exists>n. den (inf_init il) [] (gcm_crypt gl key (ee_iv row) (take ct (segments_content fl))) = Some (out, n))"
    "(\<forall>n. host_reserves h n) \<Longrightarrow> dst.room w plain \<Longrightarrow> gcm_sizes key (ee_iv row) \<Longrightarrow>
       length (segments_content fl) = ct + 16 \<Longrightarrow> segments_fate fl = None \<Longrightarrow> segments_patience fl = 0 \<Longrightarrow>
       gcm_tag_of gl key (ee_iv row) (take ct (segments_content fl)) = drop ct (segments_content fl) \<Longrightarrow>
       den (inf_init il) [] (gcm_crypt gl key (ee_iv row) (take ct (segments_content fl))) = Some (plain, m) \<Longrightarrow>
       length plain = expected \<Longrightarrow> expected \<le> max_output limits \<Longrightarrow> q = Inr () \<and> out = plain"
proof (cases "gcm_new gl key (ee_iv row)")
  case None
  then show thesis
    by (intro that [of "Inl (Internal ''an AES-GCM key length screen_shape passed'')" w 0 "[]"])
       (use None gcm_new_None [of gl key "ee_iv row"] in \<open>simp_all add: gcm_release_def\<close>)
next
  case (Some g)
  define bs where "bs = segments_content fl"
  define rd where "rd = gcm_decrypt_read gl read_segments"
  define r0 :: "('g, segment list) gcm_reader" where "r0 = (fl, Some g, ct)"
  define iv where "iv = ee_iv row"
  have sizes: "gcm_sizes key iv" using Some gcm_new_None [of gl key iv] by (auto simp: iv_def)
  note start = dec_start [OF Some [folded iv_def] good]
  have stream: "gsegs.dec_content gl r0 = gcm_crypt gl key iv (take ct bs)"
    unfolding r0_def bs_def by (rule start(2))
  define ending where "ending = gsegs.dec_fate gl r0"
  define tail where "tail = drop (ct + 16) bs"
  have left: "gsegs.left_over tail (segments_fate fl) (segments_patience fl) r0"
    by (simp add: gsegs.left_over_def r0_def tail_def bs_def)
  have good0: "gsegs.dec_good gl r0 \<and> gsegs.left_over tail (segments_fate fl) (segments_patience fl) r0"
    using start(1) left by (simp add: r0_def)
  have clean: "ending = None \<longleftrightarrow> ct + 16 \<le> length bs \<and> gcm_tag_of gl key iv (take ct bs) = take 16 (drop ct bs)"
  proof (cases "ct + 16 \<le> length bs")
    case True
    then show ?thesis using start(3) [of ct] by (simp add: ending_def r0_def bs_def)
  next
    case False
    then have "ending = Some (gsegs.cut fl)" by (simp add: ending_def r0_def bs_def gsegs.dec_fate_def)
    then show ?thesis using False by simp
  qed
  obtain q s1 w1 k out where c: "copy_out h il rd wr expected limits r0 w = Some (q, s1, w1)"
    "written w1 = written w @ take k out" "k \<le> length out" "length out \<le> min (max_output limits) expected"
    "q = Inr () \<Longrightarrow> k = length out
       \<and> (gsegs.dec_good gl s1 \<and> gsegs.left_over tail (segments_fate fl) (segments_patience fl) s1)
       \<and> gsegs.dec_fate gl s1 = ending \<and> wgood w1
       \<and> (\<exists>n. den (inf_init il) [] (gcm_crypt gl key iv (take ct bs)) = Some (out, n)) \<and> length out = expected
       \<and> expected \<le> max_output limits"
    "(\<forall>n. host_reserves h n) \<Longrightarrow> dst.room w plain \<Longrightarrow> ending = None \<Longrightarrow>
       den (inf_init il) [] (gcm_crypt gl key iv (take ct bs)) = Some (plain, m) \<Longrightarrow> length plain = expected \<Longrightarrow>
       expected \<le> max_output limits \<Longrightarrow> q = Inr () \<and> out = plain"
    unfolding rd_def
  proof (rule gco.copy_out_result [OF doc good0 stream ending_def [symmetric] w, where h = h and limits = limits
          and expected = expected and plain = plain and m = m], goal_cases)
    case (1 q s1 w1 k out)
    show ?case by (rule 1(1) [OF 1(2-5)]) (rule 1(6), assumption, rule 1(7), assumption+)
  qed
  note unfold = gcm_release_def Some c(1) [unfolded rd_def r0_def]
  show thesis
  proof (cases q)
    case (Inl e)
    have "gcm_release h gl row ct (copy_out h il (gcm_decrypt_read gl read_segments) wr expected limits) key fl (pk, w)
      = Some (Inl e, (pk, w1))"
      using Inl by (simp add: unfold)
    then show thesis
      by (rule that [OF _ c(2-4)]) (use c(6) clean Inl in \<open>auto simp: bs_def iv_def\<close>)
  next
    case (Inr u)
    then have "q = Inr ()" by simp
    note ok = c(5) [OF this]
    define run where "run = (case drain h rd s1 of
               None \<Rightarrow> None
             | Some (Inl e, _) \<Rightarrow> Some (Inl e, (pk, w1))
             | Some (Inr _, (file', _)) \<Rightarrow> ensure_end file' (pk, w1))"
    have run: "gcm_release h gl row ct (copy_out h il (gcm_decrypt_read gl read_segments) wr expected limits)
        key fl (pk, w) = run"
      using Inr by (simp add: unfold run_def rd_def)
    show thesis
    proof (cases "host_reserves h chunk")
      case False
      then have "run = Some (Inl (HostCannotAllocate StreamBuffer chunk), (pk, w1))"
        by (simp add: run_def drain_def buffer_def chunk_buffer_def)
      with run show thesis by (intro that [OF _ c(2-4)]) (use False in auto)
    next
      case True
      have pos: "0 < length (replicate chunk (0 :: byte))" by (simp add: chunk_def)
      obtain q2 s2 where d: "drain_loop rd (length (replicate chunk (0 :: byte))) s1 = Some (q2, s2)"
        "case q2 of Inr _ \<Rightarrow> (gsegs.dec_good gl s2
              \<and> gsegs.left_over tail (segments_fate fl) (segments_patience fl) s2) \<and> gsegs.dec_fate gl s1 = None
            \<and> (\<exists>s. (gsegs.dec_good gl s \<and> gsegs.left_over tail (segments_fate fl) (segments_patience fl) s)
                \<and> rd s (length (replicate chunk (0 :: byte))) = Some (Inr [], s2))
       | Inl e \<Rightarrow> (\<exists>x. e = read_error x
            \<and> (x = Interrupted \<and> 0 < gsegs.dec_patience s1 \<or> gsegs.dec_fate gl s1 = Some x))"
        using source.drain_loop_result [OF gsegs.dec_keeps ok [THEN conjunct2, THEN conjunct1] pos] unfolding rd_def
        by blast
      have dr: "drain h rd s1 = Some (q2, s2)" using d(1) True by (simp add: drain_def buffer_def chunk_buffer_def)
      have calm: "gsegs.dec_patience s1 = 0" if "segments_patience fl = 0"
        using ok that by (cases s1) (simp add: gsegs.left_over_def gsegs.dec_patience_def)
      show thesis
      proof (cases q2)
        case (Inl e)
        then have "run = Some (Inl e, (pk, w1))" by (simp add: run_def dr)
        with run show thesis
          by (intro that [OF _ c(2-4)]) (use d(2) Inl ok clean calm in \<open>auto simp: bs_def iv_def\<close>)
      next
        case (Inr u2)
        obtain file' gcm' left' where s2: "s2 = (file', gcm', left')" by (cases s2)
        have over: "gsegs.dec_good gl s2"
          "gsegs.left_over tail (segments_fate fl) (segments_patience fl) s2"
          using d(2) Inr by auto
        obtain s where s: "gsegs.dec_good gl s"
          "gsegs.left_over tail (segments_fate fl) (segments_patience fl) s"
          "rd s (length (replicate chunk (0 :: byte))) = Some (Inr [], s2)"
          using d(2) Inr by auto
        have "gcm' = None"
          using gsegs.keeps_left_over [OF s(1,2) pos s(3) [unfolded rd_def], of "[]"] by (simp add: s2)
        then have at_end: "segments_good file'" "segments_content file' = tail" "segments_fate file' = segments_fate fl"
          using over by (simp_all add: s2 gsegs.dec_good_def gsegs.left_over_def)
        have fate: "ending = None" using d(2) Inr ok by auto
        obtain q3 where q3: "ensure_end file' (pk, w1) = Some (q3, (pk, w1))"
          "q3 = Inr () \<longleftrightarrow> segments_content file' = [] \<and> segments_fate file' = None"
          by (rule ensure_end_result [OF at_end(1), where s = "(pk, w1)"])
        have len: "tail = [] \<longleftrightarrow> length bs = ct + 16" using fate clean by (auto simp: tail_def)
        have "run = Some (q3, (pk, w1))" using q3(1) Inr by (simp add: run_def dr s2)
        with run have now: "gcm_release h gl row ct
            (copy_out h il (gcm_decrypt_read gl read_segments) wr expected limits) key fl (pk, w)
            = Some (q3, (pk, w1))" by simp
        have short: "take 16 (drop ct bs) = drop ct bs" if "length bs = ct + 16" using that by simp
        show thesis
        proof (rule that [OF now c(2-4)])
          assume "q3 = Inr ()"
          then have t: "length bs = ct + 16" "segments_fate fl = None" using q3(2) at_end len by auto
          then show "k = length out \<and> wgood w1 \<and> length out = expected \<and> expected \<le> max_output limits
             \<and> gcm_sizes key (ee_iv row) \<and> length (segments_content fl) = ct + 16 \<and> segments_fate fl = None
             \<and> gcm_tag_of gl key (ee_iv row) (take ct (segments_content fl)) = drop ct (segments_content fl)
             \<and> (\<exists>n. den (inf_init il) [] (gcm_crypt gl key (ee_iv row) (take ct (segments_content fl))) = Some (out, n))"
            using ok sizes clean fate short [OF t(1)] by (simp add: bs_def iv_def)
        next
          assume "\<forall>n. host_reserves h n" "dst.room w plain"
            and t: "length (segments_content fl) = ct + 16" "segments_fate fl = None"
            and p: "den (inf_init il) [] (gcm_crypt gl key (ee_iv row) (take ct (segments_content fl))) = Some (plain, m)"
              "length plain = expected" "expected \<le> max_output limits"
          have "out = plain"
            using c(6) [OF _ _ fate] \<open>\<forall>n. host_reserves h n\<close> \<open>dst.room w plain\<close> p by (simp add: bs_def iv_def)
          moreover have "q3 = Inr ()" using t q3(2) at_end len by (simp add: bs_def)
          ultimately show "q3 = Inr () \<and> out = plain" by simp
        qed
      qed
    qed
  qed
qed

end

interpretation rslots: releasing write_slots slots_good snd "\<lambda>w. length (fst w)" gl il den
  for gl :: "'g gcm_lib" and il :: "'z inflate_lib" and den
  by (rule releasing.intro) (rule slots.sink_axioms)

interpretation rsunk: releasing sink_write "\<lambda>_. True" "\<lambda>w. w" "\<lambda>_. 0" gl il den
  for gl :: "'g gcm_lib" and il :: "'z inflate_lib" and den
  by (rule releasing.intro) (rule sunk.sink_axioms)

text \<open>The slice of a known capacity has room for what fits in it.\<close>

interpretation capped: sink slice_write "\<lambda>s. (slice_ok s \<and> sl_pos s = sl_len s) \<and> length (sl_buf s) = cap"
    slice_output "\<lambda>_. 0" for cap
  by unfold_locales (auto simp: slice_write_def slice_ok_def slice_output_def Let_def split: if_splits)

lemma capped_room:
  assumes "slice_ok s" "sl_pos s = sl_len s" "length (sl_buf s) = cap" "sl_len s + length bs \<le> cap"
  shows "capped.room cap s bs"
  unfolding capped.room_def
proof (intro allI impI)
  fix s0 d m x s1
  assume g: "(slice_ok s0 \<and> sl_pos s0 = sl_len s0) \<and> length (sl_buf s0) = cap"
    and w: "slice_output s0 @ d = slice_output s @ take m bs"
  have "length (slice_output s0 @ d) = length (slice_output s @ take m bs)" by (simp add: w)
  then have "sl_len s0 + length d \<le> cap"
    using g assms by (auto simp: slice_output_def slice_ok_def)
  then have "d \<noteq> [] \<Longrightarrow> \<exists>s'. slice_write s0 d = Some (Inr (length d), s')"
    using g by (auto simp: slice_write_def slice_ok_def Let_def)
  then show "write_all slice_write s0 d \<noteq> Some (Inl x, s1)"
    by (cases "d = []") (auto simp: write_all.simps [of slice_write s0 d])
qed

interpretation rslice: releasing slice_write
    "\<lambda>s. (slice_ok s \<and> sl_pos s = sl_len s) \<and> length (sl_buf s) = cap" slice_output "\<lambda>_. 0" gl il den
  for cap and gl :: "'g gcm_lib" and il :: "'z inflate_lib" and den
  by (rule releasing.intro) (rule capped.sink_axioms)

section \<open>The member\<close>

lemma ct_len_of_at: "28 \<le> len \<Longrightarrow> len < 2 ^ 64 \<Longrightarrow> ct_len_of len = len - 28"
proof -
  assume a: "28 \<le> len" "len < 2 ^ 64"
  then have "len + 2 ^ 64 - 28 = (len - 28) + 2 ^ 64" by simp
  then have "(len + 2 ^ 64 - 28) mod 2 ^ 64 = (len - 28) mod 2 ^ 64" by (simp only: mod_add_self2)
  then show ?thesis using a by (simp add: ct_len_of_def aes_gcm_iv_len_def aes_gcm_tag_len_def)
qed

text \<open>Opening number \<^verbatim>\<open>n\<close> of a member delivers these bytes, and then ends.\<close>

definition delivers :: "package \<Rightarrow> nat \<Rightarrow> nat \<Rightarrow> bytes \<Rightarrow> bool" where
  "delivers pk n i bs \<longleftrightarrow> (\<exists>ss. pk_cooked pk n i = Inr ss \<and> segments_content ss = bs \<and> segments_fate ss = None)"

lemma next_delivers: "next_bytes pk i bs \<longleftrightarrow> delivers pk (pk_openings pk) i bs"
  by (simp add: next_bytes_def delivers_def)

lemma delivers_cong: "pk_cooked pk' = pk_cooked pk \<Longrightarrow> delivers pk' n i bs \<longleftrightarrow> delivers pk n i bs"
  by (simp add: delivers_def)

definition same_input :: "package \<Rightarrow> package \<Rightarrow> bool" where
  "same_input pk pk' \<longleftrightarrow> pk_cooked pk' = pk_cooked pk \<and> openings_good pk' \<and> pk_openings pk \<le> pk_openings pk'"

lemma same_input_opened: "same_input pk pk' \<Longrightarrow> same_input pk (opened pk')"
  by (auto simp: same_input_def)

lemma gcm_member_cases:
  assumes "openings_good pk"
    and "gcm_member cr h gl i row len password limits release (pk, w) = Some (q, (pk', w'))"
  obtains (unchanged) e where "q = Inl e" "w' = w"
  | (released) sk key pk1 bs ss fl where "sk \<in> set (candidates cr password (ee_start_key row))"
      "derive_key cr h row sk limits = Inr key" "same_input pk pk1" "next_bytes pk1 i bs"
      "length bs = ct_len_of len + 28" "gcm_sizes key (ee_iv row)" "authentic gl key (ee_iv row) bs"
      "pk_cooked pk1 (pk_openings pk1 + 1) i = Inr ss" "segments_good fl" "12 \<le> length (segments_content ss)"
      "segments_content fl = drop 12 (segments_content ss)" "segments_fate fl = segments_fate ss"
      "gcm_release h gl row (ct_len_of len) release key fl (opened (opened pk1), w) = Some (q, (pk', w'))"
proof -
  define n where "n = ct_len_of len"
  have keeps: "same_input pk pk2" if "same_input pk pk1" "gcm_accepts gl i row n k pk1 = Some (r, pk2)" for k pk1 r pk2
  proof -
    have good: "openings_good pk1" using that(1) by (simp add: same_input_def)
    have "pk2 = opened pk1"
      by (rule gcm_accepts_result [OF good, where gl = gl and i = i and row = row and n = n and k = k])
         (use that(2) in simp)
    then show ?thesis using same_input_opened [OF that(1)] by simp
  qed
  obtain r pk1 where key: "find_key cr h row password limits (gcm_accepts gl i row n) pk = Some (r, pk1)"
    and rest: "(case r of Inl e \<Rightarrow> Some (Inl e, (pk1, w))
      | Inr key \<Rightarrow> then_run (on_package (open_after_iv i))
          (\<lambda>file. gcm_release h gl row n release key file) (pk1, w)) = Some (q, (pk', w'))"
    using assms(2) by (auto simp: gcm_member_def gcm_key_def then_run_def on_package_def n_def split: option.splits sum.splits)
  have self: "same_input pk pk" using assms(1) by (simp add: same_input_def)
  have chosen: "same_input pk pk1 \<and> (\<forall>key. r = Inr key \<longrightarrow>
      (\<exists>sk \<in> set (candidates cr password (ee_start_key row)). \<exists>s1. derive_key cr h row sk limits = Inr key
        \<and> same_input pk s1 \<and> gcm_accepts gl i row n key s1 = Some (Inr True, pk1)))"
    by (rule find_key_accepted [where kept = "same_input pk", OF key self]) (rule keeps)
  show thesis
  proof (cases r)
    case (Inl e)
    then have "q = Inl e" "w' = w" using rest by auto
    then show thesis by (rule unchanged)
  next
    case (Inr key')
    then obtain sk pk0 where sk: "sk \<in> set (candidates cr password (ee_start_key row))"
      "derive_key cr h row sk limits = Inr key'" "same_input pk pk0"
      "gcm_accepts gl i row n key' pk0 = Some (Inr True, pk1)"
      using chosen by blast
    have good0: "openings_good pk0" using sk(3) by (simp add: same_input_def)
    obtain bs where bs: "pk1 = opened pk0" "next_bytes pk0 i bs" "length bs = n + 28"
      "gcm_sizes key' (ee_iv row)" "authentic gl key' (ee_iv row) bs"
      by (rule gcm_accepts_result [OF good0, where gl = gl and i = i and row = row and n = n and k = key'])
         (use sk(4) that in \<open>auto dest: sym\<close>)
    have good1: "openings_good pk1" using good0 bs(1) by simp
    show thesis
    proof (cases rule: open_after_iv_cases [OF good1, of i, case_names fails opens])
      case (fails e)
      then have "q = Inl e" "w' = w" using rest Inr by (auto simp: then_run_def on_package_def)
      then show thesis by (rule unchanged)
    next
      case (opens ss fl)
      have now: "gcm_release h gl row n release key' fl (opened (opened pk0), w) = Some (q, (pk', w'))"
        using rest Inr opens(1) bs(1) by (simp add: then_run_def on_package_def)
      have ss: "pk_cooked pk0 (pk_openings pk0 + 1) i = Inr ss" using opens(2) bs(1) by simp
      show thesis
        by (rule released [OF sk(1-3) bs(2) bs(3) [unfolded n_def] bs(4,5) ss opens(3-6) now [unfolded n_def]])
    qed
  qed
qed

text \<open>What \<^verbatim>\<open>wholesome\<close> does before the passes: it refuses, or it knows the member and its size.\<close>

lemma wholesome_cases:
  assumes "openings_good pk"
    and "wholesome cr h gl il wr row_index row password limits sizes (pk, w) = Some (q, (pk', w'))"
  obtains (refused) e where "q = Inl e" "w' = w"
  | (member) expected i name head where "sizes_declared sizes (ee_size row) = Inr expected"
      "member_for_archive (pk_archive pk) (ee_path row) (no_member row_index) = Inr (i, name)"
      "screen_shape row (member_size pk i) head = Inr ()"
      "gcm_member cr h gl i row (member_size pk i) password limits
         (copy_out h il (gcm_decrypt_read gl read_segments) wr expected limits) (opened pk, w) = Some (q, (pk', w'))"
proof (cases "sizes_declared sizes (ee_size row)")
  case (Inl e)
  then have "q = Inl e" "w' = w" using assms(2) by (auto simp: wholesome_def answer_def)
  then show thesis by (rule refused)
next
  case size: (Inr expected)
  show thesis
  proof (cases "member_for_archive (pk_archive pk) (ee_path row) (no_member row_index)")
    case (Inl e)
    then have "q = Inl e" "w' = w"
      using assms(2) size by (auto simp: wholesome_def then_run_def on_package_def find_member_def)
    then show thesis by (rule refused)
  next
    case there: (Inr hit)
    obtain i name where i: "hit = (i, name)" by (cases hit)
    note so_far = wholesome_def then_run_def on_package_def find_member_def size there i
    show thesis
    proof (cases "pk_cooked pk (pk_openings pk) i")
      case (Inl e)
      then have "q = Inl (ZipError e)" "w' = w"
        using assms(2) by (auto simp: so_far member_shape_def open_cooked_at)
      then show thesis by (rule refused)
    next
      case (Inr ss)
      then have good: "segments_good ss" using assms(1) by (simp add: openings_good_def)
      obtain p fl where p: "read_full read_segments ss 12 = Some (p, fl)"
        using read_full_segments [OF good, of 12] by blast
      show thesis
      proof (cases p)
        case (Inl e)
        then have "q = Inl (read_error e)" "w' = w"
          using assms(2) Inr p by (auto simp: so_far member_shape_def open_cooked_at aes_gcm_iv_len_def)
        then show thesis by (rule refused)
      next
        case head: (Inr head)
        have shape: "member_shape i pk = Some (Inr (member_size pk i, head), opened pk)"
          using Inr p head by (simp add: member_shape_def then_run_def open_cooked_at aes_gcm_iv_len_def
              member_size_def)
        show thesis
        proof (cases "screen_shape row (member_size pk i) head")
          case (Inl e)
          then have "q = Inl e" "w' = w" using assms(2) shape by (auto simp: so_far answer_def)
          then show thesis by (rule refused)
        next
          case (Inr u)
          show thesis
            by (rule member [OF size, of i name head])
               (use assms(2) shape Inr in \<open>auto simp: so_far answer_def\<close>)
        qed
      qed
    qed
  qed
qed

lemma sizes_declared_Ok: "sizes_declared sizes sz = Inr n \<Longrightarrow> sz = int n"
  using sizes_declared_agree [of sz n] by (cases sizes) (simp_all add: declared_size_Ok)

lemma body_after_iv:
  assumes "length bs = ct + 28"
  shows "take ct (drop 12 bs) = body bs" "drop ct (drop 12 bs) = drop (length bs - 16) bs"
  using assms by (simp_all add: body_def add.commute)

text \<open>A package that does not change: the key is the first candidate that is taken, and the release succeeds.\<close>

context releasing begin

lemma gcm_member_steady:
  fixes cr :: crypto and row :: entry_encryption and password :: string and limits :: decrypt_limits
    and expected :: nat
  assumes doc: "inflate_documented il den" and rich: "\<forall>n. host_reserves h n" and w: "wgood w"
    and pk: "openings_good pk" "steady pk i bs" and len: "28 \<le> length bs" "length bs < 2 ^ 64"
  defines "run \<equiv> gcm_member cr h gl i row (length bs) password limits
      (copy_out h il (gcm_decrypt_read gl read_segments) wr expected limits) (pk, w)"
    and "key \<equiv> first_taken (\<lambda>sk. derive_key cr h row sk limits) (gcm_verdict gl (ee_iv row) bs)
      (candidates cr password (ee_start_key row))"
  shows "\<And>e. key = Inl e \<Longrightarrow> \<exists>pk'. run = Some (Inl e, (pk', w))"
    and "\<And>k. key = Inr k \<Longrightarrow> \<exists>q pk' w'. run = Some (q, (pk', w'))
      \<and> (case den (inf_init il) [] (gcm_crypt gl k (ee_iv row) (body bs)) of
           Some (plain, m) \<Rightarrow> if length plain = expected \<and> expected \<le> max_output limits
             then dst.room w plain \<longrightarrow> q = Inr () \<and> written w' = written w @ plain else q \<noteq> Inr ()
         | None \<Rightarrow> q \<noteq> Inr ())"
proof -
  define n where "n = ct_len_of (length bs)"
  have n: "n = length bs - 28" using ct_len_of_at [OF len] by (simp add: n_def)
  have fit: "openings_good pk \<and> steady pk i bs \<and> length bs = n + 28" using pk len(1) n by simp
  obtain pk1 where f: "find_key cr h row password limits (gcm_accepts gl i row n) pk = Some (key, pk1)"
    "openings_good pk1 \<and> steady pk1 i bs \<and> length bs = n + 28"
    unfolding key_def by (rule gcm_check.find_key_result [OF fit])
  have start: "run = (case key of Inl e \<Rightarrow> Some (Inl e, (pk1, w))
      | Inr k \<Rightarrow> then_run (on_package (open_after_iv i)) (\<lambda>fl. gcm_release h gl row n
          (copy_out h il (gcm_decrypt_read gl read_segments) wr expected limits) k fl) (pk1, w))"
    by (cases key)
       (simp_all add: run_def gcm_member_def gcm_key_def then_run_def on_package_def f(1) n_def [symmetric])
  show "\<exists>pk'. run = Some (Inl e, (pk', w))" if "key = Inl e" for e
    using that by (simp add: start)
  show "\<exists>q pk' w'. run = Some (q, (pk', w'))
      \<and> (case den (inf_init il) [] (gcm_crypt gl k (ee_iv row) (body bs)) of
           Some (plain, m) \<Rightarrow> if length plain = expected \<and> expected \<le> max_output limits
             then dst.room w plain \<longrightarrow> q = Inr () \<and> written w' = written w @ plain else q \<noteq> Inr ()
         | None \<Rightarrow> q \<noteq> Inr ())" if key: "key = Inr k" for k
  proof -
    have taken: "gcm_sizes k (ee_iv row)" "authentic gl k (ee_iv row) bs"
      using key unfolding key_def first_taken_Ok by (auto simp: gcm_verdict_def split: if_splits)
    have st: "steady pk1 i bs" "openings_good pk1" using f(2) by simp_all
    show ?thesis
    proof (cases rule: open_after_iv_cases [OF st(2), of i, case_names fails opens])
      case (fails e)
      then show ?thesis using steady_next [OF st(1)] len(1) by fastforce
    next
      case (opens ss fl)
      have ss: "segments_content ss = bs" "segments_fate ss = None" "segments_patience ss = 0"
        using st(1) opens(2) by (auto simp: steady_def)
      note shape = body_after_iv [of bs n] fit
      have c: "length (segments_content fl) = n + 16" "take n (segments_content fl) = body bs"
        "drop n (segments_content fl) = drop (length bs - 16) bs"
        using opens(5) ss(1) shape by simp_all
      define plain where "plain = (case den (inf_init il) [] (gcm_crypt gl k (ee_iv row) (body bs)) of
        Some (plain, m) \<Rightarrow> plain | None \<Rightarrow> [])"
      define m where "m = (case den (inf_init il) [] (gcm_crypt gl k (ee_iv row) (body bs)) of
        Some (plain, m) \<Rightarrow> m | None \<Rightarrow> 0)"
      obtain q w' j out where rel: "gcm_release h gl row n
            (copy_out h il (gcm_decrypt_read gl read_segments) wr expected limits) k fl (opened pk1, w)
            = Some (q, (opened pk1, w'))"
        "written w' = written w @ take j out"
        "q = Inr () \<longrightarrow> j = length out \<and> length out = expected \<and> expected \<le> max_output limits
           \<and> (\<exists>m. den (inf_init il) [] (gcm_crypt gl k (ee_iv row) (body bs)) = Some (out, m))"
        "dst.room w plain \<longrightarrow> den (inf_init il) [] (gcm_crypt gl k (ee_iv row) (body bs)) = Some (plain, m) \<longrightarrow>
           length plain = expected \<longrightarrow> expected \<le> max_output limits \<longrightarrow> q = Inr () \<and> out = plain"
      proof (rule gcm_release_result [OF doc opens(3) w, where h = h and row = row and ct = n and key = k
            and pk = "opened pk1" and limits = limits and expected = expected and plain = plain and m = m], goal_cases)
        case (1 q w' j out)
        show ?case
          by (rule 1(1) [OF 1(2,3)])
             (use 1(6) 1(7) c taken rich opens(6,7) ss in \<open>auto simp: authentic_def\<close>)
      qed
      have run: "run = Some (q, (opened pk1, w'))"
        using rel(1) key opens(1) by (simp add: start then_run_def on_package_def)
      show ?thesis
      proof (cases "den (inf_init il) [] (gcm_crypt gl k (ee_iv row) (body bs))")
        case None
        then show ?thesis using run rel(3) by auto
      next
        case (Some p)
        obtain pl m' where p: "p = (pl, m')" by (cases p)
        then have pm: "plain = pl" "m = m'" using Some by (simp_all add: plain_def m_def)
        show ?thesis
        proof (cases "length pl = expected \<and> expected \<le> max_output limits")
          case True
          have "written w' = written w @ pl" "q = Inr ()" if "dst.room w pl"
            using rel(2-4) that Some p pm True by simp_all
          then show ?thesis using run Some p True by simp
        next
          case False
          then have "q \<noteq> Inr ()" using rel(3) Some p by auto
          then show ?thesis using run Some p False by auto
        qed
      qed
    qed
  qed
qed

end

lemma wholesome_enters:
  assumes "openings_good pk" "steady pk i bs"
    and "sizes_declared sizes (ee_size row) = Inr expected"
    and "member_for_archive (pk_archive pk) (ee_path row) (no_member row_index) = Inr (i, name)"
    and "member_size pk i = length bs" "12 \<le> length bs" "runs_on row (length bs) (take 12 bs)"
  shows "wholesome cr h gl il wr row_index row password limits sizes (pk, w)
      = gcm_member cr h gl i row (length bs) password limits
          (copy_out h il (gcm_decrypt_read gl read_segments) wr expected limits) (opened pk, w)"
proof -
  obtain ss where ss: "pk_cooked pk (pk_openings pk) i = Inr ss" "segments_content ss = bs"
    using assms(2) by (auto simp: steady_def)
  have good: "segments_good ss" using assms(1) ss(1) by (simp add: openings_good_def)
  obtain fl where fl: "read_full read_segments ss 12 = Some (Inr (take 12 bs), fl)"
    using gsegs.read_exact [OF good, of 12] assms(6) ss(2) by auto
  have shape: "member_shape i pk = Some (Inr (length bs, take 12 bs), opened pk)"
    using ss(1) fl assms(5) by (simp add: member_shape_def then_run_def open_cooked_at aes_gcm_iv_len_def member_size_def)
  have screen: "screen_shape row (length bs) (take 12 bs) = Inr ()" using assms(7) by (simp add: screen_shape_Ok)
  show ?thesis
    by (simp add: wholesome_def assms(3,4) then_run_def on_package_def find_member_def shape screen answer_def)
qed

section \<open>A sample package\<close>

text \<open>One encrypted member, over a toy cipher and a DEFLATE that ends a stream with a zero.\<close>

definition sample_gcm_row :: entry_encryption where
  "sample_gcm_row = sample_row\<lparr>ee_kdf := Pbkdf2 1000 [9], ee_size := 3, ee_derived_key_len := 16\<rparr>"

definition sample_key :: bytes where
  "sample_key = take 16 (start_key (lib_sha1 sample_crypto) (lib_sha256 sample_crypto) (as_bytes ''pw'') Sha256)"

definition sealed_member :: bytes where
  "sealed_member = (let iv = replicate 12 7; ct = gcm_crypt wide_gcm sample_key iv [7, 8, 9, 0]
     in iv @ ct @ gcm_tag_of wide_gcm sample_key iv ct)"

definition sample_package :: package where
  "sample_package = \<lparr>pk_archive = [Inr \<lparr>ze_raw_name = encrypted_package, ze_uncompressed_size = 32, ze_system = 3,
        ze_external_attributes = 0, ze_stored = True, ze_data_descriptor = False, ze_data = [], ze_fault = None,
        ze_first_read = Inr 0\<rparr>],
     pk_meta = (\<lambda>_. \<lparr>mm_method = Stored, mm_crc = 0, mm_compressed_size = 32\<rparr>),
     pk_cooked = (\<lambda>n i. Ok (whole sealed_member)), pk_raw = (\<lambda>n i. Ok (whole sealed_member)), pk_openings = 0\<rparr>"

lemma length_wide_tag: "length (gcm_tag_of wide_gcm key iv ct) = 16"
  by (simp add: gcm_tag_of_def ghash_of_def wide_gcm_def Let_def)

lemma length_gcm_crypt [simp]: "length (gcm_crypt gl key iv ct) = length ct"
  by (simp add: gcm_crypt_def)

lemma sealed_facts:
  "length sealed_member = 32" "take 12 sealed_member = replicate 12 7"
  "body sealed_member = gcm_crypt wide_gcm sample_key (replicate 12 7) [7, 8, 9, 0]"
  "authentic wide_gcm sample_key (replicate 12 7) sealed_member"
  by (simp_all add: sealed_member_def Let_def length_wide_tag body_def authentic_def)

lemma gcm_crypt_twice: "gcm_crypt gl key iv (gcm_crypt gl key iv pt) = pt"
  by (simp add: gcm_crypt_def)

lemma sample_key_size: "gcm_sizes sample_key (replicate 12 7)"
  by (simp add: sample_key_def gcm_sizes_def start_key_def sample_crypto_def as_bytes_def)

lemma sample_derive:
  "derive_key sample_crypto rich_host sample_gcm_row
     (start_key (lib_sha1 sample_crypto) (lib_sha256 sample_crypto) (as_bytes ''pw'') Sha256) default_limits
   = Inr sample_key"
proof -
  have "pbkdf2_screen default_limits 1000 = Inr 1000"
    by (simp add: pbkdf2_screen_Ok default_limits_def limit_defs int_limits)
  then show ?thesis
    by (simp add: derive_key_def sample_gcm_row_def sample_row_def derived_key_min_len_def derived_key_max_len_def
        try_zeroed_def rich_host_def Let_def sample_key_def sample_crypto_def start_key_def as_bytes_def)
qed

lemma sample_finds:
  "member_for_archive (pk_archive sample_package) (ee_path sample_gcm_row) (no_member 0) = Inr (0, encrypted_package)"
  by (simp add: member_for_archive_def sample_package_def sample_gcm_row_def sample_row_def zip_entry_name_def
      ascii_names ascii_evaluate encrypted_package_def member_matches_path_def)

lemma sample_package_facts:
  "openings_good sample_package" "steady sample_package 0 sealed_member"
  "member_size sample_package 0 = length sealed_member" "runs_on sample_gcm_row 32 (take 12 sealed_member)"
  "ee_iv sample_gcm_row = replicate 12 7" "ee_start_key sample_gcm_row = Sha256"
  by (simp_all add: openings_good_def sample_package_def steady_def sample_gcm_row_def sample_row_def
      member_size_def sealed_facts runs_on_def segments_patience_def whole_def)

lemma sample_size: "sizes_declared sizes (ee_size sample_gcm_row) = Inr 3"
  by (cases sizes) (simp_all add: sample_gcm_row_def sample_row_def declared_size_def inflated_len_def limit_defs)

lemma sample_walk:
  "first_taken (\<lambda>sk. derive_key sample_crypto rich_host sample_gcm_row sk default_limits)
     (gcm_verdict wide_gcm (ee_iv sample_gcm_row) sealed_member)
     (candidates sample_crypto ''pw'' (ee_start_key sample_gcm_row)) = Inr sample_key"
  by (simp add: candidates_def sample_package_facts(5,6) sample_derive gcm_verdict_def sample_key_size
      sealed_facts)

text \<open>A script that takes everything at once.\<close>

interpretation rquiet: releasing write_slots "\<lambda>w. fst w = []" snd "\<lambda>_. 0" gl il den
  for gl :: "'g gcm_lib" and il :: "'z inflate_lib" and den
  by unfold_locales auto

lemma quiet_room: "rquiet.dst.room w bs"
proof (rule rquiet.dst.takes_all_room, unfold rquiet.dst.takes_all_def, intro allI impI)
  fix w :: "slot list \<times> bytes" and d
  assume "fst w = []"
  then obtain out where "w = ([], out)" by (cases w) simp
  then show "\<exists>w'. write_all write_slots w d = Some (Inr (), w')"
    by (cases "d = []") (simp_all add: write_all.simps [of write_slots "([], out)" d])
qed

lemma sample_run:
  obtains pk' out where "wholesome sample_crypto rich_host wide_gcm zero_inflate write_slots 0 sample_gcm_row ''pw''
      default_limits Streamed (sample_package, ([], [])) = Some (Inr (), (pk', out))" "snd out = [7, 8, 9]"
proof -
  have plain: "zero_den (inf_init zero_inflate) [] (gcm_crypt wide_gcm sample_key (ee_iv sample_gcm_row) (body sealed_member))
      = Some ([7, 8, 9], 4)"
    by (simp add: sealed_facts sample_package_facts gcm_crypt_twice zero_den_def)
  have rich: "\<forall>n. host_reserves rich_host n" by (simp add: rich_host_def)
  have pk: "openings_good (opened sample_package)" "steady (opened sample_package) 0 sealed_member"
    using sample_package_facts(1,2) steady_opened by simp_all
  have len: "28 \<le> length sealed_member" "length sealed_member < 2 ^ 64" by (simp_all add: sealed_facts)
  have quiet: "fst ([] :: slot list, [] :: bytes) = []" by simp
  have limit: "(3 :: nat) \<le> max_output default_limits" by (simp add: default_limits_def limit_defs)
  obtain q pk' w' where run: "gcm_member sample_crypto rich_host wide_gcm 0 sample_gcm_row (length sealed_member) ''pw''
        default_limits (copy_out rich_host zero_inflate (gcm_decrypt_read wide_gcm read_segments) write_slots 3
        default_limits) (opened sample_package, ([], [])) = Some (q, (pk', w'))"
      "q = Inr ()" "snd w' = [7, 8, 9]"
    using rquiet.gcm_member_steady(2) [OF zero_inflate_documented rich quiet pk len sample_walk, of 3]
      quiet_room limit unfolding plain by auto
  have "wholesome sample_crypto rich_host wide_gcm zero_inflate write_slots 0 sample_gcm_row ''pw''
      default_limits Streamed (sample_package, ([], [])) = Some (Inr (), (pk', w'))"
    using run(1,2) wholesome_enters [OF sample_package_facts(1,2) sample_size sample_finds sample_package_facts(3),
        where gl = wide_gcm and il = zero_inflate and wr = write_slots]
      sample_package_facts(4) by (simp add: sealed_facts)
  then show thesis using that run(3) by blast
qed

section \<open>Properties\<close>

text \<open>
  C29. Whatever the input does between openings and whatever the writer is: if anything was written to it, then
  an earlier opening of the member delivered bytes whose tag a key derived from the password accepts.
\<close>

theorem nothing_written_unverified:
  assumes "openings_good pk"
    and "wholesome cr h gl il wr row_index row password limits sizes (pk, w) = Some (q, (pk', w'))"
    and "w' \<noteq> w"
  shows "\<exists>i name n bs sk key.
      member_for_archive (pk_archive pk) (ee_path row) (no_member row_index) = Inr (i, name)
    \<and> pk_openings pk < n \<and> delivers pk n i bs
    \<and> sk \<in> set (candidates cr password (ee_start_key row)) \<and> derive_key cr h row sk limits = Inr key
    \<and> authentic gl key (ee_iv row) bs"
proof (cases rule: wholesome_cases [OF assms(1,2), case_names refused member])
  case (member expected i name head)
  have good: "openings_good (opened pk)" using assms(1) by simp
  show ?thesis
  proof (cases rule: gcm_member_cases [OF good member(4), case_names unchanged released])
    case (released sk key pk1 bs ss fl)
    have "delivers pk (pk_openings pk1) i bs" "pk_openings pk < pk_openings pk1"
      using released(3,4) by (auto simp: same_input_def next_delivers delivers_cong [of pk1 pk])
    then show ?thesis using member(2) released(1,2,7) by blast
  qed (use assms(3) in simp)
qed (use assms(3) in simp)

theorem nothing_written_witness:
  "\<exists>i name n bs sk key.
      member_for_archive (pk_archive sample_package) (ee_path sample_gcm_row) (no_member 0) = Inr (i, name)
    \<and> pk_openings sample_package < n \<and> delivers sample_package n i bs
    \<and> sk \<in> set (candidates sample_crypto ''pw'' (ee_start_key sample_gcm_row))
    \<and> derive_key sample_crypto rich_host sample_gcm_row sk default_limits = Inr key
    \<and> authentic wide_gcm key (ee_iv sample_gcm_row) bs"
proof -
  obtain pk' out where run: "wholesome sample_crypto rich_host wide_gcm zero_inflate write_slots 0 sample_gcm_row ''pw''
      default_limits Streamed (sample_package, ([], [])) = Some (Inr (), (pk', out))" "snd out = [7, 8, 9]"
    by (rule sample_run)
  then have "out \<noteq> ([], [])" by auto
  from nothing_written_unverified [OF sample_package_facts(1) run(1) this] show ?thesis .
qed

text \<open>
  C30. A success over an input that may change: two different openings of the member delivered bytes whose tag
  the same derived key accepts, the second after the first, and what was written is the plaintext
  of the second, inflated to the size the manifest declares.
\<close>

theorem success_is_authentic:
  assumes "openings_good pk" "inflate_documented il den" "slots_good w"
    and "wholesome cr h gl il write_slots row_index row password limits sizes (pk, w) = Some (Inr (), (pk', w'))"
  shows "\<exists>i name n bs m bs' sk key out k.
      member_for_archive (pk_archive pk) (ee_path row) (no_member row_index) = Inr (i, name)
    \<and> pk_openings pk < n \<and> n < m \<and> delivers pk n i bs \<and> delivers pk m i bs'
    \<and> sk \<in> set (candidates cr password (ee_start_key row)) \<and> derive_key cr h row sk limits = Inr key
    \<and> authentic gl key (ee_iv row) bs \<and> authentic gl key (ee_iv row) bs'
    \<and> den (inf_init il) [] (gcm_crypt gl key (ee_iv row) (body bs')) = Some (out, k)
    \<and> snd w' = snd w @ out \<and> int (length out) = ee_size row \<and> length out \<le> max_output limits"
proof (cases rule: wholesome_cases [OF assms(1,4), case_names refused member])
  case (member expected i name head)
  have good: "openings_good (opened pk)" using assms(1) by simp
  show ?thesis
  proof (cases rule: gcm_member_cases [OF good member(4), case_names unchanged released])
    case (released sk key pk1 bs ss fl)
    define n where "n = ct_len_of (member_size pk i)"
    have first: "delivers pk (pk_openings pk1) i bs" "pk_openings pk < pk_openings pk1"
      using released(3,4) by (auto simp: same_input_def next_delivers delivers_cong [of pk1 pk])
    define bs' where "bs' = segments_content ss"
    have fl: "segments_content fl = drop 12 bs'" "12 \<le> length bs'" using released(10,11) by (simp_all add: bs'_def)
    obtain out k where rel: "snd w' = snd w @ out" "length out = expected" "expected \<le> max_output limits"
        "length (segments_content fl) = n + 16" "segments_fate fl = None"
        "gcm_tag_of gl key (ee_iv row) (take n (segments_content fl)) = drop n (segments_content fl)"
        "den (inf_init il) [] (gcm_crypt gl key (ee_iv row) (take n (segments_content fl))) = Some (out, k)"
    proof (rule rslots.gcm_release_result [OF assms(2) released(9) assms(3), where h = h and row = row and ct = n
          and key = key and pk = "opened (opened pk1)" and limits = limits and expected = expected and gl = gl
          and plain = "[]" and m = 0], goal_cases)
      case (1 q w1 k out)
      have "q = Inr ()" "w1 = w'" using 1(2) released(13) by (simp_all add: n_def)
      then show ?case using 1(1,3,4,6) by auto
    qed
    have len: "length bs' = n + 28" using rel(4) fl by simp
    have second: "delivers pk (pk_openings pk1 + 1) i bs'"
      using released(3,8,12) rel(5) by (simp add: delivers_def same_input_def bs'_def)
    have "authentic gl key (ee_iv row) bs'"
      using rel(6) unfolding fl(1) body_after_iv [OF len] by (simp add: authentic_def)
    moreover have "den (inf_init il) [] (gcm_crypt gl key (ee_iv row) (body bs')) = Some (out, k)"
      using rel(7) unfolding fl(1) body_after_iv [OF len] .
    moreover have "int (length out) = ee_size row" using sizes_declared_Ok [OF member(1)] rel(2) by simp
    moreover have "pk_openings pk1 < pk_openings pk1 + 1" by simp
    ultimately show ?thesis using member(2) first second released(1,2,7) rel(1-3) by blast
  qed simp
qed simp

theorem success_is_authentic_witness:
  "\<exists>pk' w' i name n bs m bs' sk key out k.
      wholesome sample_crypto rich_host wide_gcm zero_inflate write_slots 0 sample_gcm_row ''pw'' default_limits
        Streamed (sample_package, ([], [])) = Some (Inr (), (pk', w'))
    \<and> member_for_archive (pk_archive sample_package) (ee_path sample_gcm_row) (no_member 0) = Inr (i, name)
    \<and> pk_openings sample_package < n \<and> n < m \<and> delivers sample_package n i bs \<and> delivers sample_package m i bs'
    \<and> sk \<in> set (candidates sample_crypto ''pw'' (ee_start_key sample_gcm_row))
    \<and> derive_key sample_crypto rich_host sample_gcm_row sk default_limits = Inr key
    \<and> authentic wide_gcm key (ee_iv sample_gcm_row) bs \<and> authentic wide_gcm key (ee_iv sample_gcm_row) bs'
    \<and> zero_den (inf_init zero_inflate) [] (gcm_crypt wide_gcm key (ee_iv sample_gcm_row) (body bs')) = Some (out, k)
    \<and> snd w' = [] @ out \<and> int (length out) = ee_size sample_gcm_row \<and> length out \<le> max_output default_limits"
proof -
  obtain pk' w' where run: "wholesome sample_crypto rich_host wide_gcm zero_inflate write_slots 0 sample_gcm_row ''pw''
      default_limits Streamed (sample_package, ([], [])) = Some (Inr (), (pk', w'))"
    using sample_run by blast
  have "slots_good ([] :: slot list, [] :: bytes)" by (simp add: slots_good_def)
  from success_is_authentic [OF sample_package_facts(1) zero_inflate_documented this run, unfolded snd_conv] run
  show ?thesis by blast
qed

text \<open>
  C31. On an input that does not change, the wholesome package decrypts exactly: the key is that of the first
  candidate the tag accepts, an error of the walk is the answer and nothing is written, and otherwise
  the answer is a success with the inflated plaintext if that has the declared size within the limit,
  and an error if not.
\<close>

theorem wholesome_decrypts:
  assumes "inflate_documented il den" "\<forall>n. host_reserves h n" "openings_good pk" "steady pk i bs"
    and "sizes_declared sizes (ee_size row) = Inr expected"
    and "member_for_archive (pk_archive pk) (ee_path row) (no_member row_index) = Inr (i, name)"
    and "member_size pk i = length bs" "length bs < 2 ^ 64" "ee_cipher row = AesGcmW3c"
    and "runs_on row (length bs) (take 12 bs)"
  shows "case first_taken (\<lambda>sk. derive_key cr h row sk limits) (gcm_verdict gl (ee_iv row) bs)
           (candidates cr password (ee_start_key row)) of
      Inl e \<Rightarrow> \<exists>pk'. wholesome cr h gl il sink_write row_index row password limits sizes (pk, w)
        = Some (Inl e, (pk', w))
    | Inr key \<Rightarrow> \<exists>q pk' w'. wholesome cr h gl il sink_write row_index row password limits sizes (pk, w)
          = Some (q, (pk', w'))
        \<and> (case den (inf_init il) [] (gcm_crypt gl key (ee_iv row) (body bs)) of
             Some (plain, m) \<Rightarrow> if length plain = expected \<and> expected \<le> max_output limits
               then q = Inr () \<and> w' = w @ plain else q \<noteq> Inr ()
           | None \<Rightarrow> q \<noteq> Inr ())"
proof -
  have len: "28 \<le> length bs" using assms(9,10) by (simp add: runs_on_def)
  then have "12 \<le> length bs" by simp
  note run = wholesome_enters [OF assms(3-7) this assms(10)]
  have pk: "openings_good (opened pk)" "steady (opened pk) i bs" using assms(3,4) steady_opened by simp_all
  note steady = rsunk.gcm_member_steady [OF assms(1,2) TrueI pk len assms(8), where cr = cr and row = row
      and password = password and limits = limits and expected = expected and gl = gl and w = w]
  show ?thesis
  proof (cases "first_taken (\<lambda>sk. derive_key cr h row sk limits) (gcm_verdict gl (ee_iv row) bs)
      (candidates cr password (ee_start_key row))")
    case (Inl e)
    then show ?thesis using steady(1) [OF Inl] by (simp add: run)
  next
    case (Inr key)
    show ?thesis
      using steady(2) [OF Inr] sunk.takes_all_room [OF sink_takes_all]
      by (cases "den (inf_init il) [] (gcm_crypt gl key (ee_iv row) (body bs))") (auto simp: run Inr)
  qed
qed

theorem wholesome_decrypts_witness:
  "\<exists>q pk' w'. wholesome sample_crypto rich_host wide_gcm zero_inflate sink_write 0 sample_gcm_row ''pw''
      default_limits Streamed (sample_package, [1]) = Some (q, (pk', w')) \<and> q = Inr () \<and> w' = [1, 7, 8, 9]"
proof -
  have plain: "zero_den (inf_init zero_inflate) [] (gcm_crypt wide_gcm sample_key (ee_iv sample_gcm_row) (body sealed_member))
      = Some ([7, 8, 9], 4)"
    by (simp add: sealed_facts sample_package_facts gcm_crypt_twice zero_den_def)
  have rich: "\<forall>n. host_reserves rich_host n" by (simp add: rich_host_def)
  have side: "length sealed_member < 2 ^ 64" "ee_cipher sample_gcm_row = AesGcmW3c"
    "runs_on sample_gcm_row (length sealed_member) (take 12 sealed_member)"
    using sample_package_facts(4) by (simp_all add: sealed_facts sample_gcm_row_def sample_row_def)
  have limit: "(3 :: nat) \<le> max_output default_limits" by (simp add: default_limits_def limit_defs)
  from wholesome_decrypts [OF zero_inflate_documented rich sample_package_facts(1,2) sample_size sample_finds
      sample_package_facts(3) side, where cr = sample_crypto and limits = default_limits and password = "''pw''"
      and gl = wide_gcm and w = "[1]" and sizes = Streamed, unfolded sample_walk sum.case plain option.case
      prod.case]
  show ?thesis using limit by simp
qed

text \<open>
  C32. A wholesome package whose row names AES-CBC passes every screen and then always ends in an error that
  blames the crate: the row goes to the AES-GCM passes, whose cipher refuses its 16-byte IV.
\<close>

theorem wholesome_cbc_row_is_internal:
  assumes "openings_good pk" "steady pk i bs"
    and "sizes_declared sizes (ee_size row) = Inr expected"
    and "member_for_archive (pk_archive pk) (ee_path row) (no_member row_index) = Inr (i, name)"
    and "member_size pk i = length bs" "ee_cipher row = AesCbcW3c" "runs_on row (length bs) (take 12 bs)"
    and "derive_key cr h row (hd (candidates cr password (ee_start_key row))) limits = Inr key"
  shows "\<exists>pk'. wholesome cr h gl il wr row_index row password limits sizes (pk, w)
    = Some (Inl (Internal ''an AES-GCM key length the screen passed''), (pk', w))"
proof -
  have shape: "length (ee_iv row) = 16" "0 < length bs" "16 dvd length bs" using assms(6,7) by (simp_all add: runs_on_def)
  then have "16 \<le> length bs" by (simp add: dvd_imp_le)
  then have len: "12 \<le> length bs" by simp
  have no: "\<not> gcm_sizes key (ee_iv row)" using shape(1) by (simp add: gcm_sizes_def)
  have good: "openings_good (opened pk)" and coming: "next_bytes (opened pk) i bs"
    using assms(1) steady_next [OF steady_opened [OF assms(2)]] by simp_all
  define n where "n = ct_len_of (length bs)"
  have check: "gcm_accepts gl i row n key (opened pk) = Some (Inl (Internal no_gcm_size), opened (opened pk))"
    by (rule gcm_accepts_result [OF good, where gl = gl and i = i and row = row and n = n and k = key])
       (use coming len no in simp)
  show ?thesis
    unfolding wholesome_enters [OF assms(1-5) len assms(7)]
    using assms(8) check
    by (simp add: gcm_member_def gcm_key_def then_run_def on_package_def find_key_def attempt_def candidates_def
        answer_def no_gcm_size_def flip: n_def)
qed

definition sample_cbc_row :: entry_encryption where
  "sample_cbc_row = sample_gcm_row\<lparr>ee_cipher := AesCbcW3c, ee_iv := replicate 16 7\<rparr>"

theorem wholesome_cbc_witness:
  "\<exists>pk'. wholesome sample_crypto rich_host wide_gcm zero_inflate sink_write 0 sample_cbc_row ''pw''
      default_limits Streamed (sample_package, []) = Some (Inl (Internal ''an AES-GCM key length the screen passed''), (pk', []))"
proof -
  have size: "sizes_declared Streamed (ee_size sample_cbc_row) = Inr 3"
    using sample_size [of Streamed] by (simp add: sample_cbc_row_def)
  have finds: "member_for_archive (pk_archive sample_package) (ee_path sample_cbc_row) (no_member 0)
      = Inr (0, encrypted_package)"
    using sample_finds by (simp add: sample_cbc_row_def)
  have row: "ee_cipher sample_cbc_row = AesCbcW3c"
    "runs_on sample_cbc_row (length sealed_member) (take 12 sealed_member)"
    by (simp_all add: sample_cbc_row_def runs_on_def sealed_facts sample_gcm_row_def)
  have "derive_key sample_crypto rich_host sample_cbc_row
      (hd (candidates sample_crypto ''pw'' (ee_start_key sample_cbc_row))) default_limits = Inr sample_key"
    using sample_derive sample_package_facts(6)
    by (simp add: derive_key_def sample_cbc_row_def candidates_def cong: if_cong)
  from wholesome_cbc_row_is_internal [OF sample_package_facts(1,2) size finds sample_package_facts(3) row this,
      where gl = wide_gcm and il = zero_inflate and wr = sink_write and w = "[]"]
  show ?thesis .
qed

end
