(* ===== verification/Cbc_Reader.thy ===== *)
theory Cbc_Reader
  imports Stream_Io
begin

text \<open>
  \<^verbatim>\<open>CbcDecryptReader\<close> of \<^verbatim>\<open>src/stream.rs\<close>: AES-CBC decrypted a chunk at a time, with the last block of
  each chunk held back until it is known whether it carries the padding.  The block mode is the
  parameter \<^verbatim>\<open>cbc_lib\<close>.  The lemmas give the exact bytes and the exact end of the reader over any
  source, and show that on a whole number of blocks they are those of whole-buffer decryption
  followed by the removal of the padding.
\<close>

section \<open>The reader\<close>

record 'd cbc_lib =
  cbc_new :: "bytes \<Rightarrow> bytes \<Rightarrow> 'd option"
  cbc_blocks :: "'d \<Rightarrow> bytes \<Rightarrow> bytes \<times> 'd"

record ('d, 's) cbc_reader =
  cb_src :: 's
  cb_dec :: 'd
  cb_buf :: bytes
  cb_start :: nat
  cb_end :: nat
  cb_held :: bytes
  cb_have_held :: bool
  cb_finished :: bool

definition not_blocks :: fault where
  "not_blocks = FaultBadParameters (MemberBad NotBlockMultiple)"

definition cbc_reader_new ::
    "'d cbc_lib \<Rightarrow> host \<Rightarrow> 's \<Rightarrow> bytes \<Rightarrow> bytes \<Rightarrow> fault + ('d, 's) cbc_reader" where
  "cbc_reader_new lib h src key iv =
    (if length key = 16 \<or> length key = 24 \<or> length key = 32 then
       (case cbc_new lib key iv of
          None \<Rightarrow> Err (FaultInternal ''an AES-CBC key or IV length the screen passed'')
        | Some d \<Rightarrow>
            and_then (chunk_buffer h chunk) (\<lambda>buf.
              Ok \<lparr>cb_src = src, cb_dec = d, cb_buf = buf, cb_start = 0, cb_end = 0,
                  cb_held = replicate aes_block_len 0, cb_have_held = False, cb_finished = False\<rparr>))
     else Err (FaultInternal ''an AES key length the screen passed''))"

text \<open>\<^verbatim>\<open>decrypt_blocks\<close>: the tail of an incomplete block is an error of ours.\<close>

definition decrypt_blocks :: "'d cbc_lib \<Rightarrow> 'd \<Rightarrow> bytes \<Rightarrow> fault + bytes \<times> 'd" where
  "decrypt_blocks lib d buf =
    (if length buf mod aes_block_len \<noteq> 0 then Err (FaultInternal ''a CBC span that is not whole blocks'')
     else Ok (cbc_blocks lib d buf))"

definition overwrite :: "bytes \<Rightarrow> nat \<Rightarrow> bytes \<Rightarrow> bytes" where
  "overwrite buf at d = take at buf @ d @ drop (at + length d) buf"

text \<open>The end of \<^verbatim>\<open>refill\<close>: \<^verbatim>\<open>n\<close> bytes of plaintext are in the buffer.\<close>

definition cbc_settle :: "('d, 's) cbc_reader \<Rightarrow> nat \<Rightarrow> bool \<Rightarrow> (io_error + bool) \<times> ('d, 's) cbc_reader" where
  "cbc_settle r n at_end =
    (if n = 0 then (Inl (into_io not_blocks), r)
     else
       (let r = r\<lparr>cb_start := 0\<rparr> in
        if at_end then
          (let pad = unat (cb_buf r ! (n - 1)) in
           if \<not> (1 \<le> pad \<and> pad \<le> aes_block_len) \<or> n < pad then (Inl (into_io FaultWrongPassword), r)
           else (Inr True, r\<lparr>cb_end := n - pad, cb_have_held := False, cb_finished := True\<rparr>))
        else
          (Inr True, r\<lparr>cb_end := n - aes_block_len,
                       cb_held := take aes_block_len (drop (n - aes_block_len) (cb_buf r)),
                       cb_have_held := True\<rparr>)))"

definition cbc_refill ::
    "'d cbc_lib \<Rightarrow> 's reader \<Rightarrow> ('d, 's) cbc_reader \<Rightarrow> ((io_error + bool) \<times> ('d, 's) cbc_reader) option" where
  "cbc_refill lib rd r0 =
    (if cb_finished r0 then Some (Inr False, r0)
     else
       (let off = (if cb_have_held r0 then aes_block_len else 0);
            r = (if cb_have_held r0 then r0\<lparr>cb_buf := overwrite (cb_buf r0) 0 (cb_held r0)\<rparr> else r0);
            room = (length (cb_buf r) - off) div aes_block_len * aes_block_len
        in case read_full rd (cb_src r) room of
             None \<Rightarrow> None
           | Some (Inl e, s') \<Rightarrow> Some (Inl e, r\<lparr>cb_src := s'\<rparr>)
           | Some (Inr data, s') \<Rightarrow>
              (let k = length data; r = r\<lparr>cb_src := s', cb_buf := overwrite (cb_buf r) off data\<rparr> in
               if k mod aes_block_len \<noteq> 0 then Some (Inl (into_io not_blocks), r)
               else case decrypt_blocks lib (cb_dec r) data of
                      Inl f \<Rightarrow> Some (Inl (into_io f), r)
                    | Inr (plain, d') \<Rightarrow>
                        Some (cbc_settle (r\<lparr>cb_dec := d', cb_buf := overwrite (cb_buf r) off plain\<rparr>)
                                (off + k) (k < room)))))"

partial_function (option) cbc_read ::
    "'d cbc_lib \<Rightarrow> 's reader \<Rightarrow> ('d, 's) cbc_reader \<Rightarrow> nat
      \<Rightarrow> ((io_error + bytes) \<times> ('d, 's) cbc_reader) option" where
  "cbc_read lib rd r n =
    (if cb_start r = cb_end r then
       (case cbc_refill lib rd r of
          None \<Rightarrow> None
        | Some (q, r') \<Rightarrow> (case q of
            Inl e \<Rightarrow> Some (Inl e, r')
          | Inr again \<Rightarrow> if \<not> again then Some (Inr [], r') else cbc_read lib rd r' n))
     else
       (let k = min (cb_end r - cb_start r) n
        in Some (Inr (take k (drop (cb_start r) (cb_buf r))), r\<lparr>cb_start := cb_start r + k\<rparr>)))"

declare cbc_read.simps [code]

section \<open>What the reader delivers\<close>

text \<open>The documented behaviour of the block mode: it keeps lengths and composes over whole blocks.\<close>

definition cbc_documented :: "'d cbc_lib \<Rightarrow> bool" where
  "cbc_documented lib \<longleftrightarrow>
     (\<forall>d bs. 16 dvd length bs \<longrightarrow> length (fst (cbc_blocks lib d bs)) = length bs)
   \<and> (\<forall>d xs ys. 16 dvd length xs \<longrightarrow> 16 dvd length ys \<longrightarrow>
        cbc_blocks lib d (xs @ ys) =
          (fst (cbc_blocks lib d xs) @ fst (cbc_blocks lib (snd (cbc_blocks lib d xs)) ys),
           snd (cbc_blocks lib (snd (cbc_blocks lib d xs)) ys)))"

definition pad_of :: "bytes \<Rightarrow> nat" where
  "pad_of plain = unat (last plain)"

definition padded :: "bytes \<Rightarrow> bool" where
  "padded plain \<longleftrightarrow> 1 \<le> pad_of plain \<and> pad_of plain \<le> 16 \<and> pad_of plain \<le> length plain"

definition unpad :: "bytes \<Rightarrow> bytes" where
  "unpad plain = take (length plain - pad_of plain) plain"

lemma pad_of_append: "ys \<noteq> [] \<Longrightarrow> pad_of (xs @ ys) = pad_of ys"
  by (simp add: pad_of_def)

lemma padded_append: "16 \<le> length ys \<Longrightarrow> padded (xs @ ys) \<longleftrightarrow> padded ys"
  by (subgoal_tac "ys \<noteq> []") (auto simp: padded_def pad_of_append)

lemma padded_nonempty: "padded ys \<Longrightarrow> ys \<noteq> []"
  by (auto simp: padded_def)

lemma unpad_append: "padded ys \<Longrightarrow> unpad (xs @ ys) = xs @ unpad ys"
  by (frule padded_nonempty) (simp add: unpad_def padded_def pad_of_append, linarith)

text \<open>
  The bytes and the end of a reader that holds back \<^verbatim>\<open>held\<close> and has \<^verbatim>\<open>c\<close> and the end \<^verbatim>\<open>f\<close> of its source
  in front of it: a chunk with its last block cut off, then the rest, or the last piece.
\<close>

function cbc_out ::
    "'d cbc_lib \<Rightarrow> 'd \<Rightarrow> bytes \<Rightarrow> bytes \<Rightarrow> io_error option \<Rightarrow> bytes \<times> io_error option" where
  "cbc_out lib d held c f =
    (let room = chunk - length held in
     if length c < room \<or> room = 0 then
       (case f of
          Some e \<Rightarrow> ([], Some e)
        | None \<Rightarrow>
           (let plain = held @ fst (cbc_blocks lib d c) in
            if length c mod 16 \<noteq> 0 \<or> plain = [] then ([], Some (into_io not_blocks))
            else if padded plain then (unpad plain, None)
            else ([], Some (into_io FaultWrongPassword))))
     else
       (let (p, d') = cbc_blocks lib d (take room c); plain = held @ p;
            (out, end) = cbc_out lib d' (drop (chunk - 16) plain) (drop room c) f
        in (take (chunk - 16) plain @ out, end)))"
  by pat_completeness auto
termination
  by (relation "measure (\<lambda>(lib, d, held, c, f). length c)") (auto simp: chunk_def)

declare cbc_out.simps [simp del]

lemma chunk_facts: "16 dvd chunk" "16 < chunk" "chunk mod 16 = 0"
  by (simp_all add: chunk_def)

text \<open>On a whole number of blocks: whole-buffer decryption and removal of the padding.\<close>

lemma cbc_out_whole:
  fixes d :: 'd
  assumes doc: "cbc_documented (lib :: 'd cbc_lib)"
    and "16 dvd length c" "length held = 0 \<or> length held = 16" "held \<noteq> [] \<or> c \<noteq> []"
  defines "plain \<equiv> held @ fst (cbc_blocks lib d c)"
  shows "if padded plain then cbc_out lib d held c None = (unpad plain, None)
    else snd (cbc_out lib d held c None) = Some (into_io FaultWrongPassword)
      \<and> (\<exists>rest. plain = fst (cbc_out lib d held c None) @ rest)"
  unfolding plain_def using assms(2-4)
proof (induction "length c" arbitrary: d held c rule: less_induct)
  case less
  have len: "length (fst (cbc_blocks lib d' bs)) = length bs" if "16 dvd length bs" for d' bs
    using doc that by (simp add: cbc_documented_def)
  define room where "room = chunk - length held"
  have room: "16 dvd room" "0 < room" "room + length held = chunk"
    using less(3) chunk_facts by (auto simp: room_def)
  define plain where "plain = held @ fst (cbc_blocks lib d c)"
  have plain_len: "length plain = length held + length c" by (simp add: plain_def len less(2))
  show ?case
  proof (cases "length c < room")
    case True
    have "plain \<noteq> []" using plain_len less(4) by auto
    then show ?thesis using True less(2) room
      by (simp add: cbc_out.simps [of lib d held c] Let_def dvd_eq_mod_eq_0 flip: room_def plain_def)
  next
    case False
    define c1 c2 where "c1 = take room c" and "c2 = drop room c"
    have long: "room \<le> length c" using False by simp
    have c: "c = c1 @ c2" unfolding c1_def c2_def by (rule append_take_drop_id [symmetric])
    have lens: "length c1 = room" "length c2 = length c - room"
      unfolding c1_def c2_def using long by simp_all
    have dvd: "16 dvd length c1" "16 dvd length c2" using room(1) less(2) by (simp_all add: lens dvd_diff_nat)
    define p d' where "p = fst (cbc_blocks lib d c1)" and "d' = snd (cbc_blocks lib d c1)"
    have first: "cbc_blocks lib d c1 = (p, d')" by (simp add: p_def d'_def)
    have p: "length p = room" using len [OF dvd(1), of d] lens(1) by (simp add: p_def)
    define h1 h2 where "h1 = take (chunk - 16) (held @ p)" and "h2 = drop (chunk - 16) (held @ p)"
    have hp: "length (held @ p) = chunk" using p room by simp
    have held: "held @ p = h1 @ h2" "length h2 = 16" "length h1 = chunk - 16"
      unfolding h1_def h2_def using hp chunk_facts(2)
      by (simp_all only: append_take_drop_id length_take length_drop)
    have whole: "plain = h1 @ (h2 @ fst (cbc_blocks lib d' c2))"
    proof -
      have "cbc_blocks lib d c = (p @ fst (cbc_blocks lib d' c2), snd (cbc_blocks lib d' c2))"
        using doc dvd unfolding c by (simp add: cbc_documented_def first)
      then show ?thesis using held(1) by (simp add: plain_def flip: append_assoc)
    qed
    have out: "cbc_out lib d held c None
        = (h1 @ fst (cbc_out lib d' h2 c2 None), snd (cbc_out lib d' h2 c2 None))"
      using False room first
      by (simp add: cbc_out.simps [of lib d held c] Let_def c1_def c2_def h1_def h2_def split_beta
          flip: room_def)
    define rest where "rest = h2 @ fst (cbc_blocks lib d' c2)"
    have shorter: "length c2 < length c" using lens(2) room long by simp
    have nonempty: "rest \<noteq> []" using held(2) by (auto simp: rest_def)
    have ih: "if padded rest then cbc_out lib d' h2 c2 None = (unpad rest, None)
      else snd (cbc_out lib d' h2 c2 None) = Some (into_io FaultWrongPassword)
        \<and> (\<exists>z. rest = fst (cbc_out lib d' h2 c2 None) @ z)"
      unfolding rest_def by (rule less(1) [OF shorter dvd(2)]) (use held(2) in auto)
    have rest16: "16 \<le> length rest" using held(2) by (simp add: rest_def)
    have plain: "plain = h1 @ rest" using whole by (simp add: rest_def)
    have padded: "padded plain \<longleftrightarrow> padded rest" unfolding plain by (rule padded_append [OF rest16])
    have unpad: "unpad plain = h1 @ unpad rest" if "padded rest"
      unfolding plain by (rule unpad_append [OF that])
    show ?thesis
    proof (cases "padded rest")
      case True
      then show ?thesis using ih by (simp add: out padded unpad flip: plain_def)
    next
      case False
      then obtain z where z: "rest = fst (cbc_out lib d' h2 c2 None) @ z"
        "snd (cbc_out lib d' h2 c2 None) = Some (into_io FaultWrongPassword)" using ih by auto
      have "plain = (h1 @ fst (cbc_out lib d' h2 c2 None)) @ z"
        using z(1) whole by (simp add: rest_def)
      moreover have "\<not> padded plain" using False padded by blast
      ultimately show ?thesis using z(2) by (auto simp: out simp flip: plain_def)
    qed
  qed
qed

section \<open>The reader over a source\<close>

lemma length_overwrite: "at + length d \<le> length buf \<Longrightarrow> length (overwrite buf at d) = length buf"
  by (simp add: overwrite_def)

lemma take_overwrite:
  "at + length d \<le> length buf \<Longrightarrow> n = at + length d \<Longrightarrow> take n (overwrite buf at d) = take at buf @ d"
  by (simp add: overwrite_def)

lemma take_at_overwrite: "at \<le> length buf \<Longrightarrow> take at (overwrite buf at d) = take at buf"
  by (simp add: overwrite_def)

lemma cbc_out_final: "f \<noteq> Some Interrupted \<Longrightarrow> snd (cbc_out lib d held c f) \<noteq> Some Interrupted"
proof (induction lib d held c f rule: cbc_out.induct)
  case (1 lib d held c f)
  obtain p d' where p: "cbc_blocks lib d (take (chunk - length held) c) = (p, d')" by fastforce
  show ?case
  proof (cases "length c < chunk - length held \<or> chunk - length held = 0")
    case True
    then show ?thesis using 1(2)
      by (cases f) (simp_all add: cbc_out.simps Let_def)
  next
    case False
    from 1(1) [OF refl False refl p [symmetric] refl 1(2)] False show ?thesis
      by (simp add: cbc_out.simps [of lib d held c f] Let_def p split_beta)
  qed
qed

text \<open>The last step of a refill, on the plaintext that is in the buffer.\<close>

lemma last_take: "0 < n \<Longrightarrow> n \<le> length b \<Longrightarrow> b ! (n - 1) = last (take n b)"
  by (cases n) (simp_all add: take_Suc_conv_app_nth)

lemma cbc_settle_last:
  assumes "take n (cb_buf r) = plain" "n \<le> length (cb_buf r)"
  shows "cbc_settle r n True =
    (if plain = [] then (Inl (into_io not_blocks), r)
     else if padded plain then
       (Inr True, r\<lparr>cb_start := 0, cb_end := n - pad_of plain, cb_have_held := False, cb_finished := True\<rparr>)
     else (Inl (into_io FaultWrongPassword), r\<lparr>cb_start := 0\<rparr>))"
proof (cases "n = 0")
  case True
  then show ?thesis using assms by (simp add: cbc_settle_def)
next
  case False
  then have "plain \<noteq> []" "length plain = n" "cb_buf r ! (n - 1) = last plain"
    using assms last_take [of n "cb_buf r"] by auto
  then show ?thesis using False
    by (auto simp: cbc_settle_def Let_def padded_def pad_of_def aes_block_len_def)
qed

lemma cbc_settle_more:
  assumes "0 < n"
  shows "cbc_settle r n False =
    (Inr True, r\<lparr>cb_start := 0, cb_end := n - 16,
                 cb_held := take 16 (drop (n - 16) (cb_buf r)), cb_have_held := True\<rparr>)"
  using assms by (simp add: cbc_settle_def aes_block_len_def Let_def)

locale cbc_over_source = source rd good content fate patience
  for rd :: "'s reader" and good content fate patience +
  fixes lib :: "'d cbc_lib"
begin

definition held_of :: "('d, 's) cbc_reader \<Rightarrow> bytes" where
  "held_of r = (if cb_have_held r then cb_held r else [])"

definition cbc_rest :: "('d, 's) cbc_reader \<Rightarrow> bytes \<times> io_error option" where
  "cbc_rest r = (if cb_finished r then ([], None)
     else cbc_out lib (cb_dec r) (held_of r) (content (cb_src r)) (fate (cb_src r)))"

definition slice :: "('d, 's) cbc_reader \<Rightarrow> bytes" where
  "slice r = drop (cb_start r) (take (cb_end r) (cb_buf r))"

definition cbc_good :: "('d, 's) cbc_reader \<Rightarrow> bool" where
  "cbc_good r \<longleftrightarrow> cbc_documented lib \<and> good (cb_src r) \<and> length (cb_buf r) = chunk \<and> length (cb_held r) = 16
     \<and> cb_start r \<le> cb_end r \<and> cb_end r \<le> chunk"

definition cbc_content :: "('d, 's) cbc_reader \<Rightarrow> bytes" where
  "cbc_content r = slice r @ fst (cbc_rest r)"

definition cbc_fate :: "('d, 's) cbc_reader \<Rightarrow> io_error option" where
  "cbc_fate r = snd (cbc_rest r)"

definition cbc_patience :: "('d, 's) cbc_reader \<Rightarrow> nat" where
  "cbc_patience r = patience (cb_src r)"

lemma held_of_length: "cbc_good r \<Longrightarrow> length (held_of r) = 0 \<or> length (held_of r) = 16"
  by (simp add: held_of_def cbc_good_def)

lemma blocks_length:
  "cbc_good r \<Longrightarrow> 16 dvd length bs \<Longrightarrow> length (fst (cbc_blocks lib d bs)) = length bs"
  by (simp add: cbc_good_def cbc_documented_def)

text \<open>What a refill makes of the bytes it reads.\<close>

lemma cbc_refill_read:
  assumes "cbc_good r" "\<not> cb_finished r" "16 dvd length d"
    and "read_full rd (cb_src r) (chunk - length (held_of r)) = Some (Inr d, s')"
    and "length d \<le> chunk - length (held_of r)"
  obtains buf where "length buf = chunk"
    "take (length (held_of r) + length d) buf = held_of r @ fst (cbc_blocks lib (cb_dec r) d)"
    "cbc_refill lib rd r = Some (cbc_settle
       (r\<lparr>cb_src := s', cb_dec := snd (cbc_blocks lib (cb_dec r) d), cb_buf := buf\<rparr>)
       (length (held_of r) + length d) (length d < chunk - length (held_of r)))"
proof -
  define off where "off = length (held_of r)"
  have off: "off = (if cb_have_held r then aes_block_len else 0)" "16 dvd chunk - off" "off \<le> chunk"
    using assms(1) chunk_facts by (auto simp: off_def held_of_def cbc_good_def aes_block_len_def)
  define b0 where "b0 = (if cb_have_held r then overwrite (cb_buf r) 0 (cb_held r) else cb_buf r)"
  have b0: "length b0 = chunk" "take off b0 = held_of r"
    using assms(1) off chunk_facts
    by (auto simp: b0_def off_def held_of_def cbc_good_def length_overwrite take_overwrite)
  define plain where "plain = fst (cbc_blocks lib (cb_dec r) d)"
  have plain: "length plain = length d" using blocks_length [OF assms(1,3)] by (simp add: plain_def)
  define buf where "buf = overwrite (overwrite b0 off d) off plain"
  have fits: "off + length d \<le> chunk" using assms(5) off(3) by (simp add: off_def)
  have buf: "length buf = chunk" "take (off + length d) buf = held_of r @ plain"
    using fits plain b0 by (simp_all add: buf_def length_overwrite take_overwrite take_at_overwrite)
  have room: "(chunk - off) div 16 * 16 = chunk - off" using off(2) by simp
  have "length d mod 16 = 0" using assms(3) by simp
  then have "cbc_refill lib rd r = Some (cbc_settle
       (r\<lparr>cb_src := s', cb_dec := snd (cbc_blocks lib (cb_dec r) d), cb_buf := buf\<rparr>)
       (off + length d) (length d < chunk - off))"
  proof (cases "cb_have_held r")
    case True
    then show ?thesis
      using assms(2,4) room off(1) buf(1) b0(1) \<open>length d mod 16 = 0\<close>
      by (simp add: cbc_refill_def decrypt_blocks_def aes_block_len_def buf_def b0_def plain_def off_def
          held_of_def Let_def split_beta length_overwrite)
  next
    case False
    then show ?thesis
      using assms(1,2,4) room off(1) \<open>length d mod 16 = 0\<close>
      by (simp add: cbc_refill_def decrypt_blocks_def aes_block_len_def buf_def b0_def plain_def off_def
          held_of_def cbc_good_def Let_def split_beta length_overwrite)
  qed
  then show thesis using that buf by (simp add: off_def plain_def)
qed

lemma cbc_refill_stops:
  assumes "cbc_good r" "\<not> cb_finished r"
    and "read_full rd (cb_src r) (chunk - length (held_of r)) = Some (q, s')"
    and "case q of Inl e' \<Rightarrow> e = e' | Inr d \<Rightarrow> \<not> 16 dvd length d \<and> e = into_io not_blocks"
  shows "\<exists>r'. cbc_refill lib rd r = Some (Inl e, r')"
proof -
  have room: "(chunk - 16) div 16 * 16 = chunk - 16" "chunk div 16 * 16 = chunk" "16 \<le> chunk"
    by (simp_all add: chunk_def)
  show ?thesis
    using assms room
    by (cases "cb_have_held r"; cases q)
       (auto simp: cbc_refill_def aes_block_len_def held_of_def cbc_good_def length_overwrite Let_def
         dvd_eq_mod_eq_0)
qed

lemma cbc_refill_cases:
  assumes r: "cbc_good r" "cb_start r = cb_end r" "\<not> cb_finished r"
  obtains (fails) e r' where "cbc_refill lib rd r = Some (Inl e, r')" "cbc_content r = []"
      "cbc_fate r = Some e"
  | (data) r' where "cbc_refill lib rd r = Some (Inr True, r')" "cbc_good r'"
      "cbc_content r' = cbc_content r" "cbc_fate r' = cbc_fate r" "cbc_patience r' \<le> cbc_patience r"
      "cb_start r' < cb_end r' \<or> cb_start r' = cb_end r' \<and> cb_finished r'"
proof -
  define held room where "held = held_of r" and "room = chunk - length held"
  have held: "length held = 0 \<or> length held = 16" unfolding held_def by (rule held_of_length [OF r(1)])
  have room: "16 dvd room" "0 < room" "length held + room = chunk"
    using held chunk_facts by (auto simp: room_def)
  have good: "good (cb_src r)" using r(1) by (simp add: cbc_good_def)
  define out where "out = cbc_out lib (cb_dec r) held (content (cb_src r)) (fate (cb_src r))"
  have now: "cbc_content r = fst out" "cbc_fate r = snd out"
    using r by (simp_all add: cbc_content_def cbc_fate_def cbc_rest_def slice_def out_def held_def)
  note out_simp = out_def [unfolded cbc_out.simps [of lib "cb_dec r" held] Let_def, folded room_def]
  show thesis
  proof (cases "delivered (cb_src r) room")
    case (Inl e)
    obtain s' where s': "read_full rd (cb_src r) room = Some (Inl e, s')"
      by (rule read_full_fails [OF good Inl])
    obtain r' where "cbc_refill lib rd r = Some (Inl e, r')"
      using cbc_refill_stops [OF r(1,3) s' [unfolded room_def held_def]] by auto
    moreover have "out = ([], Some e)"
      using Inl by (auto simp: out_simp delivered_def split: if_splits option.splits)
    ultimately show thesis by (intro fails) (simp_all add: now)
  next
    case (Inr d)
    obtain s' where s': "read_full rd (cb_src r) room = Some (Inr d, s')" "good s'"
      "content (cb_src r) = d @ content s'" "fate s' = fate (cb_src r)" "patience s' \<le> patience (cb_src r)"
      by (rule read_full_delivers [OF good Inr])
    have d: "length d \<le> room"
      using Inr by (auto simp: delivered_def split: if_splits option.splits)
    have ended: "length d < room \<Longrightarrow> content s' = [] \<and> fate s' = None"
      using Inr s'(3,4) by (auto simp: delivered_def split: if_splits option.splits)
    show thesis
    proof (cases "16 dvd length d")
      case False
      then have short: "length d < room" using d room(1) by (cases "length d = room") auto
      obtain r' where "cbc_refill lib rd r = Some (Inl (into_io not_blocks), r')"
        using cbc_refill_stops [OF r(1,3) s'(1) [unfolded room_def held_def], of "into_io not_blocks"] False
        by auto
      moreover have "out = ([], Some (into_io not_blocks))"
        using short ended s'(3,4) False by (simp add: out_simp dvd_eq_mod_eq_0)
      ultimately show thesis by (intro fails) (simp_all add: now)
    next
      case True
      define plain d' where "plain = held @ fst (cbc_blocks lib (cb_dec r) d)"
        and "d' = snd (cbc_blocks lib (cb_dec r) d)"
      have len: "length plain = length held + length d" by (simp add: plain_def blocks_length [OF r(1) True])
      note fits = d [unfolded room_def held_def]
      obtain buf where "length buf = chunk"
        "take (length (held_of r) + length d) buf = held_of r @ fst (cbc_blocks lib (cb_dec r) d)"
        "cbc_refill lib rd r = Some (cbc_settle
           (r\<lparr>cb_src := s', cb_dec := snd (cbc_blocks lib (cb_dec r) d), cb_buf := buf\<rparr>)
           (length (held_of r) + length d) (length d < chunk - length (held_of r)))"
        by (rule cbc_refill_read [OF r(1,3) True s'(1) [unfolded room_def held_def] fits])
      note buf = this [folded held_def, folded room_def d'_def plain_def, folded len]
      define r1 where "r1 = r\<lparr>cb_src := s', cb_dec := d', cb_buf := buf\<rparr>"
      show thesis
      proof (cases "length d < room")
        case short: True
        have c: "content (cb_src r) = d" "fate (cb_src r) = None" using ended [OF short] s'(3,4) by simp_all
        have settle: "cbc_refill lib rd r = Some
          (if plain = [] then (Inl (into_io not_blocks), r1)
           else if padded plain then
             (Inr True, r1\<lparr>cb_start := 0, cb_end := length plain - pad_of plain, cb_have_held := False,
                           cb_finished := True\<rparr>)
           else (Inl (into_io FaultWrongPassword), r1\<lparr>cb_start := 0\<rparr>))"
          using buf cbc_settle_last [of "length plain" r1 plain] short len d room(3)
          by (simp add: r1_def)
        have out: "out = (if plain = [] then ([], Some (into_io not_blocks))
            else if padded plain then (unpad plain, None) else ([], Some (into_io FaultWrongPassword)))"
          using True short room(2) by (simp add: out_simp c plain_def)
        consider "plain = []" | "plain \<noteq> []" "\<not> padded plain" | "plain \<noteq> []" "padded plain" by blast
        then show thesis
        proof cases
          case 3
          define r2 where "r2 = r1\<lparr>cb_start := 0, cb_end := length plain - pad_of plain,
            cb_have_held := False, cb_finished := True\<rparr>"
          have "take (length plain - pad_of plain) buf = unpad plain"
            using arg_cong [OF buf(2), of "take (length plain - pad_of plain)"] by (simp add: unpad_def)
          then have "slice r2 = unpad plain" by (simp add: slice_def r2_def r1_def)
          then have r2: "cbc_content r2 = unpad plain" "cbc_fate r2 = None"
            by (simp_all add: cbc_content_def cbc_fate_def cbc_rest_def r2_def)
          have "cbc_good r2" using r(1) s'(2) buf(1) len d room(3)
            by (simp add: cbc_good_def r2_def r1_def)
          moreover have "cbc_refill lib rd r = Some (Inr True, r2)" using 3 settle by (simp add: r2_def)
          ultimately show thesis
            using 3 s'(5) by (intro data [of r2]) (simp_all add: now out r2, auto simp: cbc_patience_def r2_def r1_def)
        qed (use settle in \<open>auto intro!: fails simp: now out\<close>)
      next
        case False
        then have full: "length d = room" using d by simp
        have plain: "length plain = chunk" using len full room(3) by simp
        define r2 where "r2 = r1\<lparr>cb_start := 0, cb_end := chunk - 16,
            cb_held := drop (chunk - 16) plain, cb_have_held := True\<rparr>"
        have whole: "buf = plain" using buf(1,2) plain by simp
        have settle: "cbc_refill lib rd r = Some (Inr True, r2)"
          using buf(3) full plain chunk_facts by (simp add: cbc_settle_more r2_def r1_def whole)
        have parts: "take room (content (cb_src r)) = d" "drop room (content (cb_src r)) = content s'"
          "\<not> length (content (cb_src r)) < room" using s'(3) full by simp_all
        have out: "out = (take (chunk - 16) plain @ fst (cbc_out lib d' (drop (chunk - 16) plain) (content s') (fate s')),
            snd (cbc_out lib d' (drop (chunk - 16) plain) (content s') (fate s')))"
          using room(2) by (simp add: out_simp parts split_beta s'(4) plain_def d'_def)
        have "slice r2 = take (chunk - 16) plain" by (simp add: slice_def r2_def r1_def whole)
        then have r2: "cbc_content r2 = fst out" "cbc_fate r2 = snd out" using r(3)
          by (simp_all add: cbc_content_def cbc_fate_def cbc_rest_def out held_of_def r2_def r1_def)
        have "cbc_good r2" using r(1) s'(2) plain chunk_facts
          by (simp add: cbc_good_def r2_def r1_def whole)
        then show thesis using settle s'(5) chunk_facts
          by (intro data [of r2]) (simp_all add: now r2, simp_all add: cbc_patience_def r2_def r1_def)
      qed
    qed
  qed
qed

lemma cbc_read_buffered:
  assumes "cbc_good r" "cb_start r < cb_end r" "0 < n"
  obtains d r' where "cbc_read lib rd r n = Some (Inr d, r')" "cbc_good r'" "cbc_content r = d @ cbc_content r'"
    "cbc_fate r' = cbc_fate r" "cbc_patience r' = cbc_patience r" "d \<noteq> []" "length d \<le> n"
proof -
  define k where "k = min (cb_end r - cb_start r) n"
  define r' where "r' = r\<lparr>cb_start := cb_start r + k\<rparr>"
  define d where "d = take k (drop (cb_start r) (cb_buf r))"
  have k: "0 < k" "k \<le> n" "cb_start r + k \<le> cb_end r" using assms(2,3) by (auto simp: k_def)
  have len: "cb_end r \<le> length (cb_buf r)" using assms(1) by (simp add: cbc_good_def)
  have "cbc_read lib rd r n = Some (Inr d, r')"
    using assms(2) by (simp add: cbc_read.simps [of lib rd r n] k_def r'_def d_def Let_def)
  moreover have "slice r = d @ slice r'"
  proof -
    have "slice r = take k (slice r) @ drop k (slice r)" by simp
    moreover have "take k (slice r) = d" using k len by (simp add: slice_def d_def take_drop)
    moreover have "drop k (slice r) = slice r'" by (simp add: slice_def r'_def add.commute)
    ultimately show ?thesis by simp
  qed
  moreover have "cbc_rest r' = cbc_rest r" by (simp add: cbc_rest_def r'_def held_of_def)
  moreover have "length d = k" using k len by (simp add: d_def)
  moreover have "cbc_good r'" using assms(1) k by (simp add: cbc_good_def r'_def)
  ultimately show thesis
    using that [of d r'] k by (auto simp: cbc_content_def cbc_fate_def cbc_patience_def r'_def)
qed

lemma cbc_read_finished:
  assumes "cb_start r = cb_end r" "cb_finished r"
  shows "cbc_read lib rd r n = Some (Inr [], r)" "cbc_content r = []" "cbc_fate r = None"
  using assms
  by (simp_all add: cbc_read.simps [of lib rd r n] cbc_refill_def cbc_content_def cbc_fate_def
      cbc_rest_def slice_def)

lemma cbc_read_cases:
  assumes "cbc_good r" "0 < n"
  obtains (data) d r' where "cbc_read lib rd r n = Some (Inr d, r')" "cbc_good r'"
      "cbc_content r = d @ cbc_content r'" "cbc_fate r' = cbc_fate r" "cbc_patience r' \<le> cbc_patience r"
      "length d \<le> n" "d = [] \<Longrightarrow> cbc_content r = [] \<and> cbc_fate r = None"
  | (fails) e r' where "cbc_read lib rd r n = Some (Inl e, r')" "cbc_content r = []" "cbc_fate r = Some e"
proof (cases "cb_start r < cb_end r")
  case True
  show thesis
    by (rule cbc_read_buffered [OF assms(1) True assms(2)], rule data, assumption+) auto
next
  case False
  then have eq: "cb_start r = cb_end r" using assms(1) by (simp add: cbc_good_def)
  show thesis
  proof (cases "cb_finished r")
    case True
    note stop = cbc_read_finished [OF eq True]
    show thesis by (rule data [OF stop(1) assms(1)]) (simp_all add: stop)
  next
    case False
    show thesis
    proof (cases rule: cbc_refill_cases [OF assms(1) eq False, case_names fails data])
      case (fails e r')
      show thesis
        by (rule that(2) [of e r']) (simp_all add: fails cbc_read.simps [of lib rd r n] eq)
    next
      case (data r1)
      have again: "cbc_read lib rd r n = cbc_read lib rd r1 n"
        by (simp add: cbc_read.simps [of lib rd r n] eq data(1))
      from data(6) show thesis
      proof
        assume "cb_start r1 < cb_end r1"
        then obtain d r' where "cbc_read lib rd r1 n = Some (Inr d, r')" "cbc_good r'"
          "cbc_content r1 = d @ cbc_content r'" "cbc_fate r' = cbc_fate r1"
          "cbc_patience r' = cbc_patience r1" "d \<noteq> []" "length d \<le> n"
          by (rule cbc_read_buffered [OF data(2) _ assms(2)])
        with data(3-5) show thesis by (intro that(1) [of d r']) (simp_all add: again)
      next
        assume "cb_start r1 = cb_end r1 \<and> cb_finished r1"
        then have "cb_start r1 = cb_end r1" "cb_finished r1" by simp_all
        note stop = cbc_read_finished [OF this]
        show thesis
          by (rule that(1) [of "[]" r1]) (use data stop in \<open>simp_all add: again\<close>)
      qed
    qed
  qed
qed

lemma cbc_fate_final: "cbc_good r \<Longrightarrow> cbc_fate r \<noteq> Some Interrupted"
  by (simp add: cbc_fate_def cbc_rest_def cbc_good_def cbc_out_final final)

sublocale cbc: source "cbc_read lib rd" cbc_good cbc_content cbc_fate cbc_patience
proof unfold_locales
  fix r :: "('d, 's) cbc_reader" and n :: nat
  assume "cbc_good r" "0 < n"
  then show "\<exists>q r'. cbc_read lib rd r n = Some (q, r')" by (cases rule: cbc_read_cases) blast+
next
  fix r r' :: "('d, 's) cbc_reader" and n :: nat and d
  assume "cbc_good r" "0 < n" "cbc_read lib rd r n = Some (Inr d, r')"
  then show "cbc_good r' \<and> cbc_content r = d @ cbc_content r' \<and> cbc_fate r' = cbc_fate r
      \<and> length d \<le> n \<and> cbc_patience r' \<le> cbc_patience r
      \<and> (d = [] \<longrightarrow> cbc_content r = [] \<and> cbc_fate r = None)"
    by (cases rule: cbc_read_cases) auto
next
  fix r r' :: "('d, 's) cbc_reader" and n :: nat
  assume *: "cbc_good r" "0 < n" "cbc_read lib rd r n = Some (Inl Interrupted, r')"
  have "cbc_fate r \<noteq> Some Interrupted" by (rule cbc_fate_final [OF *(1)])
  with * show "cbc_good r' \<and> cbc_content r' = cbc_content r \<and> cbc_fate r' = cbc_fate r
      \<and> cbc_patience r' < cbc_patience r"
    by (cases rule: cbc_read_cases) auto
next
  fix r r' :: "('d, 's) cbc_reader" and n :: nat and e
  assume "cbc_good r" "0 < n" "cbc_read lib rd r n = Some (Inl e, r')" "e \<noteq> Interrupted"
  then show "cbc_content r = [] \<and> cbc_fate r = Some e" by (cases rule: cbc_read_cases) auto
next
  fix r :: "('d, 's) cbc_reader"
  assume "cbc_good r"
  then show "cbc_fate r \<noteq> Some Interrupted" by (rule cbc_fate_final)
qed

end

interpretation csegs: cbc_over_source read_segments segments_good segments_content segments_fate
    segments_patience lib
  for lib :: "'d cbc_lib"
  by (rule cbc_over_source.intro) (rule segs.source_axioms)

section \<open>Properties\<close>

lemma cbc_start:
  assumes "cbc_reader_new lib h ss key iv = Ok r" "cbc_documented lib" "segments_good ss"
  obtains d where "cbc_new lib key iv = Some d" "csegs.cbc_good lib r"
    "csegs.cbc_content lib r = fst (cbc_out lib d [] (segments_content ss) (segments_fate ss))"
    "csegs.cbc_fate lib r = snd (cbc_out lib d [] (segments_content ss) (segments_fate ss))"
proof -
  from assms(1) obtain d where d: "cbc_new lib key iv = Some d"
    "r = \<lparr>cb_src = ss, cb_dec = d, cb_buf = replicate chunk 0, cb_start = 0, cb_end = 0,
          cb_held = replicate 16 0, cb_have_held = False, cb_finished = False\<rparr>"
    by (auto simp: cbc_reader_new_def chunk_buffer_def aes_block_len_def
        split: if_splits option.splits)
  show thesis
    by (rule that [OF d(1)])
       (use assms(2,3) in \<open>simp_all add: d(2) csegs.cbc_good_def csegs.cbc_content_def csegs.cbc_fate_def
          csegs.cbc_rest_def csegs.held_of_def csegs.slice_def\<close>)
qed

text \<open>
  Reading an AES-CBC member to its end, however its ciphertext arrives: on a whole number of blocks
  the chunked reader returns exactly the whole-buffer decryption with its padding removed, and
  refuses the key when the padding is malformed.
\<close>

theorem cbc_reader_decrypts:
  assumes "cbc_reader_new lib h ss key iv = Ok r" "cbc_documented lib" "cbc_new lib key iv = Some d"
    and "segments_good ss" "segments_fate ss = None" "16 dvd length (segments_content ss)"
    and "segments_content ss \<noteq> []" "length (segments_content ss) < n"
  shows "\<exists>r'. read_full (cbc_read lib read_segments) r n = Some
    (if padded (fst (cbc_blocks lib d (segments_content ss)))
     then Inr (unpad (fst (cbc_blocks lib d (segments_content ss))))
     else Inl (into_io FaultWrongPassword), r')"
proof -
  define c plain where "c = segments_content ss" and "plain = fst (cbc_blocks lib d c)"
  have len: "length plain = length c" using assms(2,6) by (simp add: plain_def c_def cbc_documented_def)
  obtain d' where "cbc_new lib key iv = Some d'" and good: "csegs.cbc_good lib r"
    and content: "csegs.cbc_content lib r = fst (cbc_out lib d' [] c (segments_fate ss))"
    and fate: "csegs.cbc_fate lib r = snd (cbc_out lib d' [] c (segments_fate ss))"
    unfolding c_def by (rule cbc_start [OF assms(1,2,4)])
  then have d': "d' = d" using assms(3) by simp
  have out: "if padded plain then cbc_out lib d [] c None = (unpad plain, None)
    else snd (cbc_out lib d [] c None) = Some (into_io FaultWrongPassword)
      \<and> (\<exists>rest. plain = fst (cbc_out lib d [] c None) @ rest)"
    using cbc_out_whole [OF assms(2) assms(6) [folded c_def], of "[]" d] assms(7)
    by (auto simp flip: c_def plain_def)
  have "csegs.cbc.delivered lib r n =
      (if padded plain then Inr (unpad plain) else Inl (into_io FaultWrongPassword))"
  proof (cases "padded plain")
    case True
    then have "length (unpad plain) < n" using len assms(8) by (simp add: unpad_def c_def)
    then show ?thesis using out True
      by (simp add: csegs.cbc.delivered_def content fate d' assms(5))
  next
    case False
    with out obtain rest where rest: "plain = fst (cbc_out lib d [] c None) @ rest"
      "snd (cbc_out lib d [] c None) = Some (into_io FaultWrongPassword)" by auto
    have "length (fst (cbc_out lib d [] c None)) \<le> length plain" by (simp add: arg_cong [OF rest(1), of length])
    then show ?thesis using rest(2) False len assms(8)
      by (simp add: csegs.cbc.delivered_def content fate d' assms(5) c_def)
  qed
  then show ?thesis
    unfolding c_def [symmetric] plain_def [symmetric]
    by (cases "padded plain") (auto elim: csegs.cbc.read_full_delivers [OF good] csegs.cbc.read_full_fails [OF good])
qed

text \<open>A block mode that chains: each block is the ciphertext combined with the block before it.\<close>

fun chain_blocks :: "byte \<Rightarrow> bytes \<Rightarrow> bytes \<times> byte" where
  "chain_blocks d [] = ([], d)"
| "chain_blocks d (b # bs) = (let (out, d') = chain_blocks b bs in ((b XOR d) # out, d'))"

definition chain_cbc :: "byte cbc_lib" where
  "chain_cbc = \<lparr>cbc_new = (\<lambda>key iv. Some (hd iv)), cbc_blocks = chain_blocks\<rparr>"

lemma chain_blocks_append:
  "chain_blocks d (xs @ ys) =
    (fst (chain_blocks d xs) @ fst (chain_blocks (snd (chain_blocks d xs)) ys),
     snd (chain_blocks (snd (chain_blocks d xs)) ys))"
  by (induction d xs rule: chain_blocks.induct) (simp_all add: split_beta Let_def)

lemma length_chain_blocks: "length (fst (chain_blocks d bs)) = length bs"
  by (induction d bs rule: chain_blocks.induct) (simp_all add: split_beta Let_def)

lemma chain_cbc_documented: "cbc_documented chain_cbc"
  by (simp add: cbc_documented_def chain_cbc_def chain_blocks_append length_chain_blocks)

theorem cbc_reader_witness:
  "\<exists>r r'. cbc_reader_new chain_cbc rich_host [Data [1, 2, 3], Interrupt, Data (replicate 11 3 @ [5, 7])]
      (replicate 16 0) [9] = Ok r
    \<and> read_full (cbc_read chain_cbc read_segments) r 20
      = Some (Inr [8, 3, 1, 0, 0, 0, 0, 0, 0, 0, 0, 0, 0, 0], r')"
proof -
  define ss where "ss = [Data [1, 2, 3 :: byte], Interrupt, Data (replicate 11 3 @ [5, 7])]"
  define r :: "(byte, segment list) cbc_reader" where "r = \<lparr>cb_src = ss, cb_dec = 9, cb_buf = replicate chunk 0, cb_start = 0, cb_end = 0,
          cb_held = replicate 16 0, cb_have_held = False, cb_finished = False\<rparr>"
  have r: "cbc_reader_new chain_cbc rich_host ss (replicate 16 0) [9] = Ok r"
    by (simp add: cbc_reader_new_def chain_cbc_def chunk_buffer_def rich_host_def r_def
        aes_block_len_def)
  have new: "cbc_new chain_cbc (replicate 16 0) [9] = Some 9" by (simp add: chain_cbc_def)
  have ss: "segments_good ss" "segments_fate ss = None" "16 dvd length (segments_content ss)"
    "segments_content ss \<noteq> []" "length (segments_content ss) < 20" by (simp_all add: ss_def)
  have plain: "fst (cbc_blocks chain_cbc 9 (segments_content ss))
      = [8, 3, 1, 0, 0, 0, 0, 0, 0, 0, 0, 0, 0, 0, 6, 2]"
    by (simp add: ss_def chain_cbc_def numeral_eq_Suc)
  have verdict: "padded [8, 3, 1, 0, 0, 0, 0, 0, 0, 0, 0, 0, 0, 0, 6, 2]"
    "unpad [8, 3, 1, 0, 0, 0, 0, 0, 0, 0, 0, 0, 0, 0, 6, 2]
      = [8, 3, 1, 0, 0, 0, 0, 0, 0, 0, 0, 0, 0, 0]"
    by (simp_all add: padded_def pad_of_def unpad_def)
  from cbc_reader_decrypts [OF r chain_cbc_documented new ss, unfolded plain if_P [OF verdict(1)] verdict(2)]
  show ?thesis using r unfolding ss_def by blast
qed

end
