(* ===== verification/Checked_Readers.thy ===== *)
theory Checked_Readers
  imports Cbc_Reader
begin

text \<open>
  \<^verbatim>\<open>BlowfishDecryptReader\<close> and \<^verbatim>\<open>ChecksumGate\<close> of \<^verbatim>\<open>src/stream.rs\<close>: the Blowfish stream cipher applied in
  place, and the gate that holds the first 1024 bytes of a member back until they match the digest
  the manifest promises.  Both are readers over a source and are sources again; the gate hands out
  nothing of a member whose digest does not match.
\<close>

section \<open>Blowfish\<close>

record 'd blowfish_lib =
  bf_new :: "bytes \<Rightarrow> bytes \<Rightarrow> 'd option"
  bf_decrypt :: "'d \<Rightarrow> bytes \<Rightarrow> bytes \<times> 'd"

type_synonym ('d, 's) blowfish_reader = "'s \<times> 'd"

definition blowfish_reader_new ::
    "'d blowfish_lib \<Rightarrow> 's \<Rightarrow> bytes \<Rightarrow> bytes \<Rightarrow> fault + ('d, 's) blowfish_reader" where
  "blowfish_reader_new lib src key iv =
    (case bf_new lib key iv of
       None \<Rightarrow> Err (FaultInternal ''a Blowfish key or IV length the screen passed'')
     | Some d \<Rightarrow> Ok (src, d))"

definition blowfish_read ::
    "'d blowfish_lib \<Rightarrow> 's reader \<Rightarrow> ('d, 's) blowfish_reader \<Rightarrow> nat
      \<Rightarrow> ((io_error + bytes) \<times> ('d, 's) blowfish_reader) option" where
  "blowfish_read lib rd r n =
    (case r of (s, d) \<Rightarrow>
       (case rd s n of
          None \<Rightarrow> None
        | Some (q, s') \<Rightarrow> (case q of
            Inl e \<Rightarrow> Some (Inl e, (s', d))
          | Inr ct \<Rightarrow> (let (plain, d') = bf_decrypt lib d ct in Some (Inr plain, (s', d'))))))"

text \<open>The documented behaviour of a buffered CFB decryptor: a stream cipher, taken in any pieces.\<close>

definition blowfish_documented :: "'d blowfish_lib \<Rightarrow> bool" where
  "blowfish_documented lib \<longleftrightarrow>
     (\<forall>d bs. length (fst (bf_decrypt lib d bs)) = length bs)
   \<and> (\<forall>d xs ys. fst (bf_decrypt lib d (xs @ ys)) =
          fst (bf_decrypt lib d xs) @ fst (bf_decrypt lib (snd (bf_decrypt lib d xs)) ys))"

locale blowfish_over_source = source rd good content fate patience
  for rd :: "'s reader" and good content fate patience +
  fixes lib :: "'d blowfish_lib"
begin

definition bf_good :: "('d, 's) blowfish_reader \<Rightarrow> bool" where
  "bf_good r \<longleftrightarrow> blowfish_documented lib \<and> good (fst r)"

definition bf_content :: "('d, 's) blowfish_reader \<Rightarrow> bytes" where
  "bf_content r = fst (bf_decrypt lib (snd r) (content (fst r)))"

sublocale bf: source "blowfish_read lib rd" bf_good bf_content "\<lambda>r. fate (fst r)" "\<lambda>r. patience (fst r)"
proof unfold_locales
  fix r :: "('d, 's) blowfish_reader" and n :: nat
  assume "bf_good r" "0 < n"
  then obtain q s' where "rd (fst r) n = Some (q, s')" using returns unfolding bf_good_def by blast
  then show "\<exists>q r'. blowfish_read lib rd r n = Some (q, r')"
    by (cases q) (auto simp: blowfish_read_def split: prod.splits)
next
  fix r r' :: "('d, 's) blowfish_reader" and n :: nat and plain
  assume *: "bf_good r" "0 < n" "blowfish_read lib rd r n = Some (Inr plain, r')"
  obtain s d where r: "r = (s, d)" by (cases r)
  obtain ct s' where step: "rd s n = Some (Inr ct, s')" "plain = fst (bf_decrypt lib d ct)"
    "r' = (s', snd (bf_decrypt lib d ct))"
    using *(3) by (auto simp: r blowfish_read_def split: option.splits sum.splits prod.splits)
  have good: "good s" and doc: "blowfish_documented lib" using *(1) by (simp_all add: bf_good_def r)
  note law = data [OF good *(2) step(1)]
  have len: "length plain = length ct" using doc by (simp add: step blowfish_documented_def)
  have "bf_content r = plain @ bf_content r'"
    using law doc by (simp add: bf_content_def r step blowfish_documented_def)
  moreover have "plain = [] \<Longrightarrow> bf_content r = []"
    using len law doc unfolding bf_content_def r blowfish_documented_def by (metis fst_conv length_0_conv)
  ultimately show "bf_good r' \<and> bf_content r = plain @ bf_content r' \<and> fate (fst r') = fate (fst r)
      \<and> length plain \<le> n \<and> patience (fst r') \<le> patience (fst r)
      \<and> (plain = [] \<longrightarrow> bf_content r = [] \<and> fate (fst r) = None)"
    using law doc len by (auto simp: bf_good_def r step(3))
next
  fix r r' :: "('d, 's) blowfish_reader" and n :: nat
  assume *: "bf_good r" "0 < n" "blowfish_read lib rd r n = Some (Inl Interrupted, r')"
  then obtain s' where "rd (fst r) n = Some (Inl Interrupted, s')" "r' = (s', snd r)"
    by (cases r) (auto simp: blowfish_read_def split: option.splits sum.splits prod.splits)
  then show "bf_good r' \<and> bf_content r' = bf_content r \<and> fate (fst r') = fate (fst r)
      \<and> patience (fst r') < patience (fst r)"
    using *(1,2) interrupted by (auto simp: bf_good_def bf_content_def)
next
  fix r r' :: "('d, 's) blowfish_reader" and n :: nat and e
  assume *: "bf_good r" "0 < n" "blowfish_read lib rd r n = Some (Inl e, r')" "e \<noteq> Interrupted"
  then obtain s' where "rd (fst r) n = Some (Inl e, s')"
    by (cases r) (auto simp: blowfish_read_def split: option.splits sum.splits prod.splits)
  then have "content (fst r) = []" "fate (fst r) = Some e"
    using *(1,2,4) fails by (auto simp: bf_good_def)
  moreover have "fst (bf_decrypt lib (snd r) []) = []"
    using *(1) by (simp add: bf_good_def blowfish_documented_def flip: length_0_conv)
  ultimately show "bf_content r = [] \<and> fate (fst r) = Some e" by (simp add: bf_content_def)
next
  fix r :: "('d, 's) blowfish_reader"
  assume "bf_good r"
  then show "fate (fst r) \<noteq> Some Interrupted" using final by (simp add: bf_good_def)
qed

end

interpretation bsegs: blowfish_over_source read_segments segments_good segments_content segments_fate
    segments_patience lib
  for lib :: "'d blowfish_lib"
  by (rule blowfish_over_source.intro) (rule segs.source_axioms)

section \<open>The checksum gate\<close>

record 's gate =
  gt_src :: 's
  gt_checksum :: checksum
  gt_window :: bytes
  gt_pos :: nat
  gt_len :: nat
  gt_verified :: bool

definition gate_new :: "host \<Rightarrow> 's \<Rightarrow> checksum \<Rightarrow> fault + 's gate" where
  "gate_new h src chk =
    and_then (chunk_buffer h checksum_window) (\<lambda>window.
      Ok \<lparr>gt_src = src, gt_checksum = chk, gt_window = window, gt_pos = 0, gt_len = 0,
          gt_verified = False\<rparr>)"

definition window_ok :: "crypto \<Rightarrow> checksum \<Rightarrow> bytes \<Rightarrow> bool" where
  "window_ok lib chk window =
    (case chk of
       Sha1_1K want \<Rightarrow> ct_eq (lib_sha1 lib window) want
     | Sha256_1K want \<Rightarrow> ct_eq (lib_sha256 lib window) want
     | NoChecksum \<Rightarrow> True)"

definition gate_verify ::
    "crypto \<Rightarrow> 's reader \<Rightarrow> 's gate \<Rightarrow> ((io_error + unit) \<times> 's gate) option" where
  "gate_verify lib rd g =
    (if gt_verified g then Some (Inr (), g)
     else (case read_full rd (gt_src g) (length (gt_window g)) of
         None \<Rightarrow> None
       | Some (q, s') \<Rightarrow> (case q of
           Inl e \<Rightarrow> Some (Inl e, g\<lparr>gt_src := s'\<rparr>)
         | Inr d \<Rightarrow>
             (let g = g\<lparr>gt_src := s', gt_window := d @ drop (length d) (gt_window g), gt_len := length d\<rparr> in
              if \<not> window_ok lib (gt_checksum g) (take (gt_len g) (gt_window g))
              then Some (Inl (into_io FaultWrongPassword), g)
              else Some (Inr (), g\<lparr>gt_verified := True\<rparr>)))))"

definition gate_release :: "'s reader \<Rightarrow> 's gate \<Rightarrow> nat \<Rightarrow> ((io_error + bytes) \<times> 's gate) option" where
  "gate_release rd g n =
    (if gt_pos g < gt_len g then
       (let k = min (gt_len g - gt_pos g) n
        in Some (Inr (take k (drop (gt_pos g) (gt_window g))), g\<lparr>gt_pos := gt_pos g + k\<rparr>))
     else (case rd (gt_src g) n of
         None \<Rightarrow> None
       | Some (q, s') \<Rightarrow> Some (q, g\<lparr>gt_src := s'\<rparr>)))"

definition gate_read ::
    "crypto \<Rightarrow> 's reader \<Rightarrow> 's gate \<Rightarrow> nat \<Rightarrow> ((io_error + bytes) \<times> 's gate) option" where
  "gate_read lib rd g n =
    (if \<not> gt_verified g then
       (case gate_verify lib rd g of
          None \<Rightarrow> None
        | Some (Inl e, g') \<Rightarrow> Some (Inl e, g')
        | Some (Inr _, g') \<Rightarrow> gate_release rd g' n)
     else gate_release rd g n)"

locale gate_over_source = source rd good content fate patience
  for rd :: "'s reader" and good content fate patience +
  fixes lib :: crypto
begin

text \<open>What is behind an unopened gate: all of the member, or nothing and the reason.\<close>

definition behind :: "checksum \<Rightarrow> 's \<Rightarrow> bytes \<times> io_error option" where
  "behind chk s =
    (case delivered s checksum_window of
       Inl e \<Rightarrow> ([], Some e)
     | Inr w \<Rightarrow> if window_ok lib chk w then (content s, fate s)
               else ([], Some (into_io FaultWrongPassword)))"

definition gate_good :: "'s gate \<Rightarrow> bool" where
  "gate_good g \<longleftrightarrow> good (gt_src g) \<and> length (gt_window g) = checksum_window
     \<and> gt_pos g \<le> gt_len g \<and> gt_len g \<le> checksum_window \<and> (\<not> gt_verified g \<longrightarrow> gt_pos g = 0)"

definition gate_rest :: "'s gate \<Rightarrow> bytes \<times> io_error option" where
  "gate_rest g =
    (if gt_verified g then
       (drop (gt_pos g) (take (gt_len g) (gt_window g)) @ content (gt_src g), fate (gt_src g))
     else behind (gt_checksum g) (gt_src g))"

definition gate_content :: "'s gate \<Rightarrow> bytes" where
  "gate_content g = fst (gate_rest g)"

definition gate_fate :: "'s gate \<Rightarrow> io_error option" where
  "gate_fate g = snd (gate_rest g)"

definition gate_patience :: "'s gate \<Rightarrow> nat" where
  "gate_patience g = patience (gt_src g)"

text \<open>Opening the gate: the digest of the first 1024 bytes decides.\<close>

lemma gate_verify_cases:
  assumes "gate_good g" "\<not> gt_verified g"
  obtains (refused) e g' where "gate_verify lib rd g = Some (Inl e, g')" "behind (gt_checksum g) (gt_src g) = ([], Some e)"
  | (opened) g' where "gate_verify lib rd g = Some (Inr (), g')" "gate_good g'" "gt_verified g'"
      "gate_rest g' = behind (gt_checksum g) (gt_src g)" "gate_patience g' \<le> gate_patience g"
      "behind (gt_checksum g) (gt_src g) = (content (gt_src g), fate (gt_src g))"
proof -
  have good: "good (gt_src g)" and len: "length (gt_window g) = checksum_window"
    using assms(1) by (simp_all add: gate_good_def)
  show thesis
  proof (cases "delivered (gt_src g) checksum_window")
    case (Inl e)
    obtain s' where "read_full rd (gt_src g) checksum_window = Some (Inl e, s')"
      by (rule read_full_fails [OF good Inl])
    then show thesis
      using assms(2) len Inl by (intro refused) (simp_all add: gate_verify_def behind_def)
  next
    case (Inr w)
    obtain s' where s': "read_full rd (gt_src g) checksum_window = Some (Inr w, s')" "good s'"
      "content (gt_src g) = w @ content s'" "fate s' = fate (gt_src g)" "patience s' \<le> patience (gt_src g)"
      by (rule read_full_delivers [OF good Inr])
    have w: "length w \<le> checksum_window"
      using Inr by (auto simp: delivered_def split: if_splits option.splits)
    define g1 where "g1 = g\<lparr>gt_src := s', gt_window := w @ drop (length w) (gt_window g), gt_len := length w\<rparr>"
    show thesis
    proof (cases "window_ok lib (gt_checksum g) w")
      case True
      define g2 where "g2 = g1\<lparr>gt_verified := True\<rparr>"
      have "gate_verify lib rd g = Some (Inr (), g2)"
        using assms(2) len s'(1) True by (simp add: gate_verify_def g1_def g2_def)
      moreover have "gate_good g2"
        using assms len w s'(2) by (simp add: gate_good_def g1_def g2_def)
      moreover have "gate_rest g2 = (content (gt_src g), fate (gt_src g))"
        using assms s'(3,4) by (simp add: gate_rest_def g1_def g2_def gate_good_def)
      ultimately show thesis
        using s'(5) Inr True by (intro opened [of g2]) (simp_all add: behind_def gate_patience_def g1_def g2_def)
    next
      case False
      have "gate_verify lib rd g = Some (Inl (into_io FaultWrongPassword), g1)"
        using assms(2) len s'(1) False by (simp add: gate_verify_def g1_def)
      then show thesis using Inr False by (intro refused) (simp_all add: behind_def)
    qed
  qed
qed

lemma gate_release_data:
  assumes "gate_good g" "gt_verified g" "0 < n" "gate_release rd g n = Some (Inr d, g')"
  shows "gate_good g' \<and> gate_content g = d @ gate_content g' \<and> gate_fate g' = gate_fate g
    \<and> length d \<le> n \<and> gate_patience g' \<le> gate_patience g
    \<and> (d = [] \<longrightarrow> gate_content g = [] \<and> gate_fate g = None)"
proof (cases "gt_pos g < gt_len g")
  case True
  define k where "k = min (gt_len g - gt_pos g) n"
  define p where "p = drop (gt_pos g) (take (gt_len g) (gt_window g))"
  have step: "d = take k (drop (gt_pos g) (gt_window g))" "g' = g\<lparr>gt_pos := gt_pos g + k\<rparr>"
    using True assms(4) by (simp_all add: gate_release_def Let_def k_def)
  have k: "0 < k" "k \<le> n" "gt_pos g + k \<le> gt_len g" using True assms(3) by (auto simp: k_def)
  have len: "gt_len g \<le> length (gt_window g)" using assms(1) by (simp add: gate_good_def)
  have d: "d = take k p" "length d = k" using k len by (simp_all add: step(1) p_def take_drop)
  have rest: "drop k p = drop (gt_pos g + k) (take (gt_len g) (gt_window g))"
    by (simp add: p_def add.commute)
  have p: "p = d @ drop k p" by (simp add: d(1))
  have "gate_content g = p @ content (gt_src g)"
    using assms(2) by (simp add: gate_content_def gate_rest_def p_def)
  moreover have "gate_content g' = drop k p @ content (gt_src g)"
    using assms(2) by (simp add: gate_content_def gate_rest_def step(2) rest)
  ultimately have "gate_content g = d @ gate_content g'" using p by simp
  then show ?thesis
    using assms(1,2) k d by (auto simp: gate_good_def gate_fate_def gate_rest_def gate_patience_def step(2))
next
  case False
  then obtain s' where step: "rd (gt_src g) n = Some (Inr d, s')" "g' = g\<lparr>gt_src := s'\<rparr>"
    using assms(4) by (auto simp: gate_release_def split: option.splits)
  have good: "good (gt_src g)" using assms(1) by (simp add: gate_good_def)
  note law = data [OF good assms(3) step(1)]
  show ?thesis using law False assms(1,2)
    by (auto simp: gate_good_def gate_fate_def gate_content_def gate_rest_def gate_patience_def step(2))
qed

lemma gate_release_stops:
  assumes "gate_good g" "gt_verified g" "0 < n" "gate_release rd g n = Some (Inl e, g')"
  shows "if e = Interrupted
    then gate_good g' \<and> gate_content g' = gate_content g \<and> gate_fate g' = gate_fate g
         \<and> gate_patience g' < gate_patience g
    else gate_content g = [] \<and> gate_fate g = Some e"
proof -
  have idle: "\<not> gt_pos g < gt_len g" using assms(4) by (auto simp: gate_release_def Let_def)
  then obtain s' where step: "rd (gt_src g) n = Some (Inl e, s')" "g' = g\<lparr>gt_src := s'\<rparr>"
    using assms(4) by (auto simp: gate_release_def split: option.splits)
  have good: "good (gt_src g)" using assms(1) by (simp add: gate_good_def)
  show ?thesis
    using interrupted [OF good assms(3)] fails [OF good assms(3)] step idle assms(1,2)
    by (auto simp: gate_good_def gate_fate_def gate_content_def gate_rest_def gate_patience_def)
qed

lemma gate_release_returns:
  assumes "gate_good g" "0 < n"
  shows "\<exists>q g'. gate_release rd g n = Some (q, g')"
proof -
  have "good (gt_src g)" using assms(1) by (simp add: gate_good_def)
  then obtain q s' where "rd (gt_src g) n = Some (q, s')" using returns [OF _ assms(2)] by blast
  then show ?thesis by (simp add: gate_release_def Let_def)
qed

text \<open>A read either fails at the gate or releases, from the same content, once it is open.\<close>

lemma gate_read_cases:
  assumes "gate_good g"
  obtains (refused) e g' where "gate_read lib rd g n = Some (Inl e, g')" "gate_content g = []"
      "gate_fate g = Some e" "e \<noteq> Interrupted"
  | (opened) g1 where "gate_read lib rd g n = gate_release rd g1 n" "gate_good g1" "gt_verified g1"
      "gate_content g1 = gate_content g" "gate_fate g1 = gate_fate g" "gate_patience g1 \<le> gate_patience g"
proof (cases "gt_verified g")
  case True
  then show thesis using assms by (intro opened [of g]) (simp_all add: gate_read_def)
next
  case False
  have good: "good (gt_src g)" using assms by (simp add: gate_good_def)
  show thesis
  proof (cases rule: gate_verify_cases [OF assms False, case_names refused opened])
    case (refused e g')
    have "e \<noteq> Interrupted"
      using refused(2) final [OF good]
      by (auto simp: behind_def delivered_def split: sum.splits option.splits if_splits)
    then show thesis using refused False
      by (intro that(1) [of e g']) (simp_all add: gate_read_def gate_content_def gate_fate_def gate_rest_def)
  next
    case (opened g')
    then show thesis using False
      by (intro that(2) [of g'])
         (simp_all add: gate_read_def gate_content_def gate_fate_def, simp_all add: gate_rest_def)
  qed
qed

sublocale gated: source "gate_read lib rd" gate_good gate_content gate_fate gate_patience
proof unfold_locales
  fix g :: "'s gate" and n :: nat
  assume *: "gate_good g" "0 < n"
  then show "\<exists>q g'. gate_read lib rd g n = Some (q, g')"
    by (cases rule: gate_read_cases [of g n]) (auto simp: gate_release_returns)
next
  fix g g' :: "'s gate" and n :: nat and d
  assume *: "gate_good g" "0 < n" "gate_read lib rd g n = Some (Inr d, g')"
  from *(1) show "gate_good g' \<and> gate_content g = d @ gate_content g' \<and> gate_fate g' = gate_fate g
      \<and> length d \<le> n \<and> gate_patience g' \<le> gate_patience g
      \<and> (d = [] \<longrightarrow> gate_content g = [] \<and> gate_fate g = None)"
  proof (cases rule: gate_read_cases [of g n])
    case (opened g1)
    have "gate_release rd g1 n = Some (Inr d, g')" using opened(1) *(3) by simp
    from gate_release_data [OF opened(2,3) *(2) this] opened show ?thesis by auto
  qed (use * in simp)
next
  fix g g' :: "'s gate" and n :: nat
  assume *: "gate_good g" "0 < n" "gate_read lib rd g n = Some (Inl Interrupted, g')"
  from *(1) show "gate_good g' \<and> gate_content g' = gate_content g \<and> gate_fate g' = gate_fate g
      \<and> gate_patience g' < gate_patience g"
  proof (cases rule: gate_read_cases [of g n])
    case (opened g1)
    have "gate_release rd g1 n = Some (Inl Interrupted, g')" using opened(1) *(3) by simp
    from gate_release_stops [OF opened(2,3) *(2) this] opened show ?thesis by auto
  qed (use * in simp)
next
  fix g g' :: "'s gate" and n :: nat and e
  assume *: "gate_good g" "0 < n" "gate_read lib rd g n = Some (Inl e, g')" "e \<noteq> Interrupted"
  from *(1) show "gate_content g = [] \<and> gate_fate g = Some e"
  proof (cases rule: gate_read_cases [of g n])
    case (opened g1)
    have "gate_release rd g1 n = Some (Inl e, g')" using opened(1) *(3) by simp
    from gate_release_stops [OF opened(2,3) *(2) this] opened *(4) show ?thesis by auto
  qed (use * in simp)
next
  fix g :: "'s gate"
  assume "gate_good g"
  then show "gate_fate g \<noteq> Some Interrupted"
    using final [of "gt_src g"]
    by (auto simp: gate_good_def gate_fate_def gate_rest_def behind_def delivered_def
        split: sum.splits option.splits if_splits)
qed

end

text \<open>The gate where the code puts it: over the decrypting readers of a member.\<close>

interpretation gcbc: gate_over_source "cbc_read cbc read_segments" "csegs.cbc_good cbc"
    "csegs.cbc_content cbc" "csegs.cbc_fate cbc" csegs.cbc_patience lib
  for cbc :: "'d cbc_lib" and lib
  by (rule gate_over_source.intro) (rule csegs.cbc.source_axioms)

interpretation gblow: gate_over_source "blowfish_read bf read_segments" "bsegs.bf_good bf"
    "bsegs.bf_content bf" "\<lambda>r. segments_fate (fst r)" "\<lambda>r. segments_patience (fst r)" lib
  for bf :: "'d blowfish_lib" and lib
  by (rule gate_over_source.intro) (rule bsegs.bf.source_axioms)

section \<open>Properties\<close>

lemma gate_new_Ok:
  "gate_new h src chk = Ok g \<longleftrightarrow> host_reserves h checksum_window \<and>
    g = \<lparr>gt_src = src, gt_checksum = chk, gt_window = replicate checksum_window 0, gt_pos = 0,
         gt_len = 0, gt_verified = False\<rparr>"
  by (auto simp: gate_new_def chunk_buffer_def)

text \<open>
  A Blowfish member behind its gate: a read of any size gets the decrypted bytes if the digest of
  the first 1024 of them is the promised one, and otherwise nothing but the refusal of the password.
\<close>

theorem gate_releases_only_checked:
  assumes "gate_new h (ss, d) chk = Ok g" "blowfish_documented bf"
    and "segments_good ss" "segments_fate ss = None" "0 < n"
  shows "\<exists>g'. read_full (gate_read lib (blowfish_read bf read_segments)) g n = Some
    (if window_ok lib chk (take 1024 (fst (bf_decrypt bf d (segments_content ss))))
     then Inr (take n (fst (bf_decrypt bf d (segments_content ss))))
     else Inl (into_io FaultWrongPassword), g')"
proof -
  define plain where "plain = fst (bf_decrypt bf d (segments_content ss))"
  note g = assms(1) [unfolded gate_new_Ok, THEN conjunct2]
  have bf: "bsegs.bf_good bf (ss, d)" "bsegs.bf_content bf (ss, d) = plain"
    using assms(2,3) by (simp_all add: bsegs.bf_good_def bsegs.bf_content_def plain_def)
  have good: "gblow.gate_good bf g" using bf by (simp add: g gblow.gate_good_def)
  have "bsegs.bf.delivered bf (ss, d) checksum_window = Inr (take 1024 plain)"
    by (simp add: bsegs.bf.delivered_def bf assms(4) checksum_window_def)
  then have rest: "gblow.gate_rest bf lib g = (if window_ok lib chk (take 1024 plain) then (plain, None)
      else ([], Some (into_io FaultWrongPassword)))"
    by (simp add: g gblow.gate_rest_def gblow.behind_def bf assms(4))
  have "gblow.gated.delivered bf lib g n = (if window_ok lib chk (take 1024 plain) then Inr (take n plain)
      else Inl (into_io FaultWrongPassword))"
    using assms(5) by (simp add: gblow.gated.delivered_def gblow.gate_content_def gblow.gate_fate_def rest)
  then show ?thesis
    unfolding plain_def [symmetric]
    by (cases "window_ok lib chk (take 1024 plain)")
       (auto elim: gblow.gated.read_full_delivers [OF good] gblow.gated.read_full_fails [OF good])
qed

definition shift_blowfish :: "byte blowfish_lib" where
  "shift_blowfish = \<lparr>bf_new = (\<lambda>key iv. Some (hd iv)), bf_decrypt = chain_blocks\<rparr>"

lemma shift_blowfish_documented: "blowfish_documented shift_blowfish"
  by (simp add: blowfish_documented_def shift_blowfish_def chain_blocks_append length_chain_blocks)

theorem gate_releases_witness:
  "\<exists>g g' g''. gate_new rich_host ([Data [1, 3], Interrupt, Data [5]], 0) (Sha1_1K ([1, 2, 6] @ replicate 17 1)) = Ok g
    \<and> read_full (gate_read sample_crypto (blowfish_read shift_blowfish read_segments)) g 2 = Some (Inr [1, 2], g')
    \<and> read_full (gate_read sample_crypto (blowfish_read shift_blowfish read_segments))
        (g\<lparr>gt_checksum := Sha1_1K []\<rparr>) 2 = Some (Inl (into_io FaultWrongPassword), g'')"
proof -
  define ss where "ss = [Data [1, 3 :: byte], Interrupt, Data [5]]"
  define chk where "chk = Sha1_1K ([1, 2, 6] @ replicate 17 1)"
  define g :: "(segment list \<times> byte) gate" where
    "g = \<lparr>gt_src = (ss, 0), gt_checksum = chk, gt_window = replicate checksum_window 0, gt_pos = 0,
         gt_len = 0, gt_verified = False\<rparr>"
  have new: "gate_new rich_host (ss, 0) chk = Ok g"
    "gate_new rich_host (ss, 0) (Sha1_1K []) = Ok (g\<lparr>gt_checksum := Sha1_1K []\<rparr>)"
    by (simp_all add: gate_new_Ok g_def rich_host_def)
  have ss: "segments_good ss" "segments_fate ss = None" "(0::nat) < 2" by (simp_all add: ss_def)
  have plain: "fst (bf_decrypt shift_blowfish 0 (segments_content ss)) = [1, 2, 6]"
    by (simp add: ss_def shift_blowfish_def)
  have ok: "window_ok sample_crypto chk (take 1024 [1, 2, 6])"
    "\<not> window_ok sample_crypto (Sha1_1K []) (take 1024 [1, 2, 6])"
    by (simp_all add: window_ok_def chk_def sample_crypto_def ct_eq_iff)
  note run = gate_releases_only_checked [OF _ shift_blowfish_documented ss, of rich_host 0 _ _ sample_crypto,
      unfolded plain]
  show ?thesis
    using new(1) run [OF new(1), unfolded if_P [OF ok(1)]] run [OF new(2), unfolded if_not_P [OF ok(2)]]
    unfolding ss_def chk_def by simp
qed

text \<open>
  C26. An AES-CBC member behind its gate, read to its end: the member's bytes come out exactly if its
  padding is well formed and its digest matches; in every other case the password is refused.
\<close>

theorem cbc_member_behind_gate:
  assumes "cbc_reader_new cbc h ss key iv = Ok r" "gate_new h r chk = Ok g" "cbc_documented cbc"
    and "cbc_new cbc key iv = Some d" "segments_good ss" "segments_fate ss = None"
    and "16 dvd length (segments_content ss)" "segments_content ss \<noteq> []" "length (segments_content ss) < n"
  shows "\<exists>g'. read_full (gate_read lib (cbc_read cbc read_segments)) g n = Some
    (if padded (fst (cbc_blocks cbc d (segments_content ss)))
        \<and> window_ok lib chk (take 1024 (unpad (fst (cbc_blocks cbc d (segments_content ss)))))
     then Inr (unpad (fst (cbc_blocks cbc d (segments_content ss))))
     else Inl (into_io FaultWrongPassword), g')"
proof -
  define plain where "plain = fst (cbc_blocks cbc d (segments_content ss))"
  have len: "length plain = length (segments_content ss)"
    using assms(3,7) by (simp add: plain_def cbc_documented_def)
  note g = assms(2) [unfolded gate_new_Ok, THEN conjunct2]
  obtain d' where "cbc_new cbc key iv = Some d'" and r: "csegs.cbc_good cbc r"
    and content: "csegs.cbc_content cbc r = fst (cbc_out cbc d' [] (segments_content ss) (segments_fate ss))"
    and fate: "csegs.cbc_fate cbc r = snd (cbc_out cbc d' [] (segments_content ss) (segments_fate ss))"
    by (rule cbc_start [OF assms(1,3,5)])
  then have d': "d' = d" using assms(4) by simp
  have good: "gcbc.gate_good cbc g" using r by (simp add: g gcbc.gate_good_def)
  have out: "if padded plain then cbc_out cbc d [] (segments_content ss) None = (unpad plain, None)
    else snd (cbc_out cbc d [] (segments_content ss) None) = Some (into_io FaultWrongPassword)
      \<and> (\<exists>rest. plain = fst (cbc_out cbc d [] (segments_content ss) None) @ rest)"
    using cbc_out_whole [OF assms(3) assms(7), of "[]" d] assms(8) by (auto simp flip: plain_def)
  have "gcbc.gated.delivered cbc lib g n =
      (if padded plain \<and> window_ok lib chk (take 1024 (unpad plain)) then Inr (unpad plain)
       else Inl (into_io FaultWrongPassword))"
  proof (cases "padded plain")
    case True
    then have cr: "csegs.cbc_content cbc r = unpad plain" "csegs.cbc_fate cbc r = None"
      using out by (simp_all add: content fate d' assms(6))
    have "length (unpad plain) < n" using len assms(9) by (simp add: unpad_def)
    moreover have "gcbc.gate_rest cbc lib g = (if window_ok lib chk (take 1024 (unpad plain))
        then (unpad plain, None) else ([], Some (into_io FaultWrongPassword)))"
      by (simp add: g gcbc.gate_rest_def gcbc.behind_def csegs.cbc.delivered_def cr checksum_window_def)
    ultimately show ?thesis using True assms(9)
      by (simp add: gcbc.gated.delivered_def gcbc.gate_content_def gcbc.gate_fate_def)
  next
    case False
    with out obtain rest where "plain = csegs.cbc_content cbc r @ rest"
      and cr: "csegs.cbc_fate cbc r = Some (into_io FaultWrongPassword)"
      by (auto simp: content fate d' assms(6))
    then have "length (csegs.cbc_content cbc r) \<le> length plain" by simp
    moreover have "gcbc.gate_rest cbc lib g = ([], Some (into_io FaultWrongPassword))
      \<or> gcbc.gate_rest cbc lib g = (csegs.cbc_content cbc r, Some (into_io FaultWrongPassword))"
      by (simp add: g gcbc.gate_rest_def gcbc.behind_def csegs.cbc.delivered_def cr)
    ultimately show ?thesis using False len assms(9)
      by (auto simp: gcbc.gated.delivered_def gcbc.gate_content_def gcbc.gate_fate_def)
  qed
  then show ?thesis
    unfolding plain_def [symmetric]
    by (cases "padded plain \<and> window_ok lib chk (take 1024 (unpad plain))")
       (auto elim: gcbc.gated.read_full_delivers [OF good] gcbc.gated.read_full_fails [OF good])
qed

theorem cbc_member_witness:
  "\<exists>r g g'. cbc_reader_new chain_cbc rich_host (whole (replicate 15 3 @ [2])) (replicate 16 0) [3] = Ok r
    \<and> gate_new rich_host r (Sha256_1K (replicate 15 0 @ replicate 17 2)) = Ok g
    \<and> read_full (gate_read sample_crypto (cbc_read chain_cbc read_segments)) g 20 = Some (Inr (replicate 15 0), g')"
proof -
  define ss where "ss = whole (replicate 15 3 @ [2 :: byte])"
  define r :: "(byte, segment list) cbc_reader" where "r = \<lparr>cb_src = ss, cb_dec = 3,
      cb_buf = replicate chunk 0, cb_start = 0, cb_end = 0,
      cb_held = replicate 16 0, cb_have_held = False, cb_finished = False\<rparr>"
  have r: "cbc_reader_new chain_cbc rich_host ss (replicate 16 0) [3] = Ok r"
    by (simp add: cbc_reader_new_def chain_cbc_def chunk_buffer_def rich_host_def r_def aes_block_len_def)
  define chk where "chk = Sha256_1K (replicate 15 0 @ replicate 17 2)"
  obtain g where g: "gate_new rich_host r chk = Ok g" by (auto simp: gate_new_Ok rich_host_def)
  have new: "cbc_new chain_cbc (replicate 16 0) [3] = Some 3" by (simp add: chain_cbc_def)
  have ss: "segments_good ss" "segments_fate ss = None" "16 dvd length (segments_content ss)"
    "segments_content ss \<noteq> []" "length (segments_content ss) < 20" by (simp_all add: ss_def)
  have plain: "fst (cbc_blocks chain_cbc 3 (segments_content ss)) = replicate 15 0 @ [1]"
    by (simp add: ss_def chain_cbc_def numeral_eq_Suc)
  have verdict: "padded (replicate 15 0 @ [1])" "unpad (replicate 15 0 @ [1]) = replicate 15 (0 :: byte)"
    by (simp_all add: padded_def pad_of_def unpad_def)
  have "window_ok sample_crypto chk (take 1024 (replicate 15 0))"
    by (simp add: window_ok_def chk_def sample_crypto_def ct_eq_iff)
  with verdict(1) have ok: "padded (replicate 15 0 @ [1])
    \<and> window_ok sample_crypto chk (take 1024 (unpad (replicate 15 0 @ [1])))"
    unfolding verdict(2) by simp
  from cbc_member_behind_gate [OF r g chain_cbc_documented new ss, of sample_crypto,
      unfolded plain, unfolded if_P [OF ok], unfolded verdict(2)] r g
  show ?thesis unfolding ss_def chk_def by blast
qed

end
