(* ===== verification/Decrypt_Entries.thy ===== *)
theory Decrypt_Entries
  imports Zip_Round_Trip Two_Passes Checked_Readers Strip_Manifest
begin

text \<open>
  The per-entry rebuild of \<^verbatim>\<open>src/decrypt_entries.rs\<close> into the streaming zip writer: every row is screened
  before anything is derived or written; then, member by member, the manifest is stripped, encrypted
  members are decrypted and checked by inflating beside the copy, and plain members are copied.
\<close>

section \<open>The crates\<close>

text \<open>
  What the rebuild calls outside \<^verbatim>\<open>src\<close>: the ciphers and digests, miniz, crc32fast, quick-xml's reader
  and writer, and the standard library's \<^verbatim>\<open>Debug\<close> rendering of a name.
\<close>

record ('g, 'z, 'c, 'd, 'b) crates =
  cr_crypto :: crypto
  cr_gcm :: "'g gcm_lib"
  cr_inflate :: "'z inflate_lib"
  cr_deflate :: "'c deflate_lib"
  cr_density :: density
  cr_cbc :: "'d cbc_lib"
  cr_blowfish :: "'b blowfish_lib"
  cr_crc :: crc_lib
  cr_xml_events :: "bytes \<Rightarrow> raw_event list"
  cr_xml_bytes :: "raw_event list \<Rightarrow> bytes"
  cr_debug :: "string \<Rightarrow> string"

section \<open>Outcomes and plans\<close>

datatype integrity_outcome = Verified | PasswordCheckOnly

definition integrity_of :: "entry_encryption \<Rightarrow> integrity_outcome" where
  "integrity_of row = (case ee_cipher row of
      AesGcmW3c \<Rightarrow> Verified | AesCbcW3c \<Rightarrow> PasswordCheckOnly | BlowfishCfb8 \<Rightarrow> PasswordCheckOnly)"

record plan =
  pl_row :: entry_encryption
  pl_expected :: nat
  pl_len :: nat

fun zip_stream_decrypt_error :: "decrypt_limits \<Rightarrow> zip_stream_error \<Rightarrow> decrypt_error" where
  "zip_stream_decrypt_error limits (ZipRead e) = read_error_with limits e"
| "zip_stream_decrypt_error limits (ZipWrite e) = Io e"
| "zip_stream_decrypt_error limits (ZipCorrupt s) = ZipError s"

definition with_total_limit :: "decrypt_error \<Rightarrow> decrypt_limits \<Rightarrow> decrypt_error" where
  "with_total_limit e limits = (case e of OutputLimit _ \<Rightarrow> OutputLimit (max_output limits) | other \<Rightarrow> other)"

section \<open>The readers behind the checksum gate\<close>

text \<open>The boxed reader of \<^verbatim>\<open>gated\<close>: one of two, read by dispatch.\<close>

datatype ('d, 'b, 's) plain_source =
    CbcPlain "('d, 's) cbc_reader"
  | BlowfishPlain "('b, 's) blowfish_reader"

fun plain_read ::
    "'d cbc_lib \<Rightarrow> 'b blowfish_lib \<Rightarrow> 's reader \<Rightarrow> ('d, 'b, 's) plain_source reader" where
  "plain_read cl bl rd (CbcPlain r) n = map_option (\<lambda>(q, r'). (q, CbcPlain r')) (cbc_read cl rd r n)"
| "plain_read cl bl rd (BlowfishPlain r) n = map_option (\<lambda>(q, r'). (q, BlowfishPlain r')) (blowfish_read bl rd r n)"

definition gated ::
    "('g, 'z, 'c, 'd, 'b) crates \<Rightarrow> host \<Rightarrow> 's \<Rightarrow> entry_encryption \<Rightarrow> bytes \<Rightarrow> fault + ('d, 'b, 's) plain_source gate" where
  "gated k h file row key =
    and_then (case ee_cipher row of
        AesCbcW3c \<Rightarrow> and_then (cbc_reader_new (cr_cbc k) h file key (ee_iv row)) (\<lambda>r. Ok (CbcPlain r))
      | BlowfishCfb8 \<Rightarrow> and_then (blowfish_reader_new (cr_blowfish k) file key (ee_iv row)) (\<lambda>r. Ok (BlowfishPlain r))
      | AesGcmW3c \<Rightarrow> Err (FaultInternal ''an AES-GCM member reached the checksum path''))
    (\<lambda>plain. gate_new h plain (ee_checksum row))"

definition gated_read ::
    "('g, 'z, 'c, 'd, 'b) crates \<Rightarrow> 's reader \<Rightarrow> ('d, 'b, 's) plain_source gate reader" where
  "gated_read k rd = gate_read (cr_crypto k) (plain_read (cr_cbc k) (cr_blowfish k) rd)"

definition checksum_accepts ::
    "('g, 'z, 'c, 'd, 'b) crates \<Rightarrow> host \<Rightarrow> nat \<Rightarrow> entry_encryption \<Rightarrow> decrypt_limits \<Rightarrow> bytes \<Rightarrow> (bool, package) run" where
  "checksum_accepts k h i row limits key =
    then_run (open_cooked i) (\<lambda>file.
    then_run (answer (map_err (fault_error limits) (gated k h file row key))) (\<lambda>gate pk.
      (case gate_verify (cr_crypto k) (plain_read (cr_cbc k) (cr_blowfish k) read_segments) gate of
         None \<Rightarrow> None
       | Some (Inr _, _) \<Rightarrow> Some (Ok True, pk)
       | Some (Inl e, _) \<Rightarrow> (case fault_take e of
           Inr fault \<Rightarrow> if fault = FaultWrongPassword then Some (Ok False, pk)
                        else Some (Err (fault_error limits fault), pk)
         | Inl e \<Rightarrow> Some (Err (ZipError (io_text e)), pk)))))"

definition checksum_key ::
    "('g, 'z, 'c, 'd, 'b) crates \<Rightarrow> host \<Rightarrow> nat \<Rightarrow> entry_encryption \<Rightarrow> string \<Rightarrow> decrypt_limits \<Rightarrow> (bytes, package) run" where
  "checksum_key k h i row password limits =
    find_key (cr_crypto k) h row password limits (checksum_accepts k h i row limits)"

definition key_for ::
    "('g, 'z, 'c, 'd, 'b) crates \<Rightarrow> host \<Rightarrow> nat \<Rightarrow> plan \<Rightarrow> string \<Rightarrow> decrypt_limits \<Rightarrow> (bytes, package) run" where
  "key_for k h i plan password limits =
    (case ee_cipher (pl_row plan) of
       AesGcmW3c \<Rightarrow> gcm_key (cr_crypto k) h (cr_gcm k) i (pl_row plan) (pl_len plan) password limits
     | _ \<Rightarrow> checksum_key k h i (pl_row plan) password limits)"

section \<open>Sources of deflated data\<close>

text \<open>\<^verbatim>\<open>crc_to_end\<close>; the hasher is the bytes it was given.\<close>

partial_function (option) crc_loop :: "'s reader \<Rightarrow> nat \<Rightarrow> 's \<Rightarrow> bytes \<Rightarrow> ((zip_stream_error + bytes) \<times> 's) option" where
  "crc_loop rd n s hashed =
    (case rd s n of
       None \<Rightarrow> None
     | Some (q, s') \<Rightarrow> (case q of
         Inl e \<Rightarrow> Some (Inl (ZipRead e), s')
       | Inr d \<Rightarrow> if d = [] then Some (Inr hashed, s') else crc_loop rd n s' (hashed @ d)))"

declare crc_loop.simps [code]

definition no_chunk :: "fault \<Rightarrow> zip_stream_error" where
  "no_chunk f = ZipRead (into_io f)"

definition crc_to_end :: "crc_lib \<Rightarrow> host \<Rightarrow> 's reader \<Rightarrow> 's \<Rightarrow> ((zip_stream_error + u32 \<times> nat) \<times> 's) option" where
  "crc_to_end crc_of h rd s =
    (case chunk_buffer h chunk of
       Inl f \<Rightarrow> Some (Inl (no_chunk f), s)
     | Inr buf \<Rightarrow> map_option (\<lambda>(q, s'). (map_sum id (\<lambda>hashed. (crc_of hashed, length hashed)) q, s'))
         (crc_loop rd (length buf) s []))"

text \<open>\<^verbatim>\<open>EncryptedDeflated::copy_deflated\<close>: one pass, the tap writing what the inflater consumed.\<close>

definition encrypted_copy ::
    "('g, 'z, 'c, 'd, 'b) crates \<Rightarrow> host \<Rightarrow> 's reader \<Rightarrow> 'w writer \<Rightarrow> nat \<Rightarrow> nat \<Rightarrow> 's \<Rightarrow> 'w
      \<Rightarrow> ((zip_stream_error + u32 \<times> nat) \<times> 'w \<times> 's) option" where
  "encrypted_copy k h rd wr expected limit s out =
    (case inflate_with_tap (cr_inflate k) h s expected limit (out, None :: latch) of
       Inl f \<Rightarrow> Some (Inl (no_chunk f), out, s)
     | Inr inflate \<Rightarrow>
        (case crc_to_end (cr_crc k) h (inflate_read (cr_inflate k) rd (latched_write wr)) inflate of
           None \<Rightarrow> None
         | Some (q, inflate) \<Rightarrow>
            (case if_tap inflate of (out, failed) \<Rightarrow>
              Some (case failed of Some e \<Rightarrow> Inl (ZipWrite e) | None \<Rightarrow> q, out, if_src inflate))))"

text \<open>\<^verbatim>\<open>PlainDeflated::copy_deflated\<close>: the raw bytes copied, then the member read again, inflated and checked.\<close>

partial_function (option) raw_copy ::
    "'s reader \<Rightarrow> 'w writer \<Rightarrow> nat \<Rightarrow> 's \<Rightarrow> 'w \<Rightarrow> ((zip_stream_error + unit) \<times> 's \<times> 'w) option" where
  "raw_copy rd wr n s w =
    (case rd s n of
       None \<Rightarrow> None
     | Some (q, s') \<Rightarrow> (case q of
         Inl e \<Rightarrow> Some (Inl (ZipRead e), s', w)
       | Inr d \<Rightarrow>
           if d = [] then Some (Inr (), s', w)
           else (case write_all wr w d of
              None \<Rightarrow> None
            | Some (q', w') \<Rightarrow> (case q' of
                Inl e \<Rightarrow> Some (Inl (ZipWrite e), s', w')
              | Inr _ \<Rightarrow> raw_copy rd wr n s' w'))))"

declare raw_copy.simps [code]

definition open_raw :: "nat \<Rightarrow> package \<Rightarrow> (string + segment list) \<times> package" where
  "open_raw i pk = (pk_raw pk (pk_openings pk) i, opened pk)"

definition plain_copy ::
    "('g, 'z, 'c, 'd, 'b) crates \<Rightarrow> host \<Rightarrow> 'w writer \<Rightarrow> nat \<Rightarrow> package \<Rightarrow> 'w
      \<Rightarrow> ((zip_stream_error + u32 \<times> nat) \<times> 'w \<times> package) option" where
  "plain_copy k h wr i pk out =
    (case open_raw i pk of
       (Inl m, pk) \<Rightarrow> Some (Inl (ZipCorrupt m), out, pk)
     | (Inr raw, pk) \<Rightarrow>
        (case chunk_buffer h chunk of
           Inl f \<Rightarrow> Some (Inl (no_chunk f), out, pk)
         | Inr buf \<Rightarrow>
            (case raw_copy read_segments wr (length buf) raw out of
               None \<Rightarrow> None
             | Some (Inl e, _, out) \<Rightarrow> Some (Inl e, out, pk)
             | Some (Inr _, _, out) \<Rightarrow>
                (case pk_cooked pk (pk_openings pk) i of
                   Inl m \<Rightarrow> Some (Inl (ZipCorrupt m), out, opened pk)
                 | Inr file \<Rightarrow>
                     map_option (\<lambda>(q, _). (q, out, opened pk)) (crc_to_end (cr_crc k) h read_segments file)))))"

section \<open>One member\<close>

definition write_inflated ::
    "('g, 'z, 'c, 'd, 'b) crates \<Rightarrow> host \<Rightarrow> 's reader \<Rightarrow> 'w writer \<Rightarrow> string \<Rightarrow> nat \<Rightarrow> decrypt_limits \<Rightarrow> 's
      \<Rightarrow> 'w zip_writer \<Rightarrow> ((decrypt_error + unit) \<times> 's \<times> 'w zip_writer) option" where
  "write_inflated k h rd wr name expected limits deflated z =
    (case zip_deflated_from wr name expected
        (encrypted_copy k h rd (counting_write wr) expected (max_output limits)) deflated z of
       None \<Rightarrow> None
     | Some (q, z', s') \<Rightarrow>
         Some (map_sum (zip_stream_decrypt_error limits) (\<lambda>_. ()) q, s', z'))"

definition decrypt_checked ::
    "('g, 'z, 'c, 'd, 'b) crates \<Rightarrow> host \<Rightarrow> 'w writer \<Rightarrow> string \<Rightarrow> plan \<Rightarrow> decrypt_limits \<Rightarrow> bytes \<Rightarrow> segment list
      \<Rightarrow> (unit, package \<times> 'w zip_writer) run" where
  "decrypt_checked k h wr name plan limits key file =
    then_run (answer (map_err (fault_error limits) (gated k h file (pl_row plan) key))) (\<lambda>plain (pk, z).
      (case write_inflated k h (gated_read k read_segments) wr name (pl_expected plan) limits plain z of
         None \<Rightarrow> None
       | Some (Inl e, _, z) \<Rightarrow> Some (Inl e, (pk, z))
       | Some (Inr _, plain, z) \<Rightarrow>
           map_option (\<lambda>(q, _). (q, (pk, z))) (drain h (gated_read k read_segments) plain)))"

definition decrypt_member ::
    "('g, 'z, 'c, 'd, 'b) crates \<Rightarrow> host \<Rightarrow> 'w writer \<Rightarrow> nat \<Rightarrow> string \<Rightarrow> plan \<Rightarrow> string \<Rightarrow> decrypt_limits
      \<Rightarrow> (unit, package \<times> 'w zip_writer) run" where
  "decrypt_member k h wr i name plan password limits =
    (if ee_cipher (pl_row plan) = AesGcmW3c then
       gcm_member (cr_crypto k) h (cr_gcm k) i (pl_row plan) (pl_len plan) password limits
         (write_inflated k h (gcm_decrypt_read (cr_gcm k) read_segments) wr name (pl_expected plan) limits)
     else
       then_run (on_package (checksum_key k h i (pl_row plan) password limits)) (\<lambda>key.
       then_run (on_package (open_cooked i)) (\<lambda>file.
         decrypt_checked k h wr name plan limits key file)))"

section \<open>The package\<close>

text \<open>The plans by member name, in the order of the rows, with those a later row replaces.\<close>

fun plan_rows ::
    "decrypt_limits \<Rightarrow> sizes \<Rightarrow> nat \<Rightarrow> entry_encryption list \<Rightarrow> (string \<rightharpoonup> plan) \<Rightarrow> (nat \<times> plan) list
      \<Rightarrow> ((string \<rightharpoonup> plan) \<times> (nat \<times> plan) list, package) run" where
  "plan_rows limits sizes n [] plans superseded = answer (Ok (plans, superseded))"
| "plan_rows limits sizes n (row # rows) plans superseded =
    then_run (answer (sizes_declared sizes (ee_size row))) (\<lambda>expected.
    then_run (find_member (ee_path row) (no_member n)) (\<lambda>(i, name).
    then_run (member_shape i) (\<lambda>(len, head).
    then_run (answer (screen_shape row len head)) (\<lambda>_.
      (let plan = \<lparr>pl_row = row, pl_expected = expected, pl_len = len\<rparr> in
       plan_rows limits sizes (n + 1) rows (plans(name \<mapsto> plan))
         (superseded @ (case plans name of Some earlier \<Rightarrow> [(i, earlier)] | None \<Rightarrow> [])))))))"

fun check_superseded ::
    "('g, 'z, 'c, 'd, 'b) crates \<Rightarrow> host \<Rightarrow> string \<Rightarrow> decrypt_limits \<Rightarrow> (nat \<times> plan) list \<Rightarrow> (unit, package) run" where
  "check_superseded k h password limits [] = answer (Ok ())"
| "check_superseded k h password limits ((i, plan) # rest) =
    then_run (key_for k h i plan password limits) (\<lambda>_. check_superseded k h password limits rest)"

definition manifest_gone :: decrypt_error where
  "manifest_gone = Internal ''the manifest classify read is not in the archive''"

definition read_manifest :: "(bytes, package) run" where
  "read_manifest =
    then_run (find_member manifest_path manifest_gone) (\<lambda>(i, _).
    then_run (open_cooked i) (\<lambda>file.
    then_run (reading (read_full read_segments file (manifest_read_cap + 1))) (\<lambda>(buf, _).
      answer (if length buf > manifest_read_cap then Err (ZipError ''zip entry too large'') else Ok buf))))"

definition entry_at :: "nat \<Rightarrow> (zip_entry, package) run" where
  "entry_at i =
    then_run (open_cooked i) (\<lambda>_ pk. Some (map_err ZipError (pk_archive pk ! i), pk))"

definition not_rewritable :: "('g, 'z, 'c, 'd, 'b) crates \<Rightarrow> string \<Rightarrow> string \<Rightarrow> string" where
  "not_rewritable k name other =
    ''member '' @ cr_debug k name @ '' uses compression '' @ other @ '', which cannot be re-written''"

definition copy_plain ::
    "('g, 'z, 'c, 'd, 'b) crates \<Rightarrow> host \<Rightarrow> 'w writer \<Rightarrow> nat \<Rightarrow> string \<Rightarrow> nat \<Rightarrow> decrypt_limits
      \<Rightarrow> (unit, package \<times> 'w zip_writer) run" where
  "copy_plain k h wr i name sz limits = (\<lambda>(pk, z).
    (case mm_method (pk_meta pk i) of
       Stored \<Rightarrow>
         then_run (on_package (open_cooked i)) (\<lambda>file (pk, z).
           map_option (\<lambda>(q, z'). (map_sum (zip_stream_decrypt_error limits) id q, (pk, z')))
             (zip_stored (cr_crc k) h wr read_segments name (mm_crc (pk_meta pk i)) sz file z)) (pk, z)
     | Deflated \<Rightarrow>
         map_option (\<lambda>(q, z', pk'). (map_sum (zip_stream_decrypt_error limits) (\<lambda>_. ()) q, (pk', z')))
           (zip_deflated_from wr name sz (plain_copy k h (counting_write wr) i) pk z)
     | OtherMethod other \<Rightarrow> Some (Inl (ZipError (not_rewritable k name other)), (pk, z))))"

definition rebuild_member ::
    "('g, 'z, 'c, 'd, 'b) crates \<Rightarrow> host \<Rightarrow> 'w writer \<Rightarrow> (string \<rightharpoonup> plan) \<Rightarrow> bytes \<Rightarrow> string \<Rightarrow> decrypt_limits
      \<Rightarrow> nat \<Rightarrow> nat \<Rightarrow> (plan option, package \<times> 'w zip_writer) run" where
  "rebuild_member k h wr plans stripped password limits i produced =
    then_run (on_package (entry_at i)) (\<lambda>e.
      (let name = zip_entry_name (ze_raw_name e) in
       if member_matches_path name manifest_path then (\<lambda>(pk, z).
         map_option (\<lambda>(q, z', _). (map_sum (zip_stream_decrypt_error limits) (\<lambda>_. None) q, (pk, z')))
           (zip_deflated (cr_crc k) h (cr_deflate k) (cr_density k) wr read_segments name (length stripped)
              (whole stripped) z))
       else (case plans name of
         Some plan \<Rightarrow> (\<lambda>s.
           map_option (\<lambda>(q, s'). (map_sum (\<lambda>e. with_total_limit e limits) (\<lambda>_. Some plan) q, s'))
             (decrypt_member k h wr i name plan password (limits\<lparr>max_output := max_output limits - produced\<rparr>) s))
       | None \<Rightarrow> then_run (copy_plain k h wr i name (ze_uncompressed_size e) limits) (\<lambda>_. answer (Ok None)))))"

fun rebuild_from ::
    "('g, 'z, 'c, 'd, 'b) crates \<Rightarrow> host \<Rightarrow> 'w writer \<Rightarrow> (string \<rightharpoonup> plan) \<Rightarrow> bytes \<Rightarrow> string \<Rightarrow> decrypt_limits
      \<Rightarrow> nat list \<Rightarrow> integrity_outcome \<Rightarrow> nat \<Rightarrow> (integrity_outcome, package \<times> 'w zip_writer) run" where
  "rebuild_from k h wr plans stripped password limits [] weakest produced = answer (Ok weakest)"
| "rebuild_from k h wr plans stripped password limits (i # is) weakest produced =
    then_run (rebuild_member k h wr plans stripped password limits i produced) (\<lambda>used.
      (case used of
         None \<Rightarrow> rebuild_from k h wr plans stripped password limits is weakest produced
       | Some plan \<Rightarrow> rebuild_from k h wr plans stripped password limits is
           (if integrity_of (pl_row plan) = PasswordCheckOnly then PasswordCheckOnly else weakest)
           (produced + pl_expected plan)))"

definition per_entry ::
    "('g, 'z, 'c, 'd, 'b) crates \<Rightarrow> host \<Rightarrow> 'w writer \<Rightarrow> classification \<Rightarrow> string \<Rightarrow> decrypt_limits \<Rightarrow> sizes
      \<Rightarrow> (integrity_outcome, package \<times> 'w zip_writer) run" where
  "per_entry k h wr class password limits sizes =
    then_run (on_package (plan_rows limits sizes 0 (cl_encrypted_entries class) Map.empty [])) (\<lambda>(plans, superseded).
    then_run (on_package (check_superseded k h password limits superseded)) (\<lambda>_.
    then_run (on_package read_manifest) (\<lambda>manifest.
    then_run (answer (strip_manifest (cr_xml_events k manifest))) (\<lambda>stripped (pk, z).
      rebuild_from k h wr plans (cr_xml_bytes k stripped) password limits [0..<length (pk_archive pk)]
        Verified 0 (pk, z)))))"

end
