(* ===== verification/Decrypt_To.thy ===== *)
theory Decrypt_To
  imports Decrypt_Entries
begin

text \<open>
  The entry points of \<^verbatim>\<open>src/decrypt_stream.rs\<close>: \<^verbatim>\<open>decrypt_to\<close> from a reader to a writer, and the whole-buffer
  \<^verbatim>\<open>decrypt\<close> on the same core.  The lemmas show which error a caller sees first, and that for a wholesome
  package that does not change the two write the same bytes.
\<close>

section \<open>From a reader to a writer\<close>

text \<open>
  What the zip crate makes of the caller's reader: the directory \<^verbatim>\<open>classify\<close> reads, the seek back to the
  start, the package opened again.  \<^verbatim>\<open>in_latch\<close> is what the latch around the reader holds at the end.
\<close>

record input_side =
  in_classified :: "archive option"
  in_seek :: "io_error option"
  in_reopened :: "string + package"
  in_latch :: latch

text \<open>The tail of \<^verbatim>\<open>run\<close> for a per-entry package: the rebuild, then the directory of the output.\<close>

definition finish_rebuild ::
    "'w writer \<Rightarrow> ('w \<Rightarrow> io_error option) \<Rightarrow> decrypt_limits
      \<Rightarrow> ((decrypt_error + integrity_outcome) \<times> package \<times> 'w zip_writer) option
      \<Rightarrow> ((decrypt_error + integrity_outcome) \<times> 'w) option" where
  "finish_rebuild wr flush limits r =
    (case r of
       None \<Rightarrow> None
     | Some (Inl e, (_, z)) \<Rightarrow> Some (Inl e, zw_out z)
     | Some (Inr outcome, (_, z)) \<Rightarrow>
         map_option (\<lambda>(q, w). (map_sum (zip_stream_decrypt_error limits) (\<lambda>_. outcome) q, w)) (zip_finish wr flush z))"

text \<open>What \<^verbatim>\<open>run\<close> does once the package is classified.\<close>

definition run_classified ::
    "('g, 'z, 'c, 'd, 'b) crates \<Rightarrow> host \<Rightarrow> 'w writer \<Rightarrow> ('w \<Rightarrow> io_error option) \<Rightarrow> classification
      \<Rightarrow> input_side \<Rightarrow> string \<Rightarrow> decrypt_limits \<Rightarrow> 'w \<Rightarrow> ((decrypt_error + integrity_outcome) \<times> 'w) option" where
  "run_classified k h wr flush class src password limits w =
    (case screen_class class limits of
       Inl e \<Rightarrow> Some (Inl e, w)
     | Inr _ \<Rightarrow>
    (case in_seek src of
       Some e \<Rightarrow> Some (Inl (Io e), w)
     | None \<Rightarrow>
    (case in_reopened src of
       Inl m \<Rightarrow> Some (Inl (ZipError m), w)
     | Inr pk \<Rightarrow>
        (if cl_mode class = Wholesome then
          (case wholesome_row_at class of
             Inl e \<Rightarrow> Some (Inl e, w)
           | Inr (n, row) \<Rightarrow>
               map_option (\<lambda>(q, _, w). (map_sum id (\<lambda>_. Verified) q, w))
                 (wholesome (cr_crypto k) h (cr_gcm k) (cr_inflate k) wr n row password limits Streamed (pk, w)))
         else
           finish_rebuild wr flush limits (per_entry k h wr class password limits Streamed (pk, zip_new w))))))"

definition decrypt_run ::
    "('g, 'z, 'c, 'd, 'b) crates \<Rightarrow> host \<Rightarrow> (string \<Rightarrow> xml_event list) \<Rightarrow> 'w writer \<Rightarrow> ('w \<Rightarrow> io_error option)
      \<Rightarrow> input_side \<Rightarrow> string \<Rightarrow> decrypt_limits \<Rightarrow> 'w \<Rightarrow> ((decrypt_error + integrity_outcome) \<times> 'w) option" where
  "decrypt_run k h xml_events wr flush src password limits w =
    (case map_err ClassifyError (classify_latched xml_events (in_classified src)) of
       Inl e \<Rightarrow> Some (Inl e, w)
     | Inr class \<Rightarrow> run_classified k h wr flush class src password limits w)"

definition decrypt_with_limits_to ::
    "('g, 'z, 'c, 'd, 'b) crates \<Rightarrow> host \<Rightarrow> (string \<Rightarrow> xml_event list) \<Rightarrow> 'w writer \<Rightarrow> ('w \<Rightarrow> io_error option)
      \<Rightarrow> input_side \<Rightarrow> string \<Rightarrow> decrypt_limits \<Rightarrow> 'w \<Rightarrow> ((decrypt_error + integrity_outcome) \<times> 'w) option" where
  "decrypt_with_limits_to k h xml_events wr flush src password limits w =
    (if password = [] then Some (Inl EmptyPassword, w)
     else map_option (\<lambda>(result, w). (latch_result (in_latch src) Io result, w))
       (decrypt_run k h xml_events wr flush src password limits w))"

definition decrypt_to ::
    "('g, 'z, 'c, 'd, 'b) crates \<Rightarrow> host \<Rightarrow> (string \<Rightarrow> xml_event list) \<Rightarrow> 'w writer \<Rightarrow> ('w \<Rightarrow> io_error option)
      \<Rightarrow> input_side \<Rightarrow> string \<Rightarrow> 'w \<Rightarrow> ((decrypt_error + integrity_outcome) \<times> 'w) option" where
  "decrypt_to k h xml_events wr flush src password w =
    decrypt_with_limits_to k h xml_events wr flush src password default_limits w"

section \<open>The whole buffer\<close>

definition ours :: "decrypt_error \<Rightarrow> decrypt_error" where
  "ours e = (case e of Io e \<Rightarrow> Internal (''output buffer: '' @ io_text e) | other \<Rightarrow> other)"

text \<open>\<^verbatim>\<open>rebuild_bound\<close>, on a host of 64 bits: the conversion to \<^verbatim>\<open>usize\<close> cannot fail.\<close>

definition per_member :: nat where "per_member = 30 + 46 + 2 * 64 + 1024"

fun bound_members :: "nat \<Rightarrow> nat list \<Rightarrow> (nat, package) run" where
  "bound_members bound [] = answer (Ok bound)"
| "bound_members bound (i # is) =
    then_run (\<lambda>pk. case open_raw i pk of (r, pk') \<Rightarrow> Some (map_err ZipError r, pk')) (\<lambda>_.
    then_run (\<lambda>pk. Some (map_err ZipError (pk_archive pk ! i), pk)) (\<lambda>e pk.
      (let body = min (max (ze_uncompressed_size e) (mm_compressed_size (pk_meta pk i))) inflate_ceiling in
       bound_members (bound + per_member + 2 * length (ze_raw_name e) + deflate_bound body) is pk)))"

definition rebuild_bound :: "classification \<Rightarrow> (nat, package) run" where
  "rebuild_bound class = (\<lambda>pk.
    then_run (bound_members (22 + 1024) [0..<length (pk_archive pk)]) (\<lambda>bound.
      answer (Ok (foldl (\<lambda>b row. b + deflate_bound (min (declared row) inflate_ceiling)) bound
        (cl_encrypted_entries class)))) pk)"

text \<open>The wholesome half of \<^verbatim>\<open>decrypt_slice\<close>: one buffer of the declared size, allocated before any work.\<close>

definition slice_wholesome ::
    "('g, 'z, 'c, 'd, 'b) crates \<Rightarrow> host \<Rightarrow> classification \<Rightarrow> string \<Rightarrow> decrypt_limits \<Rightarrow> (bytes, package) run" where
  "slice_wholesome k h class password limits =
    then_run (answer (wholesome_row_at class)) (\<lambda>(n, row).
    then_run (answer (inflated_len (ee_size row))) (\<lambda>len.
    then_run (answer (try_zeroed h len PackagePlaintext)) (\<lambda>out pk.
      map_option (\<lambda>(q, pk', slot). (map_sum ours (\<lambda>_. slice_output slot) q, pk'))
        (wholesome (cr_crypto k) h (cr_gcm k) (cr_inflate k) slice_write n row password limits WholeBuffer
           (pk, slice_new out)))))"

text \<open>
  \<^verbatim>\<open>decrypt_slice\<close>.  The per-entry rebuild through the zip crate's own writer is the argument \<^verbatim>\<open>seekable\<close>, for
  the bound and the classification it is called with.
\<close>

definition slice_classified ::
    "('g, 'z, 'c, 'd, 'b) crates \<Rightarrow> host \<Rightarrow> (classification \<Rightarrow> nat \<Rightarrow> (bytes, package) run) \<Rightarrow> classification
      \<Rightarrow> string + package \<Rightarrow> string \<Rightarrow> decrypt_limits \<Rightarrow> (decrypt_error + bytes) option" where
  "slice_classified k h seekable class reopened password limits =
    (case screen_class class limits of
       Inl e \<Rightarrow> Some (Err e)
     | Inr _ \<Rightarrow>
    (case reopened of
       Inl m \<Rightarrow> Some (Err (ZipError m))
     | Inr pk \<Rightarrow>
        map_option fst
          (if cl_mode class = Wholesome then slice_wholesome k h class password limits pk
           else then_run (rebuild_bound class) (\<lambda>bound.
                then_run (answer (try_zeroed h bound PackagePlaintext)) (\<lambda>out.
                seekable class bound)) pk)))"

definition decrypt_slice ::
    "('g, 'z, 'c, 'd, 'b) crates \<Rightarrow> host \<Rightarrow> (string \<Rightarrow> xml_event list) \<Rightarrow> (classification \<Rightarrow> nat \<Rightarrow> (bytes, package) run)
      \<Rightarrow> archive option \<Rightarrow> string + package \<Rightarrow> string \<Rightarrow> decrypt_limits \<Rightarrow> (decrypt_error + bytes) option" where
  "decrypt_slice k h xml_events seekable classified reopened password limits =
    (if password = [] then Some (Err EmptyPassword)
     else (case map_err ClassifyError (classify_latched xml_events classified) of
       Inl e \<Rightarrow> Some (Err e)
     | Inr class \<Rightarrow> slice_classified k h seekable class reopened password limits))"

section \<open>The two agree\<close>

text \<open>The wholesome run over a sink, as far as a success goes.\<close>

context releasing begin

lemma wholesome_steady:
  assumes "inflate_documented il den" "\<forall>n. host_reserves h n" "openings_good pk" "steady pk i bs"
    and "sizes_declared sizes (ee_size row) = Inr expected"
    and "member_for_archive (pk_archive pk) (ee_path row) (no_member n) = Inr (i, name)"
    and "member_size pk i = length bs" "length bs < 2 ^ 64" "ee_cipher row = AesGcmW3c"
    and "runs_on row (length bs) (take 12 bs)" "wgood w" "\<forall>plain. length plain = expected \<longrightarrow> dst.room w plain"
  shows "\<exists>q pk' w'. wholesome cr h gl il wr n row password limits sizes (pk, w) = Some (q, (pk', w'))
    \<and> (q = Inr () \<longrightarrow> (\<exists>plain. written w' = written w @ plain \<and> length plain = expected))
    \<and> (\<forall>plain. (q = Inr () \<and> written w' = written w @ plain) \<longleftrightarrow>
        expected \<le> max_output limits \<and> length plain = expected
        \<and> (\<exists>key m. first_taken (\<lambda>sk. derive_key cr h row sk limits) (gcm_verdict gl (ee_iv row) bs)
             (candidates cr password (ee_start_key row)) = Inr key
           \<and> den (inf_init il) [] (gcm_crypt gl key (ee_iv row) (body bs)) = Some (plain, m)))"
proof -
  have len: "28 \<le> length bs" using assms(9,10) by (simp add: runs_on_def)
  then have "12 \<le> length bs" by simp
  note enters = wholesome_enters [OF assms(3-7) this assms(10)]
  have pk: "openings_good (opened pk)" "steady (opened pk) i bs" using assms(3,4) steady_opened by simp_all
  note st = gcm_member_steady [OF assms(1,2,11) pk len assms(8), where cr = cr and row = row
      and password = password and limits = limits and expected = expected]
  show ?thesis
  proof (cases "first_taken (\<lambda>sk. derive_key cr h row sk limits) (gcm_verdict gl (ee_iv row) bs)
      (candidates cr password (ee_start_key row))")
    case (Inl e)
    then show ?thesis using st(1) [OF Inl] by (auto simp: enters)
  next
    case (Inr key)
    note now = st(2) [OF Inr]
    show ?thesis
    proof (cases "den (inf_init il) [] (gcm_crypt gl key (ee_iv row) (body bs))")
      case None
      then show ?thesis using now by (auto simp: enters Inr)
    next
      case (Some p)
      obtain plain m where p: "p = (plain, m)" by (cases p)
      show ?thesis
      proof (cases "length plain = expected \<and> expected \<le> max_output limits")
        case True
        then have "dst.room w plain" using assms(12) by simp
        then show ?thesis using now True by (auto simp: enters Inr Some p)
      next
        case False
        then show ?thesis using now by (auto simp: enters Inr Some p)
      qed
    qed
  qed
qed

end

text \<open>
  C34. Once a package is classified as wholesome, does not change, and its row is within the 1 GiB the buffer is
  held to, the whole-buffer \<^verbatim>\<open>decrypt\<close> and the streaming \<^verbatim>\<open>decrypt_to\<close> succeed on the same passwords and give
  the same bytes.
\<close>

theorem slice_is_stream:
  assumes "inflate_documented (cr_inflate k) den" "\<forall>n. host_reserves h n" "openings_good pk" "steady pk i bs"
    and "cl_mode class = Wholesome"
    and "wholesome_row_at class = Inr (n, row)" "0 \<le> ee_size row" "nat (ee_size row) \<le> inflate_ceiling"
    and "member_for_archive (pk_archive pk) (ee_path row) (no_member n) = Inr (i, name)"
    and "member_size pk i = length bs" "length bs < 2 ^ 64" "ee_cipher row = AesGcmW3c"
    and "runs_on row (length bs) (take 12 bs)"
  shows "slice_classified k h seekable class (Inr pk) password limits = Some (Inr plain)
    \<longleftrightarrow> run_classified k h sink_write flush class
          \<lparr>in_classified = classified, in_seek = None, in_reopened = Inr pk, in_latch = latched\<rparr> password limits []
        = Some (Inr Verified, plain)"
proof -
  define expected where "expected = nat (ee_size row)"
  have size: "inflated_len (ee_size row) = Inr expected" "sizes_declared WholeBuffer (ee_size row) = Inr expected"
    "sizes_declared Streamed (ee_size row) = Inr expected"
    using assms(7,8) by (auto simp: inflated_len_def declared_size_def expected_def)
  define slot where "slot = slice_new (replicate expected 0)"
  have "expected \<le> inflate_ceiling" using assms(8) by (simp add: expected_def)
  then have "expected \<le> u64_max" by (simp add: limit_defs u64_max_def)
  then have slot: "slice_ok slot" "sl_pos slot = sl_len slot" "length (sl_buf slot) = expected" "sl_len slot = 0"
    "slice_output slot = []"
    by (simp_all add: slot_def slice_new_def slice_ok_def slice_output_def)
  have room: "\<forall>pl. length pl = expected \<longrightarrow> capped.room expected slot pl"
    by (intro allI impI, rule capped_room) (use slot in simp_all)
  have sink_room: "\<forall>pl. length pl = expected \<longrightarrow> sunk.room [] pl"
    using sunk.takes_all_room [OF sink_takes_all] by blast
  have sgood: "(slice_ok slot \<and> sl_pos slot = sl_len slot) \<and> length (sl_buf slot) = expected" using slot by simp
  obtain q1 pk1 s1 where slice: "wholesome (cr_crypto k) h (cr_gcm k) (cr_inflate k) slice_write n row password limits
        WholeBuffer (pk, slot) = Some (q1, (pk1, s1))"
    "q1 = Inr () \<longrightarrow> (\<exists>pl. slice_output s1 = slice_output slot @ pl \<and> length pl = expected)"
    "\<forall>pl. (q1 = Inr () \<and> slice_output s1 = slice_output slot @ pl) \<longleftrightarrow>
        expected \<le> max_output limits \<and> length pl = expected
        \<and> (\<exists>key m. first_taken (\<lambda>sk. derive_key (cr_crypto k) h row sk limits) (gcm_verdict (cr_gcm k) (ee_iv row) bs)
             (candidates (cr_crypto k) password (ee_start_key row)) = Inr key
           \<and> den (inf_init (cr_inflate k)) [] (gcm_crypt (cr_gcm k) key (ee_iv row) (body bs)) = Some (pl, m))"
    using rslice.wholesome_steady [OF assms(1-4) size(2) assms(9-13) sgood room,
        where cr = "cr_crypto k" and password = password and limits = limits and gl = "cr_gcm k"]
    by (elim exE conjE) (rule that)
  obtain q2 pk2 w2 where sink: "wholesome (cr_crypto k) h (cr_gcm k) (cr_inflate k) sink_write n row password limits
        Streamed (pk, []) = Some (q2, (pk2, w2))"
    "\<forall>pl. (q2 = Inr () \<and> w2 = [] @ pl) \<longleftrightarrow>
        expected \<le> max_output limits \<and> length pl = expected
        \<and> (\<exists>key m. first_taken (\<lambda>sk. derive_key (cr_crypto k) h row sk limits) (gcm_verdict (cr_gcm k) (ee_iv row) bs)
             (candidates (cr_crypto k) password (ee_start_key row)) = Inr key
           \<and> den (inf_init (cr_inflate k)) [] (gcm_crypt (cr_gcm k) key (ee_iv row) (body bs)) = Some (pl, m))"
    using rsunk.wholesome_steady [OF assms(1-4) size(3) assms(9-13) TrueI sink_room,
        where cr = "cr_crypto k" and password = password and limits = limits and gl = "cr_gcm k"]
    by (elim exE conjE) (rule that)
  have same: "q1 = Inr () \<and> slice_output s1 = plain \<longleftrightarrow> q2 = Inr () \<and> w2 = plain"
    using slice(3) [rule_format, of plain] sink(2) [rule_format, of plain] slot(5) by simp
  have one: "slice_wholesome k h class password limits pk = Some (map_sum ours (\<lambda>_. slice_output s1) q1, pk1)"
    using slice(1) assms(2)
    by (simp add: slice_wholesome_def assms(6) size(1) try_zeroed_def slot_def)
  show ?thesis
  proof (cases "screen_class class limits")
    case (Inl e)
    then show ?thesis by (simp add: slice_classified_def run_classified_def)
  next
    case (Inr u)
    then show ?thesis using same
      by (cases q1; cases q2) (auto simp: slice_classified_def run_classified_def assms(5,6) one sink(1))
  qed
qed


definition sealed_class :: classification where
  "sealed_class = sample_class\<lparr>cl_common := Some sample_gcm_row, cl_encrypted_entries := [sample_gcm_row]\<rparr>"

lemma sealed_class_facts:
  "cl_mode sealed_class = Wholesome" "wholesome_row_at sealed_class = Inr (0, sample_gcm_row)"
  "screen_class sealed_class default_limits = Inr ()" "0 \<le> ee_size sample_gcm_row"
  "nat (ee_size sample_gcm_row) \<le> inflate_ceiling"
  by (simp_all add: sealed_class_def sample_class_def wholesome_row_at_def wholesome_row_def sample_gcm_row_def
      sample_row_def screen_class_Ok default_limits_def max_output_bytes_def u64_max_def declared_output_def
      declared_def limit_defs)

definition sample_crates :: "(nat, unit, unit, byte, byte) crates" where
  "sample_crates = \<lparr>cr_crypto = sample_crypto, cr_gcm = wide_gcm, cr_inflate = zero_inflate, cr_deflate = stored_deflate,
     cr_density = (\<lambda>counts n. False), cr_cbc = chain_cbc, cr_blowfish = shift_blowfish,
     cr_crc = (\<lambda>bs. of_nat (sum_list (map unat bs))), cr_xml_events = (\<lambda>_. []), cr_xml_bytes = (\<lambda>_. []),
     cr_debug = (\<lambda>s. s)\<rparr>"

lemma sample_crates_simps [simp]:
  "cr_crypto sample_crates = sample_crypto" "cr_gcm sample_crates = wide_gcm" "cr_inflate sample_crates = zero_inflate"
  by (simp_all add: sample_crates_def)

theorem slice_is_stream_witness:
  "slice_classified sample_crates rich_host (\<lambda>class bound. answer (Ok [])) sealed_class (Inr sample_package) ''pw''
      default_limits = Some (Inr [7, 8, 9])
   \<and> run_classified sample_crates rich_host sink_write (\<lambda>w. None) sealed_class
      \<lparr>in_classified = None, in_seek = None, in_reopened = Inr sample_package, in_latch = None\<rparr> ''pw'' default_limits []
      = Some (Inr Verified, [7, 8, 9])"
proof -
  have rich: "\<forall>n. host_reserves rich_host n" by (simp add: rich_host_def)
  have side: "length sealed_member < 2 ^ 64" "ee_cipher sample_gcm_row = AesGcmW3c"
    "runs_on sample_gcm_row (length sealed_member) (take 12 sealed_member)"
    using sample_package_facts(4) by (simp_all add: sealed_facts sample_gcm_row_def sample_row_def)
  have plain: "zero_den (inf_init zero_inflate) [] (gcm_crypt wide_gcm sample_key (ee_iv sample_gcm_row) (body sealed_member))
      = Some ([7, 8, 9], 4)"
    by (simp add: sealed_facts sample_package_facts gcm_crypt_twice zero_den_def)
  have limit: "(3 :: nat) \<le> max_output default_limits" by (simp add: default_limits_def limit_defs)
  have room: "\<forall>pl. length pl = 3 \<longrightarrow> sunk.room [] pl" using sunk.takes_all_room [OF sink_takes_all] by blast
  obtain q pk' w' where run: "wholesome sample_crypto rich_host wide_gcm zero_inflate sink_write 0 sample_gcm_row ''pw''
      default_limits Streamed (sample_package, []) = Some (q, (pk', w'))"
    and exact: "\<forall>out. (q = Inr () \<and> w' = [] @ out) \<longleftrightarrow>
        3 \<le> max_output default_limits \<and> length out = 3
        \<and> (\<exists>key m. first_taken (\<lambda>sk. derive_key sample_crypto rich_host sample_gcm_row sk default_limits)
              (gcm_verdict wide_gcm (ee_iv sample_gcm_row) sealed_member)
              (candidates sample_crypto ''pw'' (ee_start_key sample_gcm_row)) = Inr key
           \<and> zero_den (inf_init zero_inflate) [] (gcm_crypt wide_gcm key (ee_iv sample_gcm_row) (body sealed_member))
             = Some (out, m))"
    using rsunk.wholesome_steady [OF zero_inflate_documented rich sample_package_facts(1,2) sample_size [of Streamed] sample_finds
        sample_package_facts(3) side TrueI room, where cr = sample_crypto and limits = default_limits
        and password = "''pw''" and gl = wide_gcm]
    by (elim exE conjE) (rule that)
  have "q = Inr () \<and> w' = [] @ [7, 8, 9]"
    using exact [rule_format, of "[7, 8, 9]"] limit plain sample_walk by simp
  note run = run this
  have streamed: "run_classified sample_crates rich_host sink_write (\<lambda>w. None) sealed_class
      \<lparr>in_classified = None, in_seek = None, in_reopened = Inr sample_package, in_latch = None\<rparr> ''pw'' default_limits []
      = Some (Inr Verified, [7, 8, 9])"
    using run by (simp add: run_classified_def sealed_class_facts)
  have documented: "inflate_documented (cr_inflate sample_crates) zero_den" using zero_inflate_documented by simp
  from slice_is_stream [OF documented rich sample_package_facts(1,2) sealed_class_facts(1,2,4,5) sample_finds
      sample_package_facts(3) side, where plain = "[7, 8, 9]" and password = "''pw''" and limits = default_limits
      and seekable = "\<lambda>class bound. answer (Ok [])" and flush = "\<lambda>w. None" and classified = None and latched = None]
    streamed
  show ?thesis by blast
qed

end
