(* ===== verification/Encrypt_Stream.thy ===== *)
theory Encrypt_Stream
  imports Encrypt Decrypt_To
begin

text \<open>
  \<^verbatim>\<open>src/encrypt_stream.rs\<close>: a plaintext package is classified, read again, deflated, sealed and written as the
  second of three members, in bounded memory.  The writer of the zip crate is a parameter, as are the random
  generator and what a reopened reader gives.  The lemmas show what a success has written: an authentic
  AES-GCM member that decrypts and inflates to the input, and the manifest that describes it.
\<close>

section \<open>The sealing writer\<close>

text \<open>\<^verbatim>\<open>GcmEncryptWriter\<close> over any writer: a call takes at most a chunk, and writes its ciphertext whole.\<close>

type_synonym ('g, 'w) sealer = "'g gcm_stream \<times> 'w"

definition seal_new :: "host \<Rightarrow> 'g gcm_stream \<Rightarrow> 'w \<Rightarrow> fault + ('g, 'w) sealer" where
  "seal_new h g w = and_then (chunk_buffer h chunk) (\<lambda>_. Ok (g, w))"

definition seal_write :: "'g gcm_lib \<Rightarrow> 'w writer \<Rightarrow> ('g, 'w) sealer writer" where
  "seal_write gl wr = (\<lambda>(g, w) d.
    (let n = min (length d) chunk; (ct, g') = gcm_encrypt gl g (take n d) in
     case write_all wr w ct of
       None \<Rightarrow> None
     | Some (q, w') \<Rightarrow> Some (map_sum id (\<lambda>_. n) q, (g', w'))))"

definition seal_finish :: "'g gcm_lib \<Rightarrow> 'w writer \<Rightarrow> ('g, 'w) sealer \<Rightarrow> ((io_error + unit) \<times> 'w) option" where
  "seal_finish gl wr = (\<lambda>(g, w). write_all wr w (gcm_tag gl g))"

section \<open>The zip crate's writer\<close>

datatype zip_failure = ZipIoFailure io_error | ZipOtherFailure string

record file_options =
  fo_deflated :: bool
  fo_large :: bool

record ('w, 'x) zip_crate =
  zc_new :: "'w \<Rightarrow> 'x"
  zc_start :: "string \<Rightarrow> file_options \<Rightarrow> 'x \<Rightarrow> (zip_failure + unit) \<times> 'x"
  zc_write :: "'x writer"
  zc_finish :: "'x \<Rightarrow> (zip_failure + unit) \<times> 'w"

definition stored_options :: file_options where
  "stored_options = \<lparr>fo_deflated = False, fo_large = False\<rparr>"

definition deflated_options :: file_options where
  "deflated_options = \<lparr>fo_deflated = True, fo_large = False\<rparr>"

text \<open>\<^verbatim>\<open>to_zip\<close>: an I/O error of the output is the caller's own.\<close>

fun to_zip :: "zip_failure \<Rightarrow> encrypt_error" where
  "to_zip (ZipIoFailure e) = EncIo e"
| "to_zip (ZipOtherFailure m) = EncZip m"

text \<open>A step of the output: its error ends the run.\<close>

definition out_step :: "((encrypt_error + 'a) \<times> 'x) option \<Rightarrow> ('a \<Rightarrow> 'x \<Rightarrow> (encrypt_error + 'b) option)
    \<Rightarrow> (encrypt_error + 'b) option" where
  "out_step r f = (case r of None \<Rightarrow> None | Some (Inl e, _) \<Rightarrow> Some (Inl e) | Some (Inr a, x) \<Rightarrow> f a x)"

definition start_file :: "('w, 'x) zip_crate \<Rightarrow> string \<Rightarrow> file_options \<Rightarrow> 'x \<Rightarrow> ((encrypt_error + unit) \<times> 'x) option" where
  "start_file zc name opts x = (case zc_start zc name opts x of (q, x') \<Rightarrow> Some (map_err to_zip q, x'))"

definition write_out :: "('w, 'x) zip_crate \<Rightarrow> bytes \<Rightarrow> 'x \<Rightarrow> ((encrypt_error + unit) \<times> 'x) option" where
  "write_out zc d x = map_option (\<lambda>(q, x'). (map_err EncIo q, x')) (write_all (zc_write zc) x d)"

section \<open>The payload\<close>

definition enc_fault :: "fault \<Rightarrow> encrypt_error" where
  "enc_fault f = (case f of
      FaultAlloc n \<Rightarrow> EncHostCannotAllocate n
    | FaultDeflate s \<Rightarrow> DeflateRefused s
    | other \<Rightarrow> EncInternal (fault_text other))"

definition enc_write_error :: "io_error \<Rightarrow> encrypt_error" where
  "enc_write_error e = (case fault_take e of Inr f \<Rightarrow> enc_fault f | Inl e \<Rightarrow> EncIo e)"

text \<open>The loop of \<^verbatim>\<open>pump\<close>: one read, then all of it into the deflater.\<close>

partial_function (option) feed ::
    "'s reader \<Rightarrow> 'd writer \<Rightarrow> 's \<Rightarrow> 'd \<Rightarrow> ((encrypt_error + unit) \<times> 's \<times> 'd) option" where
  "feed rd wr s d =
    (case rd s chunk of
       None \<Rightarrow> None
     | Some (r, s') \<Rightarrow> (case r of
         Inl e \<Rightarrow> Some (Inl (EncIo e), s', d)
       | Inr bs \<Rightarrow>
           if bs = [] then Some (Inr (), s', d)
           else (case write_all wr d bs of
               None \<Rightarrow> None
             | Some (q, d') \<Rightarrow> (case q of
                 Inl e \<Rightarrow> Some (Inl (enc_write_error e), s', d')
               | Inr _ \<Rightarrow> feed rd wr s' d'))))"

declare feed.simps [code]

definition pump_all :: "host \<Rightarrow> 's reader \<Rightarrow> 'd writer \<Rightarrow> 's \<Rightarrow> 'd \<Rightarrow> ((encrypt_error + unit) \<times> 's \<times> 'd) option" where
  "pump_all h rd wr s d =
    (case chunk_buffer h chunk of Inl f \<Rightarrow> Some (Inl (enc_fault f), s, d) | Inr _ \<Rightarrow> feed rd wr s d)"

text \<open>The closure given the key: deflate and seal the input behind the IV, then the tag.\<close>

definition seal_input ::
    "('g, 'z, 'c, 'd, 'b) crates \<Rightarrow> host \<Rightarrow> ('w, 'x) zip_crate \<Rightarrow> 's reader \<Rightarrow> 's \<Rightarrow> bytes \<Rightarrow> bytes \<Rightarrow> nat \<Rightarrow> 'x
      \<Rightarrow> ((encrypt_error + unit) \<times> 'x) option" where
  "seal_input k h zc rd s key iv sz x =
    (case gcm_new (cr_gcm k) key iv of
       None \<Rightarrow> Some (Inl (EncInternal ''AES-256-GCM key''), x)
     | Some g \<Rightarrow>
    (case and_then (seal_new h g x) (deflate_adaptive (cr_deflate k) h) of
       Inl f \<Rightarrow> Some (Inl (enc_fault f), x)
     | Inr w \<Rightarrow>
    (let sealed = seal_write (cr_gcm k) (zc_write zc);
         deflated = deflate_write (cr_deflate k) (cr_density k) sealed in
     case pump_all h rd deflated s w of
       None \<Rightarrow> None
     | Some (Inl e, _, w') \<Rightarrow> Some (Inl e, snd (df_dst w'))
     | Some (Inr _, _, w') \<Rightarrow>
        if df_consumed w' \<noteq> sz
        then Some (Inl (EncInternal (''read '' @ dec_string (df_consumed w') @ '' bytes of a '' @ dec_string sz
               @ ''-byte input'')), snd (df_dst w'))
        else
         (case deflate_finish (cr_deflate k) (cr_density k) sealed w' of
            None \<Rightarrow> None
          | Some (Inl e, (_, x')) \<Rightarrow> Some (Inl (enc_write_error e), x')
          | Some (Inr _, sealer) \<Rightarrow>
              map_option (\<lambda>(q, x'). (map_err enc_write_error q, x')) (seal_finish (cr_gcm k) (zc_write zc) sealer)))))"

section \<open>The run\<close>

text \<open>
  What the caller's reader gives, in the order \<^verbatim>\<open>run\<close> asks: the directory \<^verbatim>\<open>classify\<close> reads, the seek back, the
  package opened again, its length by a seek to the end, the seek back, and the bytes from there.
\<close>

record 's plain_side =
  ps_classified :: "archive option"
  ps_seek :: "io_error option"
  ps_reopened :: "string + archive"
  ps_length :: "io_error + nat"
  ps_rewind :: "io_error option"
  ps_bytes :: 's
  ps_latch :: latch

definition seek_result :: "io_error option \<Rightarrow> encrypt_error + unit" where
  "seek_result e = (case e of Some e \<Rightarrow> Err (EncIo e) | None \<Rightarrow> Ok ())"

text \<open>Everything before the first byte is written: the refusals, the size, salt, IV, key and manifest.\<close>

record sealing =
  se_mimetype :: "string option"
  se_size :: nat
  se_iv :: bytes
  se_key :: bytes
  se_manifest :: "raw_event list"

definition over_ceiling :: "nat option \<Rightarrow> nat \<Rightarrow> encrypt_error + unit" where
  "over_ceiling ceiling sz = (case ceiling of
      Some c \<Rightarrow> if sz > c then Err (DeflateRefused (''input '' @ dec_string sz @ '' bytes exceeds ceiling '' @ dec_string c))
                else Ok ()
    | None \<Rightarrow> Ok ())"

definition prepare ::
    "crypto \<Rightarrow> host \<Rightarrow> (string \<Rightarrow> xml_event list) \<Rightarrow> entropy \<Rightarrow> 's plain_side \<Rightarrow> string \<Rightarrow> argon2_params \<Rightarrow> nat option
      \<Rightarrow> encrypt_error + sealing" where
  "prepare cr h xml_events rng src password ps ceiling =
    and_then (map_err EncClassify (classify_latched xml_events (ps_classified src))) (\<lambda>class.
    and_then (screen_input class) (\<lambda>_.
    and_then (seek_result (ps_seek src)) (\<lambda>_.
    and_then (map_err EncZip (ps_reopened src)) (\<lambda>archive.
    and_then (resolve_mimetype archive (cl_media_type class)) (\<lambda>mimetype.
    and_then (map_err EncIo (ps_length src)) (\<lambda>sz.
    and_then (seek_result (ps_rewind src)) (\<lambda>_.
    and_then (over_ceiling ceiling sz) (\<lambda>_.
    and_then (if int sz \<le> i64_max then Ok () else Err (EncInternal (''input of '' @ dec_string sz @ '' bytes''))) (\<lambda>_.
    and_then (random_bytes rng 0 (pf_salt_len wholesome_profile)) (\<lambda>salt.
    and_then (random_bytes rng 1 (pf_iv_len wholesome_profile)) (\<lambda>iv.
    and_then (derive_write_key cr h password salt ps) (\<lambda>key.
      Ok \<lparr>se_mimetype = mimetype, se_size = sz, se_iv = iv, se_key = key,
          se_manifest = build_manifest (int sz) iv salt mimetype ps\<rparr>))))))))))))"

text \<open>The three members.\<close>

definition payload_options :: "nat \<Rightarrow> nat \<Rightarrow> file_options" where
  "payload_options iv_len sz =
    (let worst = iv_len + aes_gcm_tag_len + deflate_bound sz in stored_options\<lparr>fo_large := u32_max \<le> worst\<rparr>)"

definition write_sealed ::
    "('g, 'z, 'c, 'd, 'b) crates \<Rightarrow> host \<Rightarrow> ('w, 'x) zip_crate \<Rightarrow> 's reader \<Rightarrow> 's \<Rightarrow> sealing \<Rightarrow> 'w
      \<Rightarrow> (encrypt_error + 'w) option" where
  "write_sealed k h zc rd s se w =
    out_step (start_file zc ''mimetype'' stored_options (zc_new zc w)) (\<lambda>_ x.
    out_step (write_out zc (case se_mimetype se of Some mt \<Rightarrow> as_bytes mt | None \<Rightarrow> []) x) (\<lambda>_ x.
    out_step (start_file zc encrypted_package (payload_options (length (se_iv se)) (se_size se)) x) (\<lambda>_ x.
    out_step (write_out zc (se_iv se) x) (\<lambda>_ x.
    out_step (seal_input k h zc rd s (se_key se) (se_iv se) (se_size se) x) (\<lambda>_ x.
    out_step (start_file zc manifest_path deflated_options x) (\<lambda>_ x.
    out_step (write_out zc (cr_xml_bytes k (se_manifest se)) x) (\<lambda>_ x.
    (case zc_finish zc x of (Inl e, _) \<Rightarrow> Some (Inl (to_zip e)) | (Inr _, w') \<Rightarrow> Some (Inr w')))))))))"

definition encrypt_run ::
    "('g, 'z, 'c, 'd, 'b) crates \<Rightarrow> host \<Rightarrow> (string \<Rightarrow> xml_event list) \<Rightarrow> entropy \<Rightarrow> ('w, 'x) zip_crate \<Rightarrow> 's reader
      \<Rightarrow> 's plain_side \<Rightarrow> 'w \<Rightarrow> string \<Rightarrow> argon2_params \<Rightarrow> nat option \<Rightarrow> (encrypt_error + 'w) option" where
  "encrypt_run k h xml_events rng zc rd src w password ps ceiling =
    (case prepare (cr_crypto k) h xml_events rng src password ps ceiling of
       Inl e \<Rightarrow> Some (Inl e)
     | Inr se \<Rightarrow> write_sealed k h zc rd (ps_bytes src) se w)"

definition encrypt_with_params_to ::
    "('g, 'z, 'c, 'd, 'b) crates \<Rightarrow> host \<Rightarrow> (string \<Rightarrow> xml_event list) \<Rightarrow> entropy \<Rightarrow> ('w, 'x) zip_crate \<Rightarrow> 's reader
      \<Rightarrow> 's plain_side \<Rightarrow> 'w \<Rightarrow> string \<Rightarrow> argon2_params \<Rightarrow> (encrypt_error + 'w) option" where
  "encrypt_with_params_to k h xml_events rng zc rd src w password ps =
    (if password = [] then Some (Inl EncEmptyPassword)
     else map_option (latch_result (ps_latch src) EncIo) (encrypt_run k h xml_events rng zc rd src w password ps None))"

definition encrypt_to ::
    "('g, 'z, 'c, 'd, 'b) crates \<Rightarrow> host \<Rightarrow> (string \<Rightarrow> xml_event list) \<Rightarrow> entropy \<Rightarrow> ('w, 'x) zip_crate \<Rightarrow> 's reader
      \<Rightarrow> 's plain_side \<Rightarrow> 'w \<Rightarrow> string \<Rightarrow> (encrypt_error + 'w) option" where
  "encrypt_to k h xml_events rng zc rd src w password =
    encrypt_with_params_to k h xml_events rng zc rd src w password libreoffice_default"

section \<open>The whole buffer\<close>

text \<open>
  \<^verbatim>\<open>encrypt_slice\<close>: the same run over a cursor, held to a ceiling.  \<^verbatim>\<open>open_zip\<close> is the zip crate's reading of the
  buffer, an error as its message.
\<close>

definition slice_side :: "(bytes \<Rightarrow> string + archive) \<Rightarrow> bytes \<Rightarrow> segment list plain_side" where
  "slice_side open_zip bs =
    \<lparr>ps_classified = (case open_zip bs of Inr archive \<Rightarrow> Some archive | Inl _ \<Rightarrow> None), ps_seek = None,
     ps_reopened = open_zip bs, ps_length = Inr (length bs), ps_rewind = None, ps_bytes = whole bs, ps_latch = None\<rparr>"

definition encrypt_slice ::
    "('g, 'z, 'c, 'd, 'b) crates \<Rightarrow> host \<Rightarrow> (string \<Rightarrow> xml_event list) \<Rightarrow> entropy \<Rightarrow> ('w, 'x) zip_crate
      \<Rightarrow> (bytes \<Rightarrow> string + archive) \<Rightarrow> 'w \<Rightarrow> bytes \<Rightarrow> string \<Rightarrow> argon2_params \<Rightarrow> nat \<Rightarrow> (encrypt_error + 'w) option" where
  "encrypt_slice k h xml_events rng zc open_zip w bs password ps ceiling =
    (if password = [] then Some (Inl EncEmptyPassword)
     else encrypt_run k h xml_events rng zc read_segments (slice_side open_zip bs) w password ps (Some ceiling))"

definition encrypt_with_params ::
    "('g, 'z, 'c, 'd, 'b) crates \<Rightarrow> host \<Rightarrow> (string \<Rightarrow> xml_event list) \<Rightarrow> entropy \<Rightarrow> ('w, 'x) zip_crate
      \<Rightarrow> (bytes \<Rightarrow> string + archive) \<Rightarrow> 'w \<Rightarrow> bytes \<Rightarrow> string \<Rightarrow> argon2_params \<Rightarrow> (encrypt_error + 'w) option" where
  "encrypt_with_params k h xml_events rng zc open_zip w bs password ps =
    encrypt_slice k h xml_events rng zc open_zip w bs password ps deflate_ceiling"

definition encrypt ::
    "('g, 'z, 'c, 'd, 'b) crates \<Rightarrow> host \<Rightarrow> (string \<Rightarrow> xml_event list) \<Rightarrow> entropy \<Rightarrow> ('w, 'x) zip_crate
      \<Rightarrow> (bytes \<Rightarrow> string + archive) \<Rightarrow> 'w \<Rightarrow> bytes \<Rightarrow> string \<Rightarrow> (encrypt_error + 'w) option" where
  "encrypt k h xml_events rng zc open_zip w bs password =
    encrypt_with_params k h xml_events rng zc open_zip w bs password libreoffice_default"

lemma prepare_under_ceiling:
  "ps_length src = Inr sz \<Longrightarrow> sz \<le> c \<Longrightarrow>
    prepare cr h xml_events rng src password ps (Some c) = prepare cr h xml_events rng src password ps None"
  by (simp add: prepare_def over_ceiling_def)

lemma latch_empty: "map_option (latch_result None io) r = r"
  by (cases r) (simp_all add: latch_result_def)

lemma slice_encrypts_as_stream:
  assumes "length bs \<le> ceiling"
  shows "encrypt_slice k h xml_events rng zc open_zip w bs password ps ceiling
    = encrypt_with_params_to k h xml_events rng zc read_segments (slice_side open_zip bs) w password ps"
proof -
  have len: "ps_length (slice_side open_zip bs) = Inr (length bs)" by (simp add: slice_side_def)
  have latch: "ps_latch (slice_side open_zip bs) = None" by (simp add: slice_side_def)
  show ?thesis
    by (simp add: encrypt_slice_def encrypt_with_params_to_def encrypt_run_def prepare_under_ceiling [OF len assms] latch
        latch_empty)
qed

end
