(* ===== verification/Encrypt_Result.thy ===== *)
theory Encrypt_Result
  imports Encrypt_Stream Zip_Round_Trip
begin

text \<open>
  What a successful encryption has written.  The sealing writer keeps the contract of \<^verbatim>\<open>Write\<close> over any writer
  that does, its data being the plaintext it was given; so the deflater over it, and the loop that feeds the
  deflater, are covered by their own lemmas.
\<close>

section \<open>The sealing writer is a writer\<close>

lemma xor_stream_take: "xor_stream f p (take k bs) = take k (xor_stream f p bs)"
proof -
  have "take k bs @ drop k bs = bs" by simp
  then have "xor_stream f p bs = xor_stream f p (take k bs) @ xor_stream f (p + length (take k bs)) (drop k bs)"
    using xor_stream_append [of f p "take k bs" "drop k bs"] by simp
  then show ?thesis by (cases "k \<le> length bs") simp_all
qed

lemma gcm_crypt_more:
  "gcm_crypt gl key iv (c @ xor_stream (keystream gl key (initial_counter iv)) (16 + length c) d) = gcm_crypt gl key iv c @ d"
  by (simp add: gcm_crypt_def xor_stream_append)

locale sealing = sink wr wgood written wpatience
  for wr :: "'w writer" and wgood written wpatience +
  fixes gl :: "'g gcm_lib" and key iv base :: bytes
begin

definition sealed_good :: "('g, 'w) sealer \<Rightarrow> bool" where
  "sealed_good gw \<longleftrightarrow> wgood (snd gw) \<and> (\<exists>c. written (snd gw) = base @ c \<and> gcm_at gl key iv (fst gw) c)"

definition sealed_plain :: "('g, 'w) sealer \<Rightarrow> bytes" where
  "sealed_plain gw = gcm_crypt gl key iv (drop (length base) (written (snd gw)))"

lemma seal_write_cases:
  assumes "sealed_good gw" "d \<noteq> []"
  obtains (ok) k gw' where "seal_write gl wr gw d = Some (Inr k, gw')" "sealed_good gw'" "k \<le> length d"
      "sealed_plain gw' = sealed_plain gw @ take k d" "wpatience (snd gw') \<le> wpatience (snd gw)"
    | (stop) e k gw' where "seal_write gl wr gw d = Some (Inl e, gw')" "e \<noteq> Interrupted" "k \<le> length d"
      "sealed_plain gw' = sealed_plain gw @ take k d"
proof -
  obtain g w where gw: "gw = (g, w)" by (cases gw)
  obtain c where c: "wgood w" "written w = base @ c" "gcm_at gl key iv g c"
    using assms(1) by (auto simp: sealed_good_def gw)
  define n where "n = min (length d) chunk"
  define ct where "ct = xor_stream (keystream gl key (initial_counter iv)) (16 + length c) (take n d)"
  define g' where "g' = snd (gcm_encrypt gl g (take n d))"
  have enc: "gcm_encrypt gl g (take n d) = (ct, g')" "gcm_at gl key iv g' (c @ ct)"
    using gcm_encrypt_at [OF c(3), of "take n d"] by (simp_all add: ct_def g'_def)
  have len: "length ct = n" by (simp add: ct_def n_def)
  have plain: "gcm_crypt gl key iv (c @ take j ct) = gcm_crypt gl key iv c @ take j (take n d)" for j
    unfolding ct_def xor_stream_take [symmetric] by (rule gcm_crypt_more)
  have call: "seal_write gl wr gw d = map_option (\<lambda>(q, w'). (map_sum id (\<lambda>_. n) q, (g', w'))) (write_all wr w ct)"
    using enc(1) by (simp add: seal_write_def gw Let_def flip: n_def split: option.split)
  show thesis
  proof (cases rule: write_all_cases [OF c(1), of ct, case_names ok stop])
    case (ok w')
    show thesis
    proof (rule that(1) [of n "(g', w')"])
      show "seal_write gl wr gw d = Some (Inr n, (g', w'))" using ok(1) by (simp add: call)
      show "sealed_good (g', w')" using ok c enc by (auto simp: sealed_good_def)
      show "sealed_plain (g', w') = sealed_plain gw @ take n d"
        using ok(3) c(2) plain [of n] len by (simp add: sealed_plain_def gw)
    qed (use ok gw in \<open>simp_all add: n_def\<close>)
  next
    case (stop e j w')
    show thesis
    proof (rule that(2) [of e "(g', w')" "min j n"])
      show "seal_write gl wr gw d = Some (Inl e, (g', w'))" using stop(1) by (simp add: call)
      show "sealed_plain (g', w') = sealed_plain gw @ take (min j n) d"
        using stop(3) c(2) plain [of j] by (simp add: sealed_plain_def gw min_def)
    qed (use stop in \<open>simp_all add: n_def\<close>)
  qed
qed

sublocale seal: sink "seal_write gl wr" sealed_good sealed_plain "\<lambda>gw. wpatience (snd gw)"
proof unfold_locales
  fix w :: "('g, 'w) sealer" and d :: bytes
  assume "sealed_good w" "d \<noteq> []"
  then show "\<exists>q w'. seal_write gl wr w d = Some (q, w')" by (cases rule: seal_write_cases) auto
next
  fix w w' :: "('g, 'w) sealer" and d :: bytes and k
  assume *: "sealed_good w" "d \<noteq> []" "seal_write gl wr w d = Some (Inr k, w')"
  show "sealed_good w' \<and> k \<le> length d \<and> sealed_plain w' = sealed_plain w @ take k d
      \<and> wpatience (snd w') \<le> wpatience (snd w)"
    by (cases rule: seal_write_cases [OF *(1,2)]) (use *(3) in auto)
next
  fix w w' :: "('g, 'w) sealer" and d :: bytes
  assume *: "sealed_good w" "d \<noteq> []" "seal_write gl wr w d = Some (Inl Interrupted, w')"
  show "sealed_good w' \<and> sealed_plain w' = sealed_plain w \<and> wpatience (snd w') < wpatience (snd w)"
    by (cases rule: seal_write_cases [OF *(1,2)]) (use *(3) in auto)
next
  fix w w' :: "('g, 'w) sealer" and d :: bytes and e
  assume *: "sealed_good w" "d \<noteq> []" "seal_write gl wr w d = Some (Inl e, w')"
  show "\<exists>k \<le> length d. sealed_plain w' = sealed_plain w @ take k d"
    by (cases rule: seal_write_cases [OF *(1,2)]) (use *(3) in auto)
qed

text \<open>The tag closes the ciphertext of everything the sealer was given.\<close>

lemma seal_finish_result:
  assumes "sealed_good gw"
  shows "\<exists>q w'. seal_finish gl wr gw = Some (q, w') \<and> (takes_all \<longrightarrow> q = Inr ())
    \<and> (q = Inr () \<longrightarrow> wgood w' \<and> written w' = base @ gcm_crypt gl key iv (sealed_plain gw)
         @ gcm_tag_of gl key iv (gcm_crypt gl key iv (sealed_plain gw)))"
proof -
  obtain g w where gw: "gw = (g, w)" by (cases gw)
  obtain c where c: "wgood w" "written w = base @ c" "gcm_at gl key iv g c"
    using assms by (auto simp: sealed_good_def gw)
  have same: "gcm_crypt gl key iv (sealed_plain gw) = c" using c(2) by (simp add: sealed_plain_def gw gcm_crypt_def)
  have tag: "gcm_tag gl g = gcm_tag_of gl key iv c" using c(3) gcm_tag_hashed by (auto simp: gcm_at_def)
  show ?thesis
    unfolding same
    by (cases rule: write_all_cases [OF c(1), of "gcm_tag gl g", case_names ok stop])
       (use c(2) tag in \<open>auto simp: seal_finish_def gw\<close>)
qed

end

interpretation sealed_sink: sealing sink_write "\<lambda>_. True" "\<lambda>w. w" "\<lambda>_. 0" gl key iv base
  for gl :: "'g gcm_lib" and key iv base
  by (rule sealing.intro) (rule sunk.sink_axioms)

section \<open>Feeding the deflater\<close>

locale feeding = src: source rd good content fate patience + deflate_over wr wgood written wpatience lib dec opened pending
  for rd :: "'s reader" and good content fate patience
    and wr :: "'w writer" and wgood written wpatience
    and lib :: "'c deflate_lib" and dec opened pending
begin

lemma feed_result:
  assumes "codec_documented lib dec opened pending" "good s" "writer_at base w taken"
  shows "\<exists>q s' w'. feed rd (deflate_write lib dense wr) s w = Some (q, s', w')
    \<and> (takes_all \<and> patience s = 0 \<and> fate s = None \<longrightarrow> q = Inr ())
    \<and> (q = Inr () \<longrightarrow> fate s = None \<and> writer_at base w' (taken @ content s)
         \<and> df_consumed w' = df_consumed w + length (content s))"
  using assms(2,3)
proof (induction "length (content s)" arbitrary: s w taken rule: less_induct)
  case less
  note unfold = feed.simps [of rd "deflate_write lib dense wr" s w]
  have chunk: "0 < chunk" by (simp add: chunk_def)
  obtain r s1 where step: "rd s chunk = Some (r, s1)" using src.returns [OF less(2) chunk] by blast
  show ?case
  proof (cases r)
    case (Inl e)
    have "\<not> (patience s = 0 \<and> fate s = None)"
      using src.interrupted [OF less(2) chunk] src.fails [OF less(2) chunk step [unfolded Inl]] step unfolding Inl by force
    then show ?thesis by (auto simp: unfold step Inl)
  next
    case (Inr d)
    note law = src.data [OF less(2) chunk step [unfolded Inr]]
    show ?thesis
    proof (cases "d = []")
      case True
      then show ?thesis using law less(3) by (auto simp: unfold step Inr)
    next
      case False
      obtain p w1 where wrote: "deflate_write lib dense wr w d = Some (p, w1)" "takes_all \<longrightarrow> p = Inr (length d)"
        "df_consumed w1 = df_consumed w + length d"
        "\<forall>k. p = Inr k \<longrightarrow> k = length d \<and> writer_at base w1 (taken @ d)"
        using deflate_write_result [OF assms(1) less(3), where dense = dense and d = d] by (elim exE conjE) (rule that)
      show ?thesis
      proof (cases p)
        case e: (Inl e)
        then have "e \<noteq> Interrupted" using wrote(1) deflate_write_not_interrupted by blast
        then have "write_all (deflate_write lib dense wr) w d = Some (Inl e, w1)"
          using False wrote(1) e by (simp add: write_all.simps [of _ w])
        moreover have "\<not> takes_all" using wrote(2) e by auto
        ultimately show ?thesis using False by (auto simp: unfold step Inr)
      next
        case k: (Inr k)
        then have w1: "k = length d" "writer_at base w1 (taken @ d)" using wrote(4) by auto
        have all: "write_all (deflate_write lib dense wr) w d = Some (Inr (), w1)"
          using False wrote(1) k w1(1) by (simp add: write_all.simps [of _ w])
        have shorter: "length (content s1) < length (content s)" using law False by (cases d) auto
        obtain q s' w' where rest: "feed rd (deflate_write lib dense wr) s1 w1 = Some (q, s', w')"
          "takes_all \<and> patience s1 = 0 \<and> fate s1 = None \<longrightarrow> q = Inr ()"
          "q = Inr () \<longrightarrow> fate s1 = None \<and> writer_at base w' ((taken @ d) @ content s1)
             \<and> df_consumed w' = df_consumed w1 + length (content s1)"
          using less(1) [OF shorter law [THEN conjunct1] w1(2)] by (elim exE conjE) (rule that)
        have now: "feed rd (deflate_write lib dense wr) s w = Some (q, s', w')"
          using False rest(1) by (simp add: unfold step Inr all)
        have same: "content s = d @ content s1" "fate s1 = fate s" "patience s1 \<le> patience s" using law by auto
        have free: "takes_all \<and> patience s = 0 \<and> fate s = None \<longrightarrow> q = Inr ()"
          using rest(2) same by auto
        have at_end: "q = Inr () \<longrightarrow> fate s = None \<and> writer_at base w' (taken @ content s)
            \<and> df_consumed w' = df_consumed w + length (content s)"
          using rest(3) same wrote(3) by auto
        show ?thesis
          by (intro exI [of _ q] exI [of _ s'] exI [of _ w'] conjI) (rule now, rule free, rule at_end)
      qed
    qed
  qed
qed

text \<open>A deflater just made, the whole input, and the end of the stream.\<close>

lemma adaptive_starts:
  assumes "codec_documented lib dec opened pending" "wgood dst" "deflate_adaptive lib h dst = Inr w"
  shows "writer_at (written dst) w [] \<and> df_consumed w = 0"
proof -
  have start: "opened (def_init lib) [] []"
    using assms(1) by (simp add: codec_documented_def deflate_documented_def)
  have "encodes (written dst) \<lparr>df_dst = dst, df_comp = def_init lib, df_consumed = 0, df_held = held\<rparr> cf []" for cf held
    unfolding encodes_def
    by (rule exI [of _ "[]"], rule exI [of _ "[]"], rule exI [of _ "[]"], rule exI [of _ "[]"])
       (simp add: start assms(2))
  then show ?thesis
    using assms(3) by (auto simp: deflate_new_def deflate_adaptive_def chunk_buffer_def writer_at_def chunk_def split: if_splits)
qed

end

interpretation feed_sink: feeding read_segments segments_good segments_content segments_fate segments_patience
    sink_write "\<lambda>_. True" "\<lambda>w. w" "\<lambda>_. 0" lib dec opened pending
  for lib :: "'c deflate_lib" and dec opened pending
  by (rule feeding.intro) (rule segs.source_axioms dsunk.deflate_over_axioms)+

section \<open>The payload\<close>

context sealing begin

lemma seal_takes_all: "takes_all \<Longrightarrow> seal.takes_all"
  unfolding seal.takes_all_def
proof (intro allI impI)
  fix gw :: "('g, 'w) sealer" and d :: bytes
  assume all: "takes_all" and "sealed_good gw"
  from this(2) show "\<exists>gw'. write_all (seal_write gl wr) gw d = Some (Inr (), gw')"
  proof (induction "length d" arbitrary: gw d rule: less_induct)
    case less
    show ?case
    proof (cases "d = []")
      case False
      obtain g w where gw: "gw = (g, w)" by (cases gw)
      define n where "n = min (length d) chunk"
      have n: "0 < n" using False by (simp add: n_def chunk_def)
      obtain ct g' where enc: "gcm_encrypt gl g (take n d) = (ct, g')" by (cases "gcm_encrypt gl g (take n d)")
      have "wgood w" using less(2) by (simp add: gw sealed_good_def)
      then obtain w' where w': "write_all wr w ct = Some (Inr (), w')" using all by (auto simp: takes_all_def)
      have one: "seal_write gl wr gw d = Some (Inr n, (g', w'))"
        using enc w' by (simp add: seal_write_def gw Let_def flip: n_def)
      have "sealed_good (g', w')" using seal.took [OF less(2) False one] by blast
      moreover have "length (drop n d) < length d" using n False by simp
      ultimately obtain gw' where "write_all (seal_write gl wr) (g', w') (drop n d) = Some (Inr (), gw')"
        using less(1) by blast
      then show ?thesis using False n one by (simp add: write_all.simps [of _ gw])
    qed simp
  qed
qed

end

locale sealing_feed = src: source rd good content fate patience + sealing wr wgood written wpatience gl key iv base
  for rd :: "'s reader" and good content fate patience
    and wr :: "'w writer" and wgood written wpatience
    and gl :: "'g gcm_lib" and key iv base +
  fixes lib :: "'c deflate_lib" and dec :: decoder and opened :: "'c \<Rightarrow> bytes \<Rightarrow> bytes \<Rightarrow> bool" and pending :: "'c \<Rightarrow> nat"
begin

sublocale fd: feeding rd good content fate patience "seal_write gl wr" sealed_good sealed_plain
    "\<lambda>gw. wpatience (snd gw)" lib dec opened pending
  by unfold_locales

lemma seal_input_result:
  assumes "codec_documented lib dec opened pending" "good s" "wgood x" "written x = base"
    and "zc_write zc = wr" "cr_gcm k = gl" "cr_deflate k = lib"
  shows "\<exists>q x'. seal_input k h zc rd s key iv sz x = Some (q, x')
    \<and> (takes_all \<and> patience s = 0 \<and> fate s = None \<and> (\<forall>n. host_reserves h n) \<and> gcm_sizes key iv
         \<and> length (content s) = sz \<longrightarrow> q = Inr ())
    \<and> (q = Inr () \<longrightarrow> fate s = None \<and> length (content s) = sz \<and> gcm_sizes key iv
         \<and> (\<exists>out. dec [] out = Some (content s, length out) \<and> wgood x'
              \<and> written x' = base @ gcm_crypt gl key iv out @ gcm_tag_of gl key iv (gcm_crypt gl key iv out)))"
proof (cases "gcm_new gl key iv")
  case None
  then show ?thesis using gcm_new_None [of gl key iv] by (simp add: seal_input_def assms(6))
next
  case (Some g)
  have sizes: "gcm_sizes key iv" using Some gcm_new_None [of gl key iv] by auto
  have at0: "gcm_at gl key iv g []" using gcm_new_starts [OF Some] .
  have good0: "sealed_good (g, x)" "sealed_plain (g, x) = []"
    using at0 assms(3,4) by (auto simp: sealed_good_def sealed_plain_def gcm_crypt_def)
  show ?thesis
  proof (cases "and_then (seal_new h g x) (deflate_adaptive lib h)")
    case (Inl f)
    then show ?thesis using sizes
      by (auto simp: seal_input_def Some assms(6,7) seal_new_def deflate_adaptive_def deflate_new_def chunk_buffer_def
          split: if_splits)
  next
    case (Inr w)
    then have w: "deflate_adaptive lib h (g, x) = Inr w" "host_reserves h chunk"
      by (auto simp: seal_new_def chunk_buffer_def split: if_splits)
    have start: "fd.writer_at [] w []" "df_consumed w = 0"
      using fd.adaptive_starts [OF assms(1) good0(1) w(1)] good0(2) by simp_all
    obtain q s' w' where fed: "feed rd (deflate_write lib (cr_density k) (seal_write gl wr)) s w = Some (q, s', w')"
      "seal.takes_all \<and> patience s = 0 \<and> fate s = None \<longrightarrow> q = Inr ()"
      "q = Inr () \<longrightarrow> fate s = None \<and> fd.writer_at [] w' ([] @ content s)
         \<and> df_consumed w' = df_consumed w + length (content s)"
      using fd.feed_result [OF assms(1,2) start(1), where dense = "cr_density k"] by (elim exE conjE) (rule that)
    have pump: "pump_all h rd (deflate_write lib (cr_density k) (seal_write gl wr)) s w = Some (q, s', w')"
      using w(2) fed(1) by (simp add: pump_all_def chunk_buffer_def)
    note unfold = seal_input_def [of k h zc rd s key iv sz x, unfolded assms(5-7), simplified Some option.case Inr sum.case
        Let_def pump prod.case]
    show ?thesis
    proof (cases q)
      case (Inl e)
      then show ?thesis using fed(2) seal_takes_all by (auto simp: unfold)
    next
      case u: (Inr u)
      then have now: "fate s = None" "fd.writer_at [] w' (content s)" "df_consumed w' = length (content s)"
        using fed(3) start(2) by simp_all
      show ?thesis
      proof (cases "length (content s) = sz")
        case False
        then show ?thesis using u now(3) by (auto simp: unfold)
      next
        case True
        obtain q2 gw where fin: "deflate_finish lib (cr_density k) (seal_write gl wr) w' = Some (q2, gw)"
          "seal.takes_all \<longrightarrow> q2 = Inr ()"
          "\<forall>u. q2 = Inr u \<longrightarrow> (\<exists>out. sealed_good gw \<and> sealed_plain gw = [] @ out \<and> dec [] out = Some (content s, length out))"
          using fd.deflate_finish_result [OF assms(1) now(2), where dense = "cr_density k"] by (elim exE conjE) (rule that)
        show ?thesis
        proof (cases q2)
          case (Inl e)
          then show ?thesis using u True now(3) fin(1,2) seal_takes_all by (cases gw) (auto simp: unfold)
        next
          case v: (Inr v)
          then obtain out where out: "sealed_good gw" "sealed_plain gw = out" "dec [] out = Some (content s, length out)"
            using fin(3) by auto
          obtain q3 x' where tag: "seal_finish gl wr gw = Some (q3, x')" "takes_all \<longrightarrow> q3 = Inr ()"
            "q3 = Inr () \<longrightarrow> wgood x' \<and> written x' = base @ gcm_crypt gl key iv out @ gcm_tag_of gl key iv (gcm_crypt gl key iv out)"
            using seal_finish_result [OF out(1)] unfolding out(2) by blast
          have run: "seal_input k h zc rd s key iv sz x = Some (map_err enc_write_error q3, x')"
            using u True now(3) fin(1) v tag(1) by (simp add: unfold)
          show ?thesis
            using tag(2,3) sizes now(1) True out(3) by (cases q3) (auto simp: run)
        qed
      qed
    qed
  qed
qed

end

interpretation sealed_feed_sink: sealing_feed read_segments segments_good segments_content segments_fate segments_patience
    sink_write "\<lambda>_. True" "\<lambda>w. w" "\<lambda>_. 0" gl key iv base lib dec opened pending
  for gl :: "'g gcm_lib" and key iv base and lib :: "'c deflate_lib" and dec opened pending
  by (rule sealing_feed.intro) (rule segs.source_axioms sealed_sink.sealing_axioms)+

section \<open>The zip crate's writer, as documented\<close>

text \<open>
  \<^verbatim>\<open>members x\<close> is what the writer holds so far, in order, and \<^verbatim>\<open>archived w\<close> what a reader finds in a finished
  output.  A member is begun empty; a write extends the last one, as \<^verbatim>\<open>Write\<close> allows; \<^verbatim>\<open>finish\<close> keeps them all.
\<close>

type_synonym zmember = "string \<times> file_options \<times> bytes"

definition write_documented ::
    "('w, 'x) zip_crate \<Rightarrow> ('x \<Rightarrow> bool) \<Rightarrow> ('x \<Rightarrow> zmember list) \<Rightarrow> ('x \<Rightarrow> nat) \<Rightarrow> bool" where
  "write_documented zc xgood members calm \<longleftrightarrow> (\<forall>x ms n o' b d. xgood x \<longrightarrow> members x = ms @ [(n, o', b)] \<longrightarrow> d \<noteq> [] \<longrightarrow>
     (\<exists>q x' j. zc_write zc x d = Some (q, x') \<and> j \<le> length d \<and> members x' = ms @ [(n, o', b @ take j d)]
       \<and> (case q of Inr i \<Rightarrow> i = j \<and> xgood x' \<and> calm x' \<le> calm x
          | Inl e \<Rightarrow> e = Interrupted \<longrightarrow> xgood x' \<and> j = 0 \<and> calm x' < calm x)))"

definition zip_documented ::
    "('w, 'x) zip_crate \<Rightarrow> ('x \<Rightarrow> bool) \<Rightarrow> ('x \<Rightarrow> zmember list) \<Rightarrow> ('w \<Rightarrow> zmember list) \<Rightarrow> ('x \<Rightarrow> nat) \<Rightarrow> bool" where
  "zip_documented zc xgood members archived calm \<longleftrightarrow>
     (\<forall>w. xgood (zc_new zc w) \<and> members (zc_new zc w) = [])
   \<and> (\<forall>n o' x x'. xgood x \<longrightarrow> zc_start zc n o' x = (Inr (), x') \<longrightarrow> xgood x' \<and> members x' = members x @ [(n, o', [])])
   \<and> write_documented zc xgood members calm
   \<and> (\<forall>x w'. xgood x \<longrightarrow> zc_finish zc x = (Inr (), w') \<longrightarrow> archived w' = members x)"

text \<open>
  A writer that refuses nothing: the recorder of the example below.  The zip crate's own refuses a name it has
  already and a member past 4 GiB begun without \<^verbatim>\<open>large_file\<close>, so this is no part of its contract, and only the
  example's run rests on it.
\<close>

definition refuses_nothing :: "('w, 'x) zip_crate \<Rightarrow> bool" where
  "refuses_nothing zc \<longleftrightarrow> (\<forall>n o' x. fst (zc_start zc n o' x) = Inr ()) \<and> (\<forall>x. fst (zc_finish zc x) = Inr ())
     \<and> (\<forall>x d. \<exists>x'. zc_write zc x d = Some (Inr (length d), x'))"

definition on_member :: "('x \<Rightarrow> bool) \<Rightarrow> ('x \<Rightarrow> zmember list) \<Rightarrow> zmember list \<Rightarrow> string \<Rightarrow> file_options \<Rightarrow> 'x \<Rightarrow> bool" where
  "on_member xgood members ms n o' x \<longleftrightarrow> xgood x \<and> (\<exists>b. members x = ms @ [(n, o', b)])"

definition member_body :: "('x \<Rightarrow> zmember list) \<Rightarrow> 'x \<Rightarrow> bytes" where
  "member_body members x = snd (snd (last (members x)))"

lemma zip_sink:
  assumes "write_documented zc xgood members calm"
  shows "sink (zc_write zc) (on_member xgood members ms n o') (member_body members) calm"
proof
  have law: "\<exists>q x' j. zc_write zc x d = Some (q, x') \<and> j \<le> length d \<and> members x' = ms @ [(n, o', b @ take j d)]
       \<and> (case q of Inr i \<Rightarrow> i = j \<and> xgood x' \<and> calm x' \<le> calm x
          | Inl e \<Rightarrow> e = Interrupted \<longrightarrow> xgood x' \<and> j = 0 \<and> calm x' < calm x)"
    if "xgood x" "members x = ms @ [(n, o', b)]" "d \<noteq> []" for x b d
    using assms that unfolding write_documented_def by blast
  fix w :: 'b and d :: bytes
  assume "on_member xgood members ms n o' w" and d: "d \<noteq> []"
  then obtain b where b: "xgood w" "members w = ms @ [(n, o', b)]" by (auto simp: on_member_def)
  obtain q x' j where step: "zc_write zc w d = Some (q, x')" "j \<le> length d" "members x' = ms @ [(n, o', b @ take j d)]"
    "case q of Inr i \<Rightarrow> i = j \<and> xgood x' \<and> calm x' \<le> calm w
       | Inl e \<Rightarrow> e = Interrupted \<longrightarrow> xgood x' \<and> j = 0 \<and> calm x' < calm w"
    using law [OF b d] by (elim exE conjE) (rule that)
  have body: "member_body members w = b" "member_body members x' = b @ take j d"
    by (simp_all add: member_body_def b(2) step(3))
  show "\<exists>q w'. zc_write zc w d = Some (q, w')" using step(1) by blast
  show "zc_write zc w d = Some (Inr k, w') \<Longrightarrow> on_member xgood members ms n o' w' \<and> k \<le> length d
      \<and> member_body members w' = member_body members w @ take k d \<and> calm w' \<le> calm w" for k w'
    using step b body by (auto simp: on_member_def)
  show "zc_write zc w d = Some (Inl Interrupted, w') \<Longrightarrow> on_member xgood members ms n o' w'
      \<and> member_body members w' = member_body members w \<and> calm w' < calm w" for w'
    using step b body by (auto simp: on_member_def)
  show "zc_write zc w d = Some (Inl e, w') \<Longrightarrow>
      \<exists>k \<le> length d. member_body members w' = member_body members w @ take k d" for e w'
    using step body by auto
qed

lemma start_file_cases:
  assumes "zip_documented zc xgood members archived calm" "xgood x"
  obtains (ok) x' where "start_file zc n o' x = Some (Inr (), x')" "on_member xgood members (members x) n o' x'"
      "members x' = members x @ [(n, o', [])]"
    | (stop) e x' where "start_file zc n o' x = Some (Inl e, x')" "\<not> refuses_nothing zc"
proof (cases "zc_start zc n o' x")
  case (Pair q x')
  show thesis
  proof (cases q)
    case (Inl e)
    then have "\<not> refuses_nothing zc" using Pair by (auto simp: refuses_nothing_def) (metis fst_conv sum.distinct(1))
    then show thesis using that(2) Pair Inl by (simp add: start_file_def)
  next
    case (Inr u)
    then have "xgood x' \<and> members x' = members x @ [(n, o', [])]"
      using assms Pair by (simp add: zip_documented_def)
    then show thesis using that(1) Pair Inr by (simp add: start_file_def on_member_def)
  qed
qed

lemma zip_takes_all:
  assumes "write_documented zc xgood members calm" "refuses_nothing zc" "on_member xgood members ms n o' x"
  shows "\<exists>x'. write_all (zc_write zc) x d = Some (Inr (), x')"
proof (cases "d = []")
  case False
  obtain x' where "zc_write zc x d = Some (Inr (length d), x')" using assms(2) unfolding refuses_nothing_def by blast
  then show ?thesis using False by (simp add: write_all.simps [of _ x])
qed simp

lemma write_out_cases:
  assumes "zip_documented zc xgood members archived calm" "on_member xgood members ms n o' x"
  obtains (ok) x' where "write_out zc d x = Some (Inr (), x')" "on_member xgood members ms n o' x'"
      "member_body members x' = member_body members x @ d"
    | (stop) e x' where "write_out zc d x = Some (Inl e, x')" "\<not> refuses_nothing zc"
proof -
  have doc: "write_documented zc xgood members calm" using assms(1) by (simp add: zip_documented_def)
  show thesis
  proof (cases rule: sink.write_all_cases [OF zip_sink [OF doc] assms(2), of d, case_names ok stop])
    case (ok w')
    then show thesis using that(1) by (simp add: write_out_def)
  next
    case (stop e k w')
    then have "\<not> refuses_nothing zc" using zip_takes_all [OF doc _ assms(2), of d] by auto
    then show thesis using that(2) stop by (simp add: write_out_def)
  qed
qed

lemma on_member_at: "on_member xgood members ms n o' x \<Longrightarrow> members x = ms @ [(n, o', member_body members x)] \<and> xgood x"
  by (auto simp: on_member_def member_body_def)

section \<open>The three members\<close>

definition payload :: "'g gcm_lib \<Rightarrow> bytes \<Rightarrow> bytes \<Rightarrow> bytes \<Rightarrow> bytes" where
  "payload gl key iv out = iv @ gcm_crypt gl key iv out @ gcm_tag_of gl key iv (gcm_crypt gl key iv out)"

definition sealed_members ::
    "('g, 'z, 'c, 'd, 'b) crates \<Rightarrow> sealing \<Rightarrow> bytes \<Rightarrow> zmember list" where
  "sealed_members k se out =
    [(''mimetype'', stored_options, case se_mimetype se of Some mt \<Rightarrow> as_bytes mt | None \<Rightarrow> []),
     (encrypted_package, payload_options (length (se_iv se)) (se_size se), payload (cr_gcm k) (se_key se) (se_iv se) out),
     (manifest_path, deflated_options, cr_xml_bytes k (se_manifest se))]"

lemma seal_input_cases:
  assumes "zip_documented zc xgood members archived calm" "codec_documented (cr_deflate k) dec compressing pending"
    and "segments_good ss" "on_member xgood members ms n o' x" "member_body members x = iv"
  obtains (ok) x' out where "seal_input k h zc read_segments ss key iv sz x = Some (Inr (), x')"
      "on_member xgood members ms n o' x'" "member_body members x' = payload (cr_gcm k) key iv out"
      "dec [] out = Some (segments_content ss, length out)" "segments_fate ss = None" "length (segments_content ss) = sz"
      "gcm_sizes key iv"
    | (stop) e x' where "seal_input k h zc read_segments ss key iv sz x = Some (Inl e, x')"
      "\<not> (refuses_nothing zc \<and> segments_patience ss = 0 \<and> segments_fate ss = None \<and> (\<forall>n. host_reserves h n)
          \<and> gcm_sizes key iv \<and> length (segments_content ss) = sz)"
proof -
  have doc: "write_documented zc xgood members calm" using assms(1) by (simp add: zip_documented_def)
  note zs = zip_sink [OF doc, of ms n o']
  have all: "refuses_nothing zc \<Longrightarrow> sink.takes_all (zc_write zc) (on_member xgood members ms n o')"
    using zip_takes_all [OF doc] by (simp add: sink.takes_all_def [OF zs])
  obtain q x' where run: "seal_input k h zc read_segments ss key iv sz x = Some (q, x')"
    "sink.takes_all (zc_write zc) (on_member xgood members ms n o') \<and> segments_patience ss = 0
       \<and> segments_fate ss = None \<and> (\<forall>n. host_reserves h n) \<and> gcm_sizes key iv \<and> length (segments_content ss) = sz
       \<longrightarrow> q = Inr ()"
    "q = Inr () \<longrightarrow> segments_fate ss = None \<and> length (segments_content ss) = sz \<and> gcm_sizes key iv
       \<and> (\<exists>out. dec [] out = Some (segments_content ss, length out) \<and> on_member xgood members ms n o' x'
            \<and> member_body members x' = iv @ gcm_crypt (cr_gcm k) key iv out
                @ gcm_tag_of (cr_gcm k) key iv (gcm_crypt (cr_gcm k) key iv out))"
    using sealing_feed.seal_input_result [OF sealing_feed.intro [OF segs.source_axioms sealing.intro [OF zs]]
        assms(2,3,4,5) refl refl refl, where h = h and sz = sz and key = key and iv = iv]
    by (elim exE conjE) (rule that)
  show thesis
  proof (cases q)
    case (Inl e)
    then show thesis using that(2) run(1,2) all by auto
  next
    case (Inr u)
    then show thesis using that(1) run(1,3) by (auto simp: payload_def)
  qed
qed

lemma write_sealed_result:
  assumes doc: "zip_documented zc xgood members archived calm" and codec: "codec_documented (cr_deflate k) dec compressing pending"
    and ss: "segments_good ss"
  obtains (ok) w' out where "write_sealed k h zc read_segments ss se w = Some (Inr w')"
      "archived w' = sealed_members k se out" "dec [] out = Some (segments_content ss, length out)"
      "segments_fate ss = None" "length (segments_content ss) = se_size se" "gcm_sizes (se_key se) (se_iv se)"
    | (stop) e where "write_sealed k h zc read_segments ss se w = Some (Inl e)"
      "\<not> (refuses_nothing zc \<and> segments_patience ss = 0 \<and> segments_fate ss = None \<and> (\<forall>n. host_reserves h n)
          \<and> gcm_sizes (se_key se) (se_iv se) \<and> length (segments_content ss) = se_size se)"
proof -
  define mt where "mt = (case se_mimetype se of Some mt \<Rightarrow> as_bytes mt | None \<Rightarrow> [])"
  define opts where "opts = payload_options (length (se_iv se)) (se_size se)"
  define mb where "mb = cr_xml_bytes k (se_manifest se)"
  note unfold = write_sealed_def [of k h zc read_segments ss se w, folded mt_def opts_def mb_def] out_step_def
  note on = on_member_at
  have x0: "xgood (zc_new zc w)" "members (zc_new zc w) = []" using doc by (auto simp: zip_documented_def)
  have unreliable: thesis if "\<not> refuses_nothing zc" "write_sealed k h zc read_segments ss se w = Some (Inl e)" for e
    using stop [OF that(2)] that(1) by blast
  show thesis
  proof (cases rule: start_file_cases [OF doc x0(1), of "''mimetype''" stored_options, case_names ok1 stop1])
    case (stop1 e x1)
    then show thesis by (intro unreliable) (auto simp: unfold)
  next
    case (ok1 x1)
    show thesis
    proof (cases rule: write_out_cases [OF doc ok1(2), of mt, case_names ok2 stop2])
      case (stop2 e x2)
      then show thesis using ok1 by (intro unreliable) (auto simp: unfold)
    next
      case (ok2 x2)
      have m2: "members x2 = [(''mimetype'', stored_options, mt)]" "xgood x2"
        using on [OF ok2(2)] ok2(3) ok1(3) x0(2) by (simp_all add: member_body_def)
      show thesis
      proof (cases rule: start_file_cases [OF doc m2(2), of encrypted_package opts, case_names ok3 stop3])
        case (stop3 e x3)
        then show thesis using ok1 ok2 by (intro unreliable) (auto simp: unfold)
      next
        case (ok3 x3)
        show thesis
        proof (cases rule: write_out_cases [OF doc ok3(2), of "se_iv se", case_names ok4 stop4])
          case (stop4 e x4)
          then show thesis using ok1 ok2 ok3 by (intro unreliable) (auto simp: unfold)
        next
          case (ok4 x4)
          have b4: "member_body members x4 = se_iv se" using ok4(3) ok3(3) by (simp add: member_body_def)
          show thesis
          proof (cases rule: seal_input_cases [OF doc codec ss ok4(2) b4, of h "se_key se" "se_size se", case_names ok5 stop5])
            case (stop5 e x5)
            then show thesis using ok1 ok2 ok3 ok4 by (intro stop) (auto simp: unfold)
          next
            case (ok5 x5 out)
            have m5: "members x5 = [(''mimetype'', stored_options, mt),
                (encrypted_package, opts, payload (cr_gcm k) (se_key se) (se_iv se) out)]" "xgood x5"
              using on [OF ok5(2)] ok5(3) m2(1) by simp_all
            show thesis
            proof (cases rule: start_file_cases [OF doc m5(2), of manifest_path deflated_options, case_names ok6 stop6])
              case (stop6 e x6)
              then show thesis using ok1 ok2 ok3 ok4 ok5 by (intro unreliable) (auto simp: unfold)
            next
              case (ok6 x6)
              show thesis
              proof (cases rule: write_out_cases [OF doc ok6(2), of mb, case_names ok7 stop7])
                case (stop7 e x7)
                then show thesis using ok1 ok2 ok3 ok4 ok5 ok6 by (intro unreliable) (auto simp: unfold)
              next
                case (ok7 x7)
                have m7: "members x7 = sealed_members k se out" "xgood x7"
                  using on [OF ok7(2)] ok7(3) ok6(3) m5(1)
                  by (simp_all add: sealed_members_def member_body_def mt_def opts_def mb_def)
                have run: "write_sealed k h zc read_segments ss se w =
                    (case zc_finish zc x7 of (Inl e, _) \<Rightarrow> Some (Inl (to_zip e)) | (Inr _, w') \<Rightarrow> Some (Inr w'))"
                  using ok1 ok2 ok3 ok4 ok5 ok6 ok7 by (simp add: unfold)
                show thesis
                proof (cases "zc_finish zc x7")
                  case (Pair q w')
                  show thesis
                  proof (cases q)
                    case (Inl e)
                    then have "\<not> refuses_nothing zc" using Pair unfolding refuses_nothing_def by (metis fst_conv sum.distinct(1))
                    then show thesis using Pair Inl run by (intro unreliable) auto
                  next
                    case (Inr u)
                    then have "archived w' = members x7" using doc m7(2) Pair by (auto simp: zip_documented_def)
                    then show thesis using ok [of w' out] run Pair Inr m7(1) ok5 by auto
                  qed
                qed
              qed
            qed
          qed
        qed
      qed
    qed
  qed
qed

section \<open>What a run prepares\<close>

definition prepared ::
    "crypto \<Rightarrow> host \<Rightarrow> (string \<Rightarrow> xml_event list) \<Rightarrow> entropy \<Rightarrow> 's plain_side \<Rightarrow> string \<Rightarrow> argon2_params \<Rightarrow> sealing
      \<Rightarrow> classification \<Rightarrow> archive \<Rightarrow> bytes \<Rightarrow> bool" where
  "prepared cr h xml_events rng src password ps se class archive salt \<longleftrightarrow>
     classify_latched xml_events (ps_classified src) = Inr class \<and> cl_mode class = Plain \<and> \<not> cl_odf12_fatal class
   \<and> ps_seek src = None \<and> ps_rewind src = None \<and> ps_reopened src = Inr archive
   \<and> resolve_mimetype archive (cl_media_type class) = Inr (se_mimetype se) \<and> ps_length src = Inr (se_size se)
   \<and> int (se_size se) \<le> i64_max \<and> rng 0 16 = Inr salt \<and> rng 1 12 = Inr (se_iv se)
   \<and> derive_write_key cr h password salt ps = Inr (se_key se)
   \<and> se_manifest se = build_manifest (int (se_size se)) (se_iv se) salt (se_mimetype se) ps"

lemma screen_input_Ok [simp]: "screen_input c = Inr u \<longleftrightarrow> cl_mode c = Plain \<and> \<not> cl_odf12_fatal c"
  by (simp add: screen_input_def)

lemma seek_result_Ok [simp]: "seek_result e = Inr u \<longleftrightarrow> e = None"
  by (simp add: seek_result_def split: option.split)

lemma prepare_Ok:
  "prepare cr h xml_events rng src password ps None = Inr se
    \<longleftrightarrow> (\<exists>class archive salt. prepared cr h xml_events rng src password ps se class archive salt)"
  by (cases se) (auto simp: prepare_def prepared_def over_ceiling_def random_bytes_def wholesome_profile_def and_then_Ok
      map_err_Ok split: if_splits)

lemma encryption_succeeds:
  assumes "zip_documented zc xgood members archived calm" "codec_documented (cr_deflate k) dec compressing pending"
    and "refuses_nothing zc" "crypto_documented (cr_crypto k)" "\<forall>n. host_reserves h n \<and> host_spawns h n"
    and "segments_good (ps_bytes src)" "segments_fate (ps_bytes src) = None" "segments_patience (ps_bytes src) = 0"
    and "ps_length src = Inr (length (segments_content (ps_bytes src)))"
    and "int (length (segments_content (ps_bytes src))) \<le> i64_max"
    and "ps_seek src = None" "ps_rewind src = None" "ps_latch src = None" "password \<noteq> []"
    and "classify_latched xml_events (ps_classified src) = Inr class" "cl_mode class = Plain" "\<not> cl_odf12_fatal class"
    and "ps_reopened src = Inr archive" "resolve_mimetype archive (cl_media_type class) = Inr mimetype"
    and "rng 0 16 = Inr salt" "length salt = 16" "rng 1 12 = Inr iv" "length iv = 12" "argon2_new t m p = Inr ps"
  shows "\<exists>w'. encrypt_with_params_to k h xml_events rng zc read_segments src w password ps = Some (Inr w')"
proof -
  have salt: "length salt = pf_salt_len wholesome_profile" using assms(21) by (simp add: wholesome_profile_def)
  obtain key where key: "derive_write_key (cr_crypto k) h password salt ps = Inr key" "length key = 32"
    using write_key_derived [OF assms(4,24) salt assms(5), of password] by blast
  define se where "se = \<lparr>se_mimetype = mimetype, se_size = length (segments_content (ps_bytes src)), se_iv = iv,
     se_key = key, se_manifest = build_manifest (int (length (segments_content (ps_bytes src)))) iv salt mimetype ps\<rparr>"
  have "prepared (cr_crypto k) h xml_events rng src password ps se class archive salt"
    unfolding prepared_def se_def sealing.select_convs using assms(9-12,15-20,22) key(1) by blast
  then have se: "prepare (cr_crypto k) h xml_events rng src password ps None = Inr se" unfolding prepare_Ok by blast
  have sizes: "gcm_sizes (se_key se) (se_iv se)" using key(2) assms(23) by (simp add: se_def gcm_sizes_def)
  have hosts: "\<forall>n. host_reserves h n" using assms(5) by blast
  have size: "length (segments_content (ps_bytes src)) = se_size se" by (simp add: se_def)
  have "\<exists>w'. write_sealed k h zc read_segments (ps_bytes src) se w = Some (Inr w')"
  proof (cases rule: write_sealed_result [OF assms(1,2,6), of h se w, case_names ok stop])
    case (stop e)
    then show ?thesis using assms(3,7,8) hosts sizes size by blast
  qed blast
  then show ?thesis
    using assms(13,14) by (auto simp: encrypt_with_params_to_def encrypt_run_def se latch_result_def)
qed

definition list_zip :: "(zmember list, zmember list) zip_crate" where
  "list_zip = \<lparr>zc_new = (\<lambda>w. []), zc_start = (\<lambda>n o' x. (Inr (), x @ [(n, o', [])])),
     zc_write = (\<lambda>x d. Some (Inr (length d), (if x = [] then x
        else butlast x @ [(fst (last x), fst (snd (last x)), snd (snd (last x)) @ d)]))),
     zc_finish = (\<lambda>x. (Inr (), x))\<rparr>"

lemma list_zip_documented: "zip_documented list_zip (\<lambda>_. True) id id (\<lambda>_. 0)" "refuses_nothing list_zip"
  by (auto simp: zip_documented_def write_documented_def refuses_nothing_def list_zip_def)

definition counting_rng :: entropy where "counting_rng k n = Inr (replicate n (of_nat k))"

definition sample_plain :: "segment list plain_side" where
  "sample_plain = \<lparr>ps_classified = Some sample_archive, ps_seek = None, ps_reopened = Inr sample_archive,
     ps_length = Inr 3, ps_rewind = None, ps_bytes = whole [1, 2, 3], ps_latch = None\<rparr>"

lemma sample_is_plain:
  "\<exists>c. classify_latched (\<lambda>_. []) (Some sample_archive) = Inr c \<and> cl_mode c = Plain \<and> \<not> cl_odf12_fatal c
    \<and> resolve_mimetype sample_archive (cl_media_type c) = Inr (cl_media_type c)"
proof -
  have "read_named_member sample_archive [sample_member] manifest_path = Inr (Some ''x'')"
    by (simp add: read_named_member_def sample_member_def member_matches_path_def by_index_def
        sample_archive_def sample_entry_def read_taken_def manifest_read_cap_def)
  moreover have "read_mimetype sample_archive [sample_member] manifest_only_tree = Inr None"
    by (simp add: read_mimetype_def root_has_entry_def manifest_only_tree_def child_def)
  moreover have "resolve_mimetype sample_archive mt = Inr mt" for mt
    by (simp add: resolve_mimetype_def read_input_mimetype_member_def by_mimetype_name_def sample_archive_def
        sample_entry_def)
  ultimately show ?thesis using sample_members sample_built
    by (simp add: classify_latched_def sample_member_def parse_manifest_def import_new_def stage_b_def
        stage_mimetype_def stage_init_def Let_def root_meta_def manifest_only_tree_def default_meta_def version_ge_12_def)
qed

lemma sample_codec:
  "codec_documented (cr_deflate sample_crates) stored_dec (\<lambda>c x e. closes stored_dec x e) (\<lambda>_. 0)"
  using stored_deflate_documented stored_dec_documented by (simp add: sample_crates_def codec_documented_def)

lemma sample_encrypts:
  "\<exists>w'. encrypt_with_params_to sample_crates rich_host (\<lambda>_. []) counting_rng list_zip read_segments sample_plain []
      ''pw'' libreoffice_default = Some (Inr w')"
proof -
  obtain c where c: "classify_latched (\<lambda>_. []) (ps_classified sample_plain) = Inr c" "cl_mode c = Plain"
    "\<not> cl_odf12_fatal c" "resolve_mimetype sample_archive (cl_media_type c) = Inr (cl_media_type c)"
    using sample_is_plain by (auto simp: sample_plain_def)
  have new: "argon2_new 3 65536 4 = Inr libreoffice_default"
    by (simp add: argon2_new_Ok libreoffice_default_def wholesome_profile_def int_limits)
  show ?thesis
    by (rule encryption_succeeds [OF list_zip_documented(1) sample_codec list_zip_documented(2) _ _ _ _ _ _ _ _ _ _ _
          c(1-3) _ c(4) _ _ _ _ new])
       (simp_all add: sample_plain_def rich_host_def counting_rng_def int_limits sample_crypto_documented
         segments_patience_def whole_def, simp_all)
qed

text \<open>
  C39. A successful encryption has read a plaintext package LibreOffice would open and written three members: the
  media type, the AES-GCM member whose ciphertext, under the key derived from the password and the fresh
  salt, is one DEFLATE stream of exactly the input, and the manifest for that size, IV, salt and cost.
\<close>

theorem encryption_seals_the_input:
  assumes "zip_documented zc xgood members archived calm" "codec_documented (cr_deflate k) dec compressing pending"
    and "segments_good (ps_bytes src)"
    and "encrypt_with_params_to k h xml_events rng zc read_segments src w password ps = Some (Inr w')"
  shows "\<exists>se class archive salt out. prepared (cr_crypto k) h xml_events rng src password ps se class archive salt
    \<and> archived w' = sealed_members k se out \<and> dec [] out = Some (segments_content (ps_bytes src), length out)
    \<and> length (segments_content (ps_bytes src)) = se_size se \<and> gcm_sizes (se_key se) (se_iv se)"
proof -
  have run: "encrypt_run k h xml_events rng zc read_segments src w password ps None = Some (Inr w')"
    using assms(4) by (auto simp: encrypt_with_params_to_def latch_result_def split: if_splits option.splits)
  then obtain se where se: "prepare (cr_crypto k) h xml_events rng src password ps None = Inr se"
    "write_sealed k h zc read_segments (ps_bytes src) se w = Some (Inr w')"
    by (auto simp: encrypt_run_def split: sum.splits)
  obtain c archive salt where p: "prepared (cr_crypto k) h xml_events rng src password ps se c archive salt"
    using se(1) unfolding prepare_Ok by blast
  show ?thesis
    by (cases rule: write_sealed_result [OF assms(1-3), of h se w, case_names ok stop]) (use se(2) p in auto)
qed

theorem encryption_seals_witness:
  "\<exists>w' se c archive salt out. prepared sample_crypto rich_host (\<lambda>_. []) counting_rng sample_plain ''pw''
      libreoffice_default se c archive salt
    \<and> w' = sealed_members sample_crates se out \<and> stored_dec [] out = Some ([1, 2, 3], length out) \<and> se_size se = 3"
proof -
  obtain w' where run: "encrypt_with_params_to sample_crates rich_host (\<lambda>_. []) counting_rng list_zip read_segments
      sample_plain [] ''pw'' libreoffice_default = Some (Inr w')" using sample_encrypts by blast
  have ss: "segments_good (ps_bytes sample_plain)" by (simp add: sample_plain_def)
  have bytes: "segments_content (ps_bytes sample_plain) = [1, 2, 3]" "length [1, 2, 3 :: byte] = 3"
    by (simp_all add: sample_plain_def)
  from encryption_seals_the_input [OF list_zip_documented(1) sample_codec ss run, unfolded bytes sample_crates_simps id_apply]
  show ?thesis by metis
qed

end
