(* ===== verification/Spec2Isabelle.thy ===== *)
theory Spec2Isabelle
  imports Encrypt_Result
begin

text \<open>
  A verification development for the \<^verbatim>\<open>odf-crypto\<close> crate, which classifies, decrypts, encrypts and
  re-encrypts password-protected OpenDocument packages the way LibreOffice does.

  \<^bold>\<open>The program.\<close>  A package is a zip.  \<^verbatim>\<open>classify\<close> (\<^verbatim>\<open>src/classify.rs\<close>) reads its directory into a folder
  tree (\<^verbatim>\<open>src/zip_tree.rs\<close>), its manifest into a list of property bags (\<^verbatim>\<open>src/manifest.rs\<close>), and decides
  from both, row by row, what the package is: plain, one encrypted inner package (wholesome), or
  encrypted entry by entry.  \<^verbatim>\<open>decrypt\<close> screens that classification (\<^verbatim>\<open>src/decrypt.rs\<close>), derives keys
  (\<^verbatim>\<open>src/kdf.rs\<close>, \<^verbatim>\<open>src/ms1252.rs\<close>) and streams each encrypted member through its cipher, a check of the
  password, and an inflater (\<^verbatim>\<open>src/stream.rs\<close>, \<^verbatim>\<open>src/decrypt_stream.rs\<close>).  The caller's own I/O errors are
  kept apart by \<^verbatim>\<open>src/io_latch.rs\<close>.

  \<^bold>\<open>Theories, from the bottom.\<close>
  \<^item> \<^verbatim>\<open>Odf_Prelude\<close>: results as sums, fixed-width integers, little-endian fields, UTF-8 and its lossy
    decoding, decimal numerals.
  \<^item> \<^verbatim>\<open>Odf_Types\<close>, \<^verbatim>\<open>Odf_Uris\<close>, \<^verbatim>\<open>Odf_Limits\<close>: \<^verbatim>\<open>types.rs\<close>, \<^verbatim>\<open>uris.rs\<close>, and \<^verbatim>\<open>limits.rs\<close> with \<^verbatim>\<open>bad_parameter.rs\<close>
    and \<^verbatim>\<open>DecryptLimits\<close>.  The URI tables are shown to invert what is written, and a refusal is shown true.
  \<^item> \<^verbatim>\<open>Manifest_Text\<close>, \<^verbatim>\<open>Manifest_Import\<close>: the text level of \<^verbatim>\<open>manifest.rs\<close> (LibreOffice's integers, Base64,
    attribute values) with its round trips, and the import itself as a fold over XML events with its
    stack invariant and the well-formedness of the bags it yields.
  \<^item> \<^verbatim>\<open>Zip_Tree\<close>: \<^verbatim>\<open>zip_tree.rs\<close>; every reachable tree resolves a path to the member it names, marks touch
    one stream, the search for unexpected streams is exact.
  \<^item> \<^verbatim>\<open>Classify\<close>: \<^verbatim>\<open>classify.rs\<close> over both; a classification is consistent, member names are distinct.
  \<^item> \<^verbatim>\<open>Strip_Manifest\<close>: the manifest rewrite of \<^verbatim>\<open>decrypt.rs\<close> and the bytes of the tags it writes; the rewrite of
    an ordinary manifest classifies plain, and a value with a double quote is shown to come out as markup.
  \<^item> \<^verbatim>\<open>Ms1252\<close>, \<^verbatim>\<open>Kdf\<close>: the Windows-1252 tables, start keys, StarOffice's faulty SHA-1 against SHA-1, and the
    screens around Argon2id with the memory they allow.
  \<^item> \<^verbatim>\<open>Decrypt\<close>: the screens, member lookup and key derivation of \<^verbatim>\<open>decrypt.rs\<close>.
  \<^item> \<^verbatim>\<open>Stream_Io\<close>, \<^verbatim>\<open>Io_Latch\<close>, \<^verbatim>\<open>Io_Write\<close>: readers and writers.  The locale \<^verbatim>\<open>source\<close> is the contract of \<^verbatim>\<open>Read\<close>
    (a content, an end, a bound on interruptions), the locale \<^verbatim>\<open>sink\<close> that of \<^verbatim>\<open>Write\<close>; scripted readers and
    writers, the latch, the fixed slice and the latched writer are shown to meet them.
  \<^item> \<^verbatim>\<open>Gcm\<close>, \<^verbatim>\<open>Gcm_Readers\<close>, \<^verbatim>\<open>Cbc_Reader\<close>, \<^verbatim>\<open>Checked_Readers\<close>, \<^verbatim>\<open>Inflate_Reader\<close>, \<^verbatim>\<open>Deflate_Writer\<close>: the streams
    of \<^verbatim>\<open>stream.rs\<close>.  Each reader is a sublocale of \<^verbatim>\<open>source\<close> over any other source, so they compose as the
    code composes them; each equals a whole-buffer specification whatever the chunking.
  \<^item> \<^verbatim>\<open>Package\<close>, \<^verbatim>\<open>Decrypt_Stream\<close>, \<^verbatim>\<open>Two_Passes\<close>: \<^verbatim>\<open>decrypt_stream.rs\<close>.  A package delivers, for each opening of
    a member, what that opening reads, so an input that changes between the passes is in the model.
  \<^item> \<^verbatim>\<open>Zip_Stream\<close>, \<^verbatim>\<open>Zip_Layout\<close>, \<^verbatim>\<open>Zip_Round_Trip\<close>: the writer of \<^verbatim>\<open>zip_stream.rs\<close> at byte level, a strict reader
    written from the format, and what that reader finds in whatever the writer has written.
  \<^item> \<^verbatim>\<open>Decrypt_Entries\<close>, \<^verbatim>\<open>Decrypt_To\<close>: the per-entry rebuild of \<^verbatim>\<open>decrypt_entries.rs\<close> and the entry points of
    \<^verbatim>\<open>decrypt_stream.rs\<close>; the whole-buffer path equals the streaming one.
  \<^item> \<^verbatim>\<open>Encrypt\<close>, \<^verbatim>\<open>Encrypt_Stream\<close>, \<^verbatim>\<open>Encrypt_Result\<close>: \<^verbatim>\<open>encrypt.rs\<close> (cost tuples, media type, manifest) and
    \<^verbatim>\<open>encrypt_stream.rs\<close>; the manifest reads back as what it was written for, and a success has written an
    authentic member that decrypts and inflates to the input.

  \<^bold>\<open>Parameters.\<close>  Code outside \<^verbatim>\<open>src/\<close> is an argument of the definitions that use it: the XML tokenizer
  (\<^verbatim>\<open>xml_events\<close>, \<^verbatim>\<open>reader\<close>), the zip crate (\<^verbatim>\<open>archive\<close>, \<^verbatim>\<open>package\<close>), the hash, PBKDF2 and argon2 crates (\<^verbatim>\<open>crypto\<close>), AES
  and GHASH blocks (\<^verbatim>\<open>gcm_lib\<close>), the CBC and Blowfish decryptors, miniz (\<^verbatim>\<open>inflate_lib\<close>, \<^verbatim>\<open>deflate_lib\<close>), the
  allocator and thread spawning (\<^verbatim>\<open>host\<close>).  Where a theorem needs their documented behaviour it is a named
  hypothesis (\<^verbatim>\<open>crypto_documented\<close>, \<^verbatim>\<open>inflate_documented\<close>, and so on), and its witness runs on a concrete
  instance that satisfies it.

  \<^bold>\<open>Loops and bounds.\<close>  Loops over readers and writers are \<^theory_text>\<open>partial_function (option)\<close>: \<^const>\<open>None\<close> is a call
  that never returns, and every theorem about one proves that it returns.  The inflater's \<^verbatim>\<open>steps\<close> carries
  fuel in its specification only, and the fuel is twice the input ahead plus what may still be produced,
  which every step decreases.  Other loops are structural or terminate by a measure.

  \<^bold>\<open>Not modelled.\<close>  Text of \<^verbatim>\<open>Display\<close> implementations beyond what the code inspects; wiping of secrets
  (\<^verbatim>\<open>sensitive.rs\<close>), which has no observable result; \<^verbatim>\<open>unsafe\<close> and concurrency occur only in the argon2 lane
  threads, of which the model keeps the spawn failures.  \<^verbatim>\<open>SeekableZipSink\<close> (\<^verbatim>\<open>zip_stream.rs\<close>) and the messages of
  \<^verbatim>\<open>zip_err.rs\<close>, whose content is the zip crate's; the re-keying entry point of \<^verbatim>\<open>reencrypt.rs\<close>, which joins the
  decryption and encryption streams; the command line (\<^verbatim>\<open>bin/odf-crypto.rs\<close>) and the documentation-only
  modules.
\<close>

end
